(* ===== verification/Prelude.thy ===== *)
theory Prelude
  imports Main "HOL-Library.Word"
begin

text \<open>
  What the components share: the machine types of the Go code, byte slices with
  their big-endian accessors (package \<^verbatim>\<open>encoding/binary\<close>), the
  built-in \<^verbatim>\<open>copy\<close>, and the lemmas on lists and words that carry the
  component proofs.

  A Go byte slice is a list of 8-bit words. \<open>gslice i j b\<close> is \<open>b[i:j]\<close>,
  \<open>get16 b i\<close> is \<open>binary.BigEndian.Uint16(b[i:])\<close>, \<open>put16 b i v\<close> is
  \<open>binary.BigEndian.PutUint16(b[i:], v)\<close> and \<open>copy_at i src dst\<close> is
  \<open>copy(dst[i:], src)\<close>. They are meaningful where the Go expression does not
  panic, that is for offsets inside the slice; the components state as
  invariants that their offsets are.
\<close>

unbundle bit_operations_syntax

named_theorems slice_simps \<open>length and element lemmas of slices and buffer writes\<close>
named_theorems unat_simps \<open>word operations as arithmetic on natural numbers\<close>

subsection \<open>Machine types\<close>

type_synonym byte = "8 word"
type_synonym u16 = "16 word"
type_synonym u32 = "32 word"
type_synonym u64 = "64 word"
type_synonym u128 = "128 word"

subsection \<open>Slices and buffers\<close>

definition gslice :: "nat \<Rightarrow> nat \<Rightarrow> 'a list \<Rightarrow> 'a list" where
  "gslice i j b = take (j - i) (drop i b)"

definition get16 :: "byte list \<Rightarrow> nat \<Rightarrow> u16" where
  "get16 b i = push_bit 8 (ucast (b ! i)) OR ucast (b ! (i + 1))"

definition get32 :: "byte list \<Rightarrow> nat \<Rightarrow> u32" where
  "get32 b i = push_bit 24 (ucast (b ! i)) OR push_bit 16 (ucast (b ! (i + 1)))
     OR push_bit 8 (ucast (b ! (i + 2))) OR ucast (b ! (i + 3))"

definition hi8 :: "u16 \<Rightarrow> byte" where
  "hi8 v = ucast (drop_bit 8 v)"

definition lo8 :: "u16 \<Rightarrow> byte" where
  "lo8 v = ucast v"

definition put16 :: "byte list \<Rightarrow> nat \<Rightarrow> u16 \<Rightarrow> byte list" where
  "put16 b i v = b[i := hi8 v, i + 1 := lo8 v]"

definition put32 :: "byte list \<Rightarrow> nat \<Rightarrow> u32 \<Rightarrow> byte list" where
  "put32 b i v =
     b[i := ucast (drop_bit 24 v), i + 1 := ucast (drop_bit 16 v),
       i + 2 := ucast (drop_bit 8 v), i + 3 := ucast v]"

definition copy_at :: "nat \<Rightarrow> 'a list \<Rightarrow> 'a list \<Rightarrow> 'a list" where
  "copy_at i src dst = take i dst @ take (length dst - i) src @ drop (i + length src) dst"

text \<open>An IP address as a machine word, and back: \<open>[n]byte\<close> in network order.\<close>

definition bytes_word :: "byte list \<Rightarrow> 'a::len word" where
  "bytes_word bs = foldl (\<lambda>acc b. push_bit 8 acc OR ucast b) 0 bs"

definition word_bytes :: "nat \<Rightarrow> 'a::len word \<Rightarrow> byte list" where
  "word_bytes n w = map (\<lambda>i. ucast (drop_bit (8 * (n - 1 - i)) w)) [0..<n]"

subsection \<open>Lists\<close>

lemma list_update_Cons_numeral [simp]:
  "(x # xs)[numeral v := y] = x # xs[numeral v - 1 := y]"
  by (simp add: numeral_eq_Suc)

lemma length_slice [slice_simps, simp]: "length (gslice i j b) = min (j - i) (length b - i)"
  by (simp add: gslice_def)

lemma nth_slice [slice_simps]: "k < j - i \<Longrightarrow> i + k < length b \<Longrightarrow> gslice i j b ! k = b ! (i + k)"
  by (simp add: gslice_def)

lemma slice_all: "length b \<le> j \<Longrightarrow> gslice 0 j b = b"
  by (simp add: gslice_def)

lemma slice_append_left [slice_simps]: "j \<le> length xs \<Longrightarrow> gslice i j (xs @ ys) = gslice i j xs"
  by (simp add: gslice_def)

lemma slice_append_right [slice_simps]:
  "length xs \<le> i \<Longrightarrow> gslice i j (xs @ ys) = gslice (i - length xs) (j - length xs) ys"
  by (simp add: gslice_def)

lemma slice_slice: "gslice i j (gslice k l b) = gslice (k + i) (min (k + j) l) b"
proof -
  have "min (j - i) (l - k - i) = min (k + j) l - (k + i)" by (simp add: min_def)
  then show ?thesis by (simp add: gslice_def drop_take ac_simps)
qed

lemma append_slice_drop: "i \<le> j \<Longrightarrow> gslice i j b @ drop j b = drop i b"
  using append_take_drop_id [of "j - i" "drop i b"] by (simp add: gslice_def)

lemma length_put16 [slice_simps, simp]: "length (put16 b i v) = length b"
  by (simp add: put16_def)

lemma length_put32 [slice_simps, simp]: "length (put32 b i v) = length b"
  by (simp add: put32_def)

lemma length_copy_at [slice_simps, simp]:
  "i \<le> length dst \<Longrightarrow> length (copy_at i src dst) = length dst"
  by (simp add: copy_at_def min_def)

lemma length_word_bytes [slice_simps, simp]: "length (word_bytes n w) = n"
  by (simp add: word_bytes_def)

subsection \<open>Words\<close>

lemma word_or_disjoint_unat:
  assumes "\<And>n. \<not> (bit a n \<and> bit b n)"
  shows "unat (a OR b) = unat a + unat (b :: 'a::len word)"
proof -
  have "unat a AND unat b = 0"
    by (rule bit_eqI) (use assms in \<open>auto simp: bit_simps\<close>)
  then have "unat a + unat b = unat a OR unat b" by (rule disjunctive_add_eq_or)
  then show ?thesis by (simp add: unsigned_or_eq)
qed

lemma unat_byte_less: "unat (x :: byte) < 256"
  using unsigned_less [of x, where ?'a = nat] by simp

lemma unat_be16:
  "unat (push_bit 8 (ucast (x::byte)) OR ucast (y::byte) :: u16) = 256 * unat x + unat y"
proof -
  have "unat (push_bit 8 (ucast x) OR ucast y :: u16)
      = unat (push_bit 8 (ucast x) :: u16) + unat (ucast y :: u16)"
    by (rule word_or_disjoint_unat) (auto simp: bit_simps dest!: bit_imp_le_length)
  with unat_byte_less [of x] unat_byte_less [of y] show ?thesis
    by (simp add: unat_word_ariths unsigned_ucast_eq take_bit_eq_mod push_bit_eq_mult)
qed

lemma unat_be32:
  "unat (push_bit 24 (ucast (w::byte)) OR push_bit 16 (ucast (x::byte))
      OR push_bit 8 (ucast (y::byte)) OR ucast (z::byte) :: u32)
   = 16777216 * unat w + 65536 * unat x + 256 * unat y + unat z"
proof -
  note b = unat_byte_less [of w] unat_byte_less [of x] unat_byte_less [of y] unat_byte_less [of z]
  have 1: "unat (push_bit 8 (ucast y) OR ucast z :: u32)
     = unat (push_bit 8 (ucast y) :: u32) + unat (ucast z :: u32)"
    by (rule word_or_disjoint_unat) (auto simp: bit_simps dest!: bit_imp_le_length)
  have 2: "unat (push_bit 16 (ucast x) OR (push_bit 8 (ucast y) OR ucast z) :: u32)
     = unat (push_bit 16 (ucast x) :: u32) + unat (push_bit 8 (ucast y) OR ucast z :: u32)"
    by (rule word_or_disjoint_unat) (auto simp: bit_simps dest!: bit_imp_le_length)
  have 3: "unat (push_bit 24 (ucast w) OR (push_bit 16 (ucast x) OR (push_bit 8 (ucast y) OR ucast z)) :: u32)
     = unat (push_bit 24 (ucast w) :: u32)
       + unat (push_bit 16 (ucast x) OR (push_bit 8 (ucast y) OR ucast z) :: u32)"
    by (rule word_or_disjoint_unat) (auto simp: bit_simps dest!: bit_imp_le_length)
  have e: "unat (push_bit 24 (ucast w) :: u32) = 16777216 * unat w"
      "unat (push_bit 16 (ucast x) :: u32) = 65536 * unat x"
      "unat (push_bit 8 (ucast y) :: u32) = 256 * unat y" "unat (ucast z :: u32) = unat z"
    using b by (simp_all add: unat_word_ariths unsigned_ucast_eq take_bit_eq_mod push_bit_eq_mult)
  show ?thesis unfolding or.assoc using 1 2 3 e by simp
qed

lemma unat_get16 [unat_simps]: "unat (get16 b i) = 256 * unat (b ! i) + unat (b ! (i + 1))"
  by (simp add: get16_def unat_be16)

lemma unat_get32 [unat_simps]:
  "unat (get32 b i) = 16777216 * unat (b ! i) + 65536 * unat (b ! (i + 1))
     + 256 * unat (b ! (i + 2)) + unat (b ! (i + 3))"
  by (simp add: get32_def unat_be32)

lemma unat_hi8 [unat_simps]: "unat (hi8 v) = unat v div 256"
  using unsigned_less [of v, where ?'a = nat]
  by (simp add: hi8_def unsigned_ucast_eq take_bit_eq_mod drop_bit_eq_div unat_div_distrib)

lemma unat_lo8 [unat_simps]: "unat (lo8 v) = unat v mod 256"
  by (simp add: lo8_def unsigned_ucast_eq take_bit_eq_mod)

lemma be16_hi_lo: "push_bit 8 (ucast (hi8 v)) OR ucast (lo8 v) = v"
  by (simp add: word_unat_eq_iff unat_be16 unat_hi8 unat_lo8)

lemma get16_put16 [simp]: "i + 1 < length b \<Longrightarrow> get16 (put16 b i v) i = v"
  by (simp add: get16_def put16_def be16_hi_lo)

lemma hi8_be16 [simp]: "hi8 (push_bit 8 (ucast x) OR ucast y) = x"
  and lo8_be16 [simp]: "lo8 (push_bit 8 (ucast x) OR ucast y) = y"
  using unat_byte_less [of x] unat_byte_less [of y]
  by (simp_all add: word_unat_eq_iff unat_be16 unat_hi8 unat_lo8)

lemma bit_bytes_word:
  "bit (bytes_word bs :: 'a::len word) i \<longleftrightarrow>
     i < LENGTH('a) \<and> i div 8 < length bs \<and> bit (bs ! (length bs - 1 - i div 8)) (i mod 8)"
proof (induction bs arbitrary: i rule: rev_induct)
  case Nil
  then show ?case by (simp add: bytes_word_def)
next
  case (snoc b bs)
  have step: "bytes_word (bs @ [b]) = (push_bit 8 (bytes_word bs) OR ucast b :: 'a word)"
    by (simp add: bytes_word_def)
  show ?case
  proof (cases "i < 8")
    case True
    then show ?thesis by (auto simp: step bit_simps snoc.IH nth_append)
  next
    case False
    then have d: "i div 8 = Suc ((i - 8) div 8)" and m: "i mod 8 = (i - 8) mod 8"
      by (simp_all add: le_div_geq le_mod_geq)
    have "\<not> bit b i" using False by (auto dest: bit_imp_le_length)
    then show ?thesis
      using False by (auto simp: step bit_simps snoc.IH nth_append d m)
  qed
qed

lemma nth_word_bytes: "i < n \<Longrightarrow> word_bytes n w ! i = ucast (drop_bit (8 * (n - 1 - i)) w)"
  by (simp add: word_bytes_def)

lemma bytes_word_word_bytes:
  assumes "LENGTH('a) = 8 * n"
  shows "bytes_word (word_bytes n w) = (w :: 'a::len word)"
proof (rule bit_eqI)
  fix k assume "possible_bit TYPE('a word) k"
  then have k: "k < 8 * n" using assms by simp
  then have "k div 8 < n" by (simp add: less_mult_imp_div_less mult.commute)
  moreover have "8 * (n - 1 - (n - 1 - k div 8)) + k mod 8 = k" using \<open>k div 8 < n\<close> by simp
  ultimately show "bit (bytes_word (word_bytes n w) :: 'a word) k = bit w k"
    using k assms by (simp add: bit_bytes_word nth_word_bytes bit_simps)
qed

lemma word_bytes_bytes_word:
  assumes "length bs = n" "8 * n \<le> LENGTH('a)"
  shows "word_bytes n (bytes_word bs :: 'a::len word) = bs"
proof (rule nth_equalityI)
  show "length (word_bytes n (bytes_word bs :: 'a word)) = length bs" using assms by simp
next
  fix i assume "i < length (word_bytes n (bytes_word bs :: 'a word))"
  then have i: "i < n" by simp
  show "word_bytes n (bytes_word bs :: 'a word) ! i = bs ! i"
  proof (rule bit_eqI)
    fix k assume "possible_bit TYPE(byte) k"
    then have k: "k < 8" by simp
    have d: "(8 * (n - 1 - i) + k) div 8 = n - 1 - i" "(8 * (n - 1 - i) + k) mod 8 = k" using k by simp_all
    have "8 * (n - 1 - i) + k < 8 * n" using i k by simp
    then have "8 * (n - 1 - i) + k < LENGTH('a)" using assms(2) by simp
    then show "bit (word_bytes n (bytes_word bs :: 'a word) ! i) k = bit (bs ! i) k"
      using i k assms(1) by (simp add: nth_word_bytes bit_simps bit_bytes_word d)
  qed
qed

subsection \<open>Writes into slices\<close>

lemma slice_list_update: "gslice a (a + n) (b[a + i := v]) = (gslice a (a + n) b)[i := v]"
  by (simp add: gslice_def drop_update_swap take_update_swap)

lemma slice_put16: "gslice a (a + n) (put16 b (a + i) v) = put16 (gslice a (a + n) b) i v"
  by (simp only: put16_def add.assoc slice_list_update)

lemma take_put16_beyond: "n \<le> i \<Longrightarrow> take n (put16 b i v) = take n b"
  by (simp add: put16_def)

lemma get16_append: "i + 1 < length xs \<Longrightarrow> get16 (xs @ ys) i = get16 xs i"
  by (simp add: get16_def nth_append)

lemma put16_append: "i + 1 < length xs \<Longrightarrow> put16 (xs @ ys) i v = put16 xs i v @ ys"
  by (simp add: put16_def list_update_append)

lemma get16_take: "i + 1 < n \<Longrightarrow> get16 (take n b) i = get16 b i"
  by (simp add: get16_def)

subsection \<open>Writes in the parts of a buffer\<close>

lemma list_update_append_right [slice_simps]: "length xs \<le> i \<Longrightarrow> (xs @ ys)[i := v] = xs @ ys[i - length xs := v]"
  by (simp add: list_update_append)

lemma put16_append_right [slice_simps]: "length xs \<le> i \<Longrightarrow> put16 (xs @ ys) i v = xs @ put16 ys (i - length xs) v"
  by (simp add: put16_def list_update_append Suc_diff_le)

lemma put32_append_left [slice_simps]: "i + 3 < length xs \<Longrightarrow> put32 (xs @ ys) i v = put32 xs i v @ ys"
  by (simp add: put32_def list_update_append)

lemma put32_append_right [slice_simps]: "length xs \<le> i \<Longrightarrow> put32 (xs @ ys) i v = xs @ put32 ys (i - length xs) v"
  by (simp add: put32_def list_update_append Suc_diff_le)

lemma copy_at_append_left [slice_simps]: "i + length s \<le> length xs \<Longrightarrow> copy_at i s (xs @ ys) = copy_at i s xs @ ys"
  by (simp add: copy_at_def)

lemma copy_at_append_right [slice_simps]: "length xs \<le> i \<Longrightarrow> copy_at i s (xs @ ys) = xs @ copy_at (i - length xs) s ys"
  by (simp add: copy_at_def add.commute)

lemma copy_at_all [slice_simps]: "length s = length d \<Longrightarrow> copy_at 0 s d = s"
  by (simp add: copy_at_def)

lemma list_update_append_left [slice_simps]: "i < length xs \<Longrightarrow> (xs @ ys)[i := v] = xs[i := v] @ ys"
  by (simp add: list_update_append)

lemma explode8: "length xs = 8 \<Longrightarrow> xs = [xs ! 0, xs ! 1, xs ! 2, xs ! 3, xs ! 4, xs ! 5, xs ! 6, xs ! 7]"
proof -
  have "map ((!) xs) [0..<8] = [xs ! 0, xs ! 1, xs ! 2, xs ! 3, xs ! 4, xs ! 5, xs ! 6, xs ! 7]"
    by (simp add: upt_rec numeral_eq_Suc)
  then show "length xs = 8 \<Longrightarrow> ?thesis" by (metis map_nth)
qed

lemma explode12: "length xs = 12 \<Longrightarrow> xs = [xs ! 0, xs ! 1, xs ! 2, xs ! 3, xs ! 4, xs ! 5, xs ! 6, xs ! 7, xs ! 8, xs ! 9, xs ! 10, xs ! 11]"
proof -
  have "map ((!) xs) [0..<12] = [xs ! 0, xs ! 1, xs ! 2, xs ! 3, xs ! 4, xs ! 5, xs ! 6, xs ! 7, xs ! 8, xs ! 9, xs ! 10, xs ! 11]"
    by (simp add: upt_rec numeral_eq_Suc)
  then show "length xs = 12 \<Longrightarrow> ?thesis" by (metis map_nth)
qed

lemma length8_cases:
  assumes "length xs = 8"
  obtains a0 a1 a2 a3 a4 a5 a6 a7 where "xs = [a0, a1, a2, a3, a4, a5, a6, a7]"
  using explode8 [OF assms] by blast

lemma length12_cases:
  assumes "length xs = 12"
  obtains a0 a1 a2 a3 a4 a5 a6 a7 a8 a9 a10 a11 where "xs = [a0, a1, a2, a3, a4, a5, a6, a7, a8, a9, a10, a11]"
  using explode12 [OF assms] by blast

lemma split3: 
  assumes "length b = i + j + k"
  obtains x y z where "b = x @ y @ z" "length x = i" "length y = j" "length z = k"
proof
  show "b = take i b @ take j (drop i b) @ drop (i + j) b"
    by (metis append_take_drop_id drop_drop add.commute)
qed (use assms in auto)

lemma copy_two:
  "length h = i \<Longrightarrow> length b = i + length d \<Longrightarrow> copy_at i d (copy_at 0 h b) = h @ d"
  by (simp add: copy_at_def)

lemma take_length_append: "length x = n \<Longrightarrow> take n (x @ y) = x" "length x = n \<Longrightarrow> drop n (x @ y) = y"
  by auto

subsection \<open>Evaluation\<close>

text \<open>Comparisons of a natural number with a literal are evaluated on binary integers.\<close>

lemma nat_of_num_compare [code_unfold]:
  "nat_of_num k < n \<longleftrightarrow> (numeral k :: int) < int n" "n < nat_of_num k \<longleftrightarrow> int n < numeral k"
  "nat_of_num k \<le> n \<longleftrightarrow> (numeral k :: int) \<le> int n" "n \<le> nat_of_num k \<longleftrightarrow> int n \<le> numeral k"
  by (simp_all add: nat_of_num_numeral)

end
