(* ===== verification/Netip.thy ===== *)
theory Netip
  imports Prelude
begin

text \<open>
  The part of Go's package \<^verbatim>\<open>net/netip\<close> that the program uses. An
  address is the zero \<open>Addr\<close>, an IPv4 address or an IPv6 address (kept, as the
  package does, as an integer; zones never reach the code modelled here). A prefix
  is an address with a number of bits, \<open>-1\<close> for an invalid one.
\<close>

datatype Addr = NoAddr | IPv4 u32 | IPv6 u128

record Prefix =
  pAddr :: Addr
  pBits :: int

definition NoPrefix :: Prefix where
  "NoPrefix = \<lparr>pAddr = NoAddr, pBits = - 1\<rparr>"

fun IsValid :: "Addr \<Rightarrow> bool" where
  "IsValid NoAddr = False"
| "IsValid _ = True"

fun Is4 :: "Addr \<Rightarrow> bool" where
  "Is4 (IPv4 _) = True"
| "Is4 _ = False"

fun Is6 :: "Addr \<Rightarrow> bool" where
  "Is6 (IPv6 _) = True"
| "Is6 _ = False"

text \<open>\<open>Is4In6\<close>: an IPv4-mapped IPv6 address \<open>::ffff:a.b.c.d\<close>.\<close>

fun Is4In6 :: "Addr \<Rightarrow> bool" where
  "Is4In6 (IPv6 w) = (drop_bit 32 w = 0xffff)"
| "Is4In6 _ = False"

fun BitLen :: "Addr \<Rightarrow> nat" where
  "BitLen NoAddr = 0"
| "BitLen (IPv4 _) = 32"
| "BitLen (IPv6 _) = 128"

text \<open>
  \<open>As4\<close> panics on an address that is neither IPv4 nor IPv4-mapped; the program
  calls it on IPv4 addresses only, and the model returns the low bytes.
\<close>

fun As4 :: "Addr \<Rightarrow> byte list" where
  "As4 (IPv4 w) = word_bytes 4 w"
| "As4 (IPv6 w) = word_bytes 4 w"
| "As4 NoAddr = []"

fun As16 :: "Addr \<Rightarrow> byte list" where
  "As16 NoAddr = replicate 16 0"
| "As16 (IPv4 w) = replicate 10 0 @ [0xff, 0xff] @ word_bytes 4 w"
| "As16 (IPv6 w) = word_bytes 16 w"

definition AddrFrom4 :: "byte list \<Rightarrow> Addr" where
  "AddrFrom4 b = IPv4 (bytes_word b)"

definition AddrFrom16 :: "byte list \<Rightarrow> Addr" where
  "AddrFrom16 b = IPv6 (bytes_word b)"

definition PrefixFrom :: "Addr \<Rightarrow> int \<Rightarrow> Prefix" where
  "PrefixFrom a n =
     (if a \<noteq> NoAddr \<and> 0 \<le> n \<and> n \<le> int (BitLen a) then \<lparr>pAddr = a, pBits = n\<rparr>
      else \<lparr>pAddr = a, pBits = - 1\<rparr>)"

definition PIsValid :: "Prefix \<Rightarrow> bool" where
  "PIsValid p \<longleftrightarrow> 0 \<le> pBits p"

text \<open>The first \<open>n\<close> of the \<open>k\<close> bits of a word, the rest cleared.\<close>

definition mask_hi :: "nat \<Rightarrow> nat \<Rightarrow> 'a::len word \<Rightarrow> 'a word" where
  "mask_hi k n w = push_bit (k - n) (drop_bit (k - n) w)"

fun maskAddr :: "nat \<Rightarrow> Addr \<Rightarrow> Addr" where
  "maskAddr n NoAddr = NoAddr"
| "maskAddr n (IPv4 w) = IPv4 (mask_hi 32 n w)"
| "maskAddr n (IPv6 w) = IPv6 (mask_hi 128 n w)"

definition Masked :: "Prefix \<Rightarrow> Prefix" where
  "Masked p = (if PIsValid p then p\<lparr>pAddr := maskAddr (nat (pBits p)) (pAddr p)\<rparr> else NoPrefix)"

fun sameBits :: "nat \<Rightarrow> Addr \<Rightarrow> Addr \<Rightarrow> bool" where
  "sameBits n (IPv4 v) (IPv4 w) = (drop_bit (32 - n) v = drop_bit (32 - n) w)"
| "sameBits n (IPv6 v) (IPv6 w) = (drop_bit (128 - n) v = drop_bit (128 - n) w)"
| "sameBits n _ _ = False"

definition Contains :: "Prefix \<Rightarrow> Addr \<Rightarrow> bool" where
  "Contains p a \<longleftrightarrow> PIsValid p \<and> sameBits (nat (pBits p)) (pAddr p) a"

definition Overlaps :: "Prefix \<Rightarrow> Prefix \<Rightarrow> bool" where
  "Overlaps p q \<longleftrightarrow> PIsValid p \<and> PIsValid q \<and>
     (p = q \<or> sameBits (nat (min (pBits p) (pBits q))) (pAddr p) (pAddr q))"

text \<open>Prefixes as the package builds them: the length fits the address family.\<close>

definition wf_prefix :: "Prefix \<Rightarrow> bool" where
  "wf_prefix p \<longleftrightarrow> - 1 \<le> pBits p \<and> pBits p \<le> int (BitLen (pAddr p)) \<and> (pAddr p = NoAddr \<longrightarrow> pBits p = - 1)"

subsection \<open>Laws of the address conversions\<close>

lemma AddrFrom4_As4 [simp]: "Is4 a \<Longrightarrow> AddrFrom4 (As4 a) = a"
  by (cases a) (simp_all add: AddrFrom4_def bytes_word_word_bytes)

lemma AddrFrom16_As16 [simp]: "Is6 a \<Longrightarrow> AddrFrom16 (As16 a) = a"
  by (cases a) (simp_all add: AddrFrom16_def bytes_word_word_bytes)

lemma As4_AddrFrom4 [simp]: "length b = 4 \<Longrightarrow> As4 (AddrFrom4 b) = b"
  by (simp add: AddrFrom4_def word_bytes_bytes_word)

lemma As16_AddrFrom16 [simp]: "length b = 16 \<Longrightarrow> As16 (AddrFrom16 b) = b"
  by (simp add: AddrFrom16_def word_bytes_bytes_word)

lemma Is4_AddrFrom4 [simp]: "Is4 (AddrFrom4 b)" "\<not> Is6 (AddrFrom4 b)"
  by (simp_all add: AddrFrom4_def)

lemma Is6_AddrFrom16 [simp]: "Is6 (AddrFrom16 b)" "\<not> Is4 (AddrFrom16 b)"
  by (simp_all add: AddrFrom16_def)

lemma length_As4 [simp]: "a \<noteq> NoAddr \<Longrightarrow> length (As4 a) = 4"
  by (cases a) simp_all

lemma length_As16 [simp]: "length (As16 a) = 16"
  by (cases a) simp_all

lemma Is4_not_Is6: "Is4 a \<Longrightarrow> \<not> Is6 a"
  by (cases a) simp_all

subsection \<open>Laws of prefixes\<close>

lemma sameBits_sym: "sameBits n a b \<longleftrightarrow> sameBits n b a"
  by (cases a; cases b) auto

lemma sameBits_trans: "sameBits n a b \<Longrightarrow> sameBits n b c \<Longrightarrow> sameBits n a c"
  by (cases a; cases b; cases c) auto

lemma drop_bit_mono_eq:
  fixes v w :: "'a::len word"
  assumes "drop_bit j v = drop_bit j w" "j \<le> i"
  shows "drop_bit i v = drop_bit i w"
proof -
  have "drop_bit (i - j) (drop_bit j v) = drop_bit (i - j) (drop_bit j w)" using assms(1) by simp
  then show ?thesis using assms(2) by (simp add: drop_bit_drop_bit)
qed

lemma sameBits_mono: "sameBits n a b \<Longrightarrow> m \<le> n \<Longrightarrow> sameBits m a b"
  by (cases a; cases b) (auto intro: drop_bit_mono_eq)

text \<open>Two prefixes that both contain an address overlap.\<close>

lemma Contains_Overlaps:
  assumes "Contains p a" "Contains q a"
  shows "Overlaps p q"
proof -
  let ?m = "nat (min (pBits p) (pBits q))"
  have "sameBits ?m (pAddr p) a" "sameBits ?m (pAddr q) a"
    using assms by (auto simp: Contains_def elim!: sameBits_mono)
  then have "sameBits ?m (pAddr p) (pAddr q)"
    by (meson sameBits_sym sameBits_trans)
  with assms show ?thesis by (simp add: Overlaps_def Contains_def)
qed

lemma Contains_Is4: "Contains p a \<Longrightarrow> Is4 a \<longleftrightarrow> Is4 (pAddr p)"
  by (cases a; cases "pAddr p") (auto simp: Contains_def)

lemma Contains_Is6: "Contains p a \<Longrightarrow> Is6 a \<longleftrightarrow> Is6 (pAddr p)"
  by (cases a; cases "pAddr p") (auto simp: Contains_def)

end
