(* ===== verification/Netutil.thy ===== *)
theory Netutil
  imports Netip
begin

text \<open>
  \<^verbatim>\<open>src/internal/netutil/netutil.go\<close>: the classification of addresses and
  the RFC 6052 embedding of an IPv4 address in an IPv6 prefix. A Go array
  \<open>[4]byte\<close> or \<open>[16]byte\<close> is a list of that length; an error is the left part of
  a sum.
\<close>

subsection \<open>Classification\<close>

datatype IPv4Class = IPv4Valid | IPv4LinkLocal | IPv4Invalid

definition ClassifyIPv4 :: "byte list \<Rightarrow> IPv4Class" where
  "ClassifyIPv4 a =
     (if a ! 0 = 0 then IPv4Invalid
      else if a ! 0 = 127 then IPv4Invalid
      else if a ! 0 = 169 \<and> a ! 1 = 254 then IPv4LinkLocal
      else if a ! 0 AND 0xf0 = 0xe0 then IPv4Invalid
      else if a = [255, 255, 255, 255] then IPv4Invalid
      else IPv4Valid)"

definition ValidIPv6 :: "byte list \<Rightarrow> bool" where
  "ValidIPv6 a =
     (if a ! 0 = 0 \<and> a ! 1 = 0x64 \<and> a ! 2 = 0xff \<and> a ! 3 = 0x9b then True
      else if a ! 0 = 0 then False
      else if a ! 0 = 0xff then False
      else if a ! 0 = 0xfe \<and> a ! 1 AND 0xc0 = 0x80 then False
      else True)"

definition IsPrivateIPv4 :: "byte list \<Rightarrow> bool" where
  "IsPrivateIPv4 a =
     (if a ! 0 = 10 then True
      else if a ! 0 = 100 \<and> a ! 1 AND 0xc0 = 0x40 then True
      else if a ! 0 = 172 \<and> a ! 1 AND 0xf0 = 0x10 then True
      else if a ! 0 = 192 \<and> a ! 1 = 0 \<and> a ! 2 = 2 then True
      else if a ! 0 = 192 \<and> a ! 1 = 168 then True
      else if a ! 0 = 198 \<and> a ! 1 AND 0xfe = 0x12 then True
      else if a ! 0 = 198 \<and> a ! 1 = 51 \<and> a ! 2 = 100 then True
      else if a ! 0 = 203 \<and> a ! 1 = 0 \<and> a ! 2 = 113 then True
      else False)"

definition WellKnownPrefix :: Prefix where
  "WellKnownPrefix = \<lparr>pAddr = IPv6 0x0064ff9b000000000000000000000000, pBits = 96\<rparr>"

definition IsWellKnownPrefix :: "Prefix \<Rightarrow> bool" where
  "IsWellKnownPrefix p \<longleftrightarrow> pBits p = 96 \<and> pAddr p = pAddr WellKnownPrefix"

definition ValidRFC6052PrefixLen :: "int \<Rightarrow> bool" where
  "ValidRFC6052PrefixLen n \<longleftrightarrow> n \<in> {32, 40, 48, 56, 64, 96}"

subsection \<open>RFC 6052 embedding\<close>

text \<open>
  The two errors of the package, and the run-time panic of slicing an array beyond its
  end, which \<^verbatim>\<open>Embed\<close> reaches on a length that is no IPv6 prefix length.
\<close>

datatype netutil_error = ErrInvalidPrefixLen | ErrNotEmbedded | SliceBoundsPanic

definition Embed :: "byte list \<Rightarrow> int \<Rightarrow> byte list \<Rightarrow> netutil_error + byte list" where
  "Embed prefix prefixLen v4 =
     (if prefixLen \<le> - 8 \<or> 136 \<le> prefixLen then Inl SliceBoundsPanic
      else let out = copy_at 0 (take (nat (prefixLen div 8)) prefix) (replicate 16 0) in
        if prefixLen = 32 then Inr (copy_at 4 v4 out)
        else if prefixLen = 40 then Inr ((copy_at 5 (gslice 0 3 v4) out)[9 := v4 ! 3])
        else if prefixLen = 48 then Inr (copy_at 9 (gslice 2 4 v4) (copy_at 6 (gslice 0 2 v4) out))
        else if prefixLen = 56 then Inr (copy_at 9 (gslice 1 4 v4) (out[7 := v4 ! 0]))
        else if prefixLen = 64 then Inr (copy_at 9 v4 out)
        else if prefixLen = 96 then Inr (copy_at 12 v4 out)
        else Inl ErrInvalidPrefixLen)"

definition all_zero :: "byte list \<Rightarrow> bool" where
  "all_zero b = list_all (\<lambda>x. x = 0) b"

definition Extract :: "byte list \<Rightarrow> int \<Rightarrow> netutil_error + byte list" where
  "Extract v6 prefixLen =
     (if prefixLen = 32 then
        (if \<not> all_zero (gslice 8 16 v6) then Inl ErrNotEmbedded else Inr (gslice 4 8 v6))
      else if prefixLen = 40 then
        (if v6 ! 8 \<noteq> 0 \<or> \<not> all_zero (gslice 10 16 v6) then Inl ErrNotEmbedded
         else Inr (gslice 5 8 v6 @ [v6 ! 9]))
      else if prefixLen = 48 then
        (if v6 ! 8 \<noteq> 0 \<or> \<not> all_zero (gslice 11 16 v6) then Inl ErrNotEmbedded
         else Inr (gslice 6 8 v6 @ gslice 9 11 v6))
      else if prefixLen = 56 then
        (if v6 ! 8 \<noteq> 0 \<or> \<not> all_zero (gslice 12 16 v6) then Inl ErrNotEmbedded
         else Inr (v6 ! 7 # gslice 9 12 v6))
      else if prefixLen = 64 then
        (if v6 ! 8 \<noteq> 0 \<or> \<not> all_zero (gslice 13 16 v6) then Inl ErrNotEmbedded
         else Inr (gslice 9 13 v6))
      else if prefixLen = 96 then Inr (gslice 12 16 v6)
      else Inl ErrInvalidPrefixLen)"

subsection \<open>Laws of the embedding\<close>

lemma explode4: "length xs = 4 \<Longrightarrow> xs = [xs ! 0, xs ! 1, xs ! 2, xs ! 3]"
proof -
  have "map ((!) xs) [0..<4] = [xs ! 0, xs ! 1, xs ! 2, xs ! 3]"
    by (simp add: upt_rec numeral_eq_Suc)
  then show "length xs = 4 \<Longrightarrow> ?thesis" by (metis map_nth)
qed

lemma explode16:
  "length xs = 16 \<Longrightarrow> xs = [xs ! 0, xs ! 1, xs ! 2, xs ! 3, xs ! 4, xs ! 5, xs ! 6, xs ! 7,
     xs ! 8, xs ! 9, xs ! 10, xs ! 11, xs ! 12, xs ! 13, xs ! 14, xs ! 15]"
proof -
  have "map ((!) xs) [0..<16] = [xs ! 0, xs ! 1, xs ! 2, xs ! 3, xs ! 4, xs ! 5, xs ! 6, xs ! 7,
     xs ! 8, xs ! 9, xs ! 10, xs ! 11, xs ! 12, xs ! 13, xs ! 14, xs ! 15]"
    by (simp add: upt_rec numeral_eq_Suc)
  then show "length xs = 16 \<Longrightarrow> ?thesis" by (metis map_nth)
qed

lemma length4_cases:
  assumes "length (xs :: 'a list) = 4"
  obtains a b c d where "xs = [a, b, c, d]"
  using explode4 [OF assms] by blast

lemma length16_cases:
  assumes "length (xs :: 'a list) = 16"
  obtains a b c d e f g h i j k l m n p q where "xs = [a, b, c, d, e, f, g, h, i, j, k, l, m, n, p, q]"
  using explode16 [OF assms] by blast

lemma replicate16: "replicate 16 x = [x, x, x, x, x, x, x, x, x, x, x, x, x, x, x, x]"
  by (simp add: numeral_eq_Suc)

lemmas embed_simps =
  Embed_def Extract_def copy_at_def gslice_def all_zero_def Let_def replicate16

lemma ValidRFC6052PrefixLen_cases:
  assumes "ValidRFC6052PrefixLen n"
  obtains "n = 32" | "n = 40" | "n = 48" | "n = 56" | "n = 64" | "n = 96"
  using assms by (auto simp: ValidRFC6052PrefixLen_def)

lemma Embed_InrD: "Embed p n v4 = Inr a \<Longrightarrow> ValidRFC6052PrefixLen n"
  by (simp add: Embed_def Let_def ValidRFC6052PrefixLen_def split: if_splits)

lemma Extract_InrD: "Extract a n = Inr v4 \<Longrightarrow> ValidRFC6052PrefixLen n"
  by (simp add: Extract_def ValidRFC6052PrefixLen_def split: if_splits)

lemma length_Embed:
  assumes "Embed p n v4 = Inr a" "length p = 16" "length v4 = 4"
  shows "length a = 16"
  by (rule ValidRFC6052PrefixLen_cases [OF Embed_InrD [OF assms(1)]])
    (use assms in \<open>auto simp: Embed_def Let_def\<close>)

lemma length_Extract:
  assumes "Extract a n = Inr v4" "length a = 16"
  shows "length v4 = 4"
  by (rule ValidRFC6052PrefixLen_cases [OF Extract_InrD [OF assms(1)]])
    (use assms in \<open>auto simp: Extract_def split: if_splits\<close>)

text \<open>One case per prefix length, on explicit lists of bytes.\<close>

lemma Embed_Extract_take:
  assumes "length p = 16" "length v4 = 4" "Embed p n v4 = Inr a"
  shows "Extract a n = Inr v4" and "take (nat (n div 8)) a = take (nat (n div 8)) p"
proof -
  obtain a0 a1 a2 a3 where v4: "v4 = [a0, a1, a2, a3]" using assms(2) by (rule length4_cases)
  obtain b0 b1 b2 b3 b4 b5 b6 b7 b8 b9 b10 b11 b12 b13 b14 b15
    where p: "p = [b0, b1, b2, b3, b4, b5, b6, b7, b8, b9, b10, b11, b12, b13, b14, b15]"
    using assms(1) by (rule length16_cases)
  note e = assms(3) [symmetric]
  show "Extract a n = Inr v4"
    by (rule ValidRFC6052PrefixLen_cases [OF Embed_InrD [OF assms(3)]])
      (use e v4 p in \<open>simp_all add: embed_simps\<close>)
  show "take (nat (n div 8)) a = take (nat (n div 8)) p"
    by (rule ValidRFC6052PrefixLen_cases [OF Embed_InrD [OF assms(3)]])
      (use e v4 p in \<open>simp_all add: embed_simps\<close>)
qed

lemma Extract_Embed_same:
  assumes "length a = 16" "Extract a n = Inr v4"
  shows "Embed a n v4 = Inr a"
proof -
  obtain b0 b1 b2 b3 b4 b5 b6 b7 b8 b9 b10 b11 b12 b13 b14 b15
    where a: "a = [b0, b1, b2, b3, b4, b5, b6, b7, b8, b9, b10, b11, b12, b13, b14, b15]"
    using assms(1) by (rule length16_cases)
  note e = assms(2) [symmetric]
  show ?thesis
    by (rule ValidRFC6052PrefixLen_cases [OF Extract_InrD [OF assms(2)]])
      (use e a in \<open>simp_all add: embed_simps split: if_splits\<close>)
qed

lemma Embed_prefix_cong:
  assumes "take (nat (n div 8)) p = take (nat (n div 8)) q"
  shows "Embed p n v4 = Embed q n v4"
  using assms by (simp add: Embed_def)

subsection \<open>Classification as address ranges\<close>

text \<open>
  The ranges the comments of \<^verbatim>\<open>IsPrivateIPv4\<close> and \<^verbatim>\<open>IPv4Class\<close>
  name, as base address and prefix length.
\<close>

definition in_cidr4 :: "u32 \<Rightarrow> nat \<times> nat \<Rightarrow> bool" where
  "in_cidr4 w c \<longleftrightarrow> unat w div 2 ^ (32 - snd c) = fst c div 2 ^ (32 - snd c)"

definition private_ranges :: "(nat \<times> nat) list" where
  "private_ranges =
     [(0x0a000000, 8), (0x64400000, 10), (0xac100000, 12), (0xc0000200, 24),
      (0xc0a80000, 16), (0xc6120000, 15), (0xc6336400, 24), (0xcb007100, 24)]"

definition invalid_ranges :: "(nat \<times> nat) list" where
  "invalid_ranges = [(0, 8), (0x7f000000, 8), (0xe0000000, 4), (0xffffffff, 32)]"

lemma unat_byte_hi_mask: "unat (x AND NOT (mask k)) = unat x div 2 ^ k * 2 ^ k" for x :: byte
proof -
  have "unat x div 2 ^ k * 2 ^ k \<le> unat x" by simp
  then have b: "unat x div 2 ^ k * 2 ^ k < 256" using unat_byte_less [of x] by linarith
  have "x AND NOT (mask k) = push_bit k (drop_bit k x)"
    by (auto simp: bit_eq_iff bit_simps)
  then have "unat (x AND NOT (mask k)) = take_bit 8 (push_bit k (drop_bit k (unat x)))"
    by (simp add: unsigned_push_bit_eq unat_drop_bit_eq)
  also have "\<dots> = unat x div 2 ^ k * 2 ^ k"
    using b by (simp add: take_bit_eq_mod push_bit_eq_mult drop_bit_eq_div)
  finally show ?thesis .
qed

lemma byte_mask_numerals:
  "NOT (mask 6) = (0xc0 :: byte)" "NOT (mask 4) = (0xf0 :: byte)" "NOT (mask 1) = (0xfe :: byte)"
  by (simp_all add: mask_eq_exp_minus_1)

lemmas unat_byte_masks = unat_byte_hi_mask [of _ 6, unfolded byte_mask_numerals]
  unat_byte_hi_mask [of _ 4, unfolded byte_mask_numerals] 
  unat_byte_hi_mask [of _ 1, unfolded byte_mask_numerals]

lemma byte_masks:
  fixes x :: byte
  shows "x AND 0xc0 = 0x40 \<longleftrightarrow> unat x div 64 = 1" "x AND 0xf0 = 0x10 \<longleftrightarrow> unat x div 16 = 1"
    "x AND 0xfe = 0x12 \<longleftrightarrow> unat x div 2 = 9" "x AND 0xf0 = 0xe0 \<longleftrightarrow> unat x div 16 = 14"
  by (auto simp: word_unat_eq_iff unat_byte_masks)

lemma IPv4_bytes:
  obtains a b c d :: byte where "As4 (IPv4 w) = [a, b, c, d]"
    "unat w = 16777216 * unat a + 65536 * unat b + 256 * unat c + unat d"
proof -
  obtain a b c d where e: "As4 (IPv4 w) = [a, b, c, d]" using length_As4 length4_cases by blast
  have "w = bytes_word [a, b, c, d]" using e AddrFrom4_As4 [of "IPv4 w"] by (simp add: AddrFrom4_def)
  then have "unat w = unat (push_bit 24 (ucast a) OR push_bit 16 (ucast b) OR push_bit 8 (ucast c) OR ucast d :: u32)"
    by (simp add: bytes_word_def push_bit_or or.assoc)
  then have u: "unat w = 16777216 * unat a + 65536 * unat b + 256 * unat c + unat d"
    by (simp only: unat_be32)
  show ?thesis by (rule that [OF e u])
qed

lemma digits_div:
  fixes a b c d :: nat
  assumes "b < 256" "c < 256" "d < 256" and n: "n = 16777216 * a + 65536 * b + 256 * c + d"
  shows "n div 256 = 65536 * a + 256 * b + c" "n div 65536 = 256 * a + b" "n div 16777216 = a"
    "n div 131072 = 128 * a + b div 2" "n div 1048576 = 16 * a + b div 16" "n div 4194304 = 4 * a + b div 64"
    "n div 268435456 = a div 16"
proof -
  show c8: "n div 256 = 65536 * a + 256 * b + c" using assms by simp
  have "n div 65536 = n div 256 div 256" by (simp add: div_mult2_eq [symmetric])
  then show c16: "n div 65536 = 256 * a + b" using assms(2) by (simp only: c8; simp)
  have "n div 16777216 = n div 65536 div 256" by (simp add: div_mult2_eq [symmetric])
  then show c24: "n div 16777216 = a" using assms(1) by (simp only: c16; simp)
  have "n div 131072 = n div 65536 div 2" by (simp add: div_mult2_eq [symmetric])
  then show "n div 131072 = 128 * a + b div 2" by (simp only: c16; simp)
  have "n div 1048576 = n div 65536 div 16" by (simp add: div_mult2_eq [symmetric])
  then show "n div 1048576 = 16 * a + b div 16" by (simp only: c16; simp)
  have "n div 4194304 = n div 65536 div 64" by (simp add: div_mult2_eq [symmetric])
  then show "n div 4194304 = 4 * a + b div 64" by (simp only: c16; simp)
  have "n div 268435456 = n div 16777216 div 16" by (simp add: div_mult2_eq [symmetric])
  then show "n div 268435456 = a div 16" by (simp only: c24)
qed

lemma base_eq:
  "k * x + y = k * p + q \<longleftrightarrow> x = p \<and> y = q" if "y < k" "q < k" for k x y p q :: nat
  using that by (metis add.commute div_mult_self2 div_less mod_mult_self2 mod_less add_0 gr_implies_not0)

lemma digit_eqs:
  fixes a b c :: nat
  assumes "b < 256" "c < 256"
  shows "4 * a + b div 64 = 401 \<longleftrightarrow> a = 100 \<and> b div 64 = 1"
    "16 * a + b div 16 = 2753 \<longleftrightarrow> a = 172 \<and> b div 16 = 1"
    "128 * a + b div 2 = 25353 \<longleftrightarrow> a = 198 \<and> b div 2 = 9"
    "256 * a + b = 49320 \<longleftrightarrow> a = 192 \<and> b = 168"
    "65536 * a + 256 * b + c = 12582914 \<longleftrightarrow> a = 192 \<and> b = 0 \<and> c = 2"
    "65536 * a + 256 * b + c = 12989284 \<longleftrightarrow> a = 198 \<and> b = 51 \<and> c = 100"
    "65536 * a + 256 * b + c = 13303921 \<longleftrightarrow> a = 203 \<and> b = 0 \<and> c = 113"
proof -
  show "4 * a + b div 64 = 401 \<longleftrightarrow> a = 100 \<and> b div 64 = 1"
    using base_eq [of "b div 64" 4 1 a 100] assms by auto
  show "16 * a + b div 16 = 2753 \<longleftrightarrow> a = 172 \<and> b div 16 = 1"
    using base_eq [of "b div 16" 16 1 a 172] assms by auto
  show "128 * a + b div 2 = 25353 \<longleftrightarrow> a = 198 \<and> b div 2 = 9"
    using base_eq [of "b div 2" 128 9 a 198] assms by auto
  show s16: "256 * a + b = 49320 \<longleftrightarrow> a = 192 \<and> b = 168"
    using base_eq [of b 256 168 a 192] assms by auto
  have s: "65536 * a + 256 * b + c = 65536 * p + 256 * q + r \<longleftrightarrow> a = p \<and> b = q \<and> c = r"
    if "q < 256" "r < 256" for p q r
  proof -
    have "65536 * a + 256 * b + c = 256 * (256 * a + b) + c" "65536 * p + 256 * q + r = 256 * (256 * p + q) + r"
      by simp_all
    then show ?thesis using base_eq [of c 256 r "256 * a + b" "256 * p + q"] base_eq [of b 256 q a p] assms that by auto
  qed
  show "65536 * a + 256 * b + c = 12582914 \<longleftrightarrow> a = 192 \<and> b = 0 \<and> c = 2" using s [of 0 2 192] by simp
  show "65536 * a + 256 * b + c = 12989284 \<longleftrightarrow> a = 198 \<and> b = 51 \<and> c = 100" using s [of 51 100 198] by simp
  show "65536 * a + 256 * b + c = 13303921 \<longleftrightarrow> a = 203 \<and> b = 0 \<and> c = 113" using s [of 0 113 203] by simp
qed

lemma IsPrivateIPv4_ranges: "IsPrivateIPv4 (As4 (IPv4 w)) \<longleftrightarrow> list_ex (in_cidr4 w) private_ranges"
proof -
  obtain a b c d where e: "As4 (IPv4 w) = [a, b, c, d]"
    and w: "unat w = 16777216 * unat a + 65536 * unat b + 256 * unat c + unat d" by (rule IPv4_bytes)
  note dv = digits_div [OF unat_byte_less [of b] unat_byte_less [of c] unat_byte_less [of d] w]
  show ?thesis
    by (simp add: e [simplified] IsPrivateIPv4_def private_ranges_def in_cidr4_def dv digit_eqs [OF unat_byte_less unat_byte_less]
        byte_masks) (auto simp: word_unat_eq_iff)
qed

lemma ClassifyIPv4_ranges: "ClassifyIPv4 (As4 (IPv4 w)) = 
  (if list_ex (in_cidr4 w) invalid_ranges then IPv4Invalid
   else if in_cidr4 w (0xa9fe0000, 16) then IPv4LinkLocal else IPv4Valid)"
proof -
  obtain a b c d where e: "As4 (IPv4 w) = [a, b, c, d]"
    and w: "unat w = 16777216 * unat a + 65536 * unat b + 256 * unat c + unat d" by (rule IPv4_bytes)
  note lt = unat_byte_less [of a] unat_byte_less [of b] unat_byte_less [of c] unat_byte_less [of d]
  note dv = digits_div [OF lt(2-4) w]
  have 1: "256 * unat a + unat b = 43518 \<longleftrightarrow> a = 169 \<and> b = 254" 
    using base_eq [of "unat b" 256 254 "unat a" 169] lt by (simp add: word_unat_eq_iff)
  have 2: "unat w = 4294967295 \<longleftrightarrow> [a, b, c, d] = [255, 255, 255, 255]" 
    using lt w by (simp add: word_unat_eq_iff) linarith
  have 3: "unat a = 0 \<longleftrightarrow> a = 0" "unat a = 127 \<longleftrightarrow> a = 127" by (simp_all add: word_unat_eq_iff)
  show ?thesis
    by (auto simp add: e [simplified] ClassifyIPv4_def invalid_ranges_def in_cidr4_def dv 1 2 3 byte_masks)
qed

subsection \<open>Properties\<close>

lemma Embed_total: "ValidRFC6052PrefixLen n \<Longrightarrow> \<exists>a. Embed p n v4 = Inr a"
  by (auto simp: Embed_def Let_def ValidRFC6052PrefixLen_def)

text \<open>
  Claim C30. For each of the six RFC 6052 prefix lengths, \<^verbatim>\<open>Embed\<close> succeeds,
  produces an IPv6 address inside the prefix, and \<^verbatim>\<open>Extract\<close> gets the IPv4
  address back.
\<close>

theorem embed_extract:
  assumes "ValidRFC6052PrefixLen n" "length p = 16" "length v4 = 4"
  shows "\<exists>a. Embed p n v4 = Inr a \<and> length a = 16 \<and> Extract a n = Inr v4
           \<and> take (nat (n div 8)) a = take (nat (n div 8)) p"
  using assms Embed_total [of n p v4] length_Embed Embed_Extract_take by blast

theorem embed_extract_witness:
  "\<exists>a. Embed (0x20 # 0x01 # 0x0d # 0xb8 # 0x7f # replicate 11 0) 40 [192, 0, 2, 33] = Inr a \<and> length a = 16
     \<and> Extract a 40 = Inr [192, 0, 2, 33]
     \<and> take (nat (40 div 8)) a = take (nat (40 div 8)) (0x20 # 0x01 # 0x0d # 0xb8 # 0x7f # replicate 11 0)"
  by (rule embed_extract) (simp_all add: ValidRFC6052PrefixLen_def)

text \<open>
  Claim C31. Whatever \<^verbatim>\<open>Extract\<close> accepts is canonical: re-embedding the IPv4
  address it returns, in any prefix that agrees with the address on the prefix bits,
  gives the very address that was extracted from. In particular an address with a
  non-zero reserved octet or suffix is refused.
\<close>

theorem extract_embed:
  assumes "length a = 16" "Extract a n = Inr v4" "take (nat (n div 8)) p = take (nat (n div 8)) a"
  shows "Embed p n v4 = Inr a \<and> length v4 = 4"
  using Extract_Embed_same [OF assms(1,2)] Embed_prefix_cong [OF assms(3), of v4] length_Extract [OF assms(2,1)]
  by simp

theorem extract_embed_witness:
  "Embed (0 # 0x64 # 0xff # 0x9b # replicate 12 0) 96 [8, 8, 4, 4]
     = Inr (0 # 0x64 # 0xff # 0x9b # replicate 8 0 @ [8, 8, 4, 4]) \<and> length [8, 8, 4, 4 :: byte] = 4"
proof (rule extract_embed)
  show "Extract (0 # 0x64 # 0xff # 0x9b # replicate 8 0 @ [8, 8, 4, 4]) 96 = Inr [8, 8, 4, 4]"
    by code_simp
qed (simp_all add: numeral_eq_Suc)

text \<open>
  Claim C32. The byte tests of \<^verbatim>\<open>ClassifyIPv4\<close> and \<^verbatim>\<open>IsPrivateIPv4\<close>
  decide exactly the CIDR ranges their documentation lists: 0/8, 127/8, 224/4 and
  255.255.255.255 are invalid, 169.254/16 is link-local, and the private ranges are
  those of \<open>private_ranges\<close>.
\<close>

theorem classify_ranges:
  "ClassifyIPv4 (As4 (IPv4 w)) =
     (if list_ex (in_cidr4 w) invalid_ranges then IPv4Invalid
      else if in_cidr4 w (0xa9fe0000, 16) then IPv4LinkLocal else IPv4Valid)
   \<and> IsPrivateIPv4 (As4 (IPv4 w)) = list_ex (in_cidr4 w) private_ranges"
  using ClassifyIPv4_ranges IsPrivateIPv4_ranges by simp

end
