(* ===== verification/Events.thy ===== *)
theory Events
  imports Netip
begin

text \<open>
  \<^verbatim>\<open>src/internal/xlate/events.go\<close>: the closed sets of event kinds and
  reasons, the event record, and the observer interface. The calls an observer
  receives are recorded in order as a list of \<open>obs\<close> values; \<open>NopObserver\<close> and
  \<open>MultiObserver\<close> are functions of such a list.
\<close>

datatype Kind = KindDrop | KindReject | KindICMP | KindSelf | KindDynamic

datatype Reason =
    ReasonNone | ReasonUnknownIPVersion | ReasonIPHeaderLength | ReasonIPHeaderInvalid
  | ReasonICMPFragmented | ReasonICMPHeaderLength | ReasonIPv6OnlyProto | ReasonIPv4OnlyProto
  | ReasonFragmentMisaligned | ReasonFragmentTooLong | ReasonICMPChecksumInvalid
  | ReasonSelfUnknownProto | ReasonEchoRequest | ReasonSelfUnknownICMPType | ReasonTimeExceeded
  | ReasonDestinationUnmappable | ReasonSourceUnmappable | ReasonPacketTooBig
  | ReasonUDPHeaderLength | ReasonUDPZeroChecksum | ReasonTCPHeaderLength
  | ReasonEmbeddedTooShort | ReasonEmbeddedParseFailed | ReasonICMPErrorOfICMPError
  | ReasonEmbeddedUnmappable | ReasonEmbeddedUntranslatable | ReasonUnknownUnreachableCode
  | ReasonParamProblemInvalidCode | ReasonParamProblemInvalidPointer
  | ReasonParamProblemUntranslatable | ReasonUnknownICMPType | ReasonSynthesisedSource
  | ReasonExtHeaderLength | ReasonFragHeaderLength | ReasonRoutingHeaderSegmentsLeft
  | ReasonNoMTUInPacketTooBig | ReasonDynamicAssigned | ReasonDynamicReactivated
  | ReasonDynamicReassigned | ReasonDynamicDormant | ReasonDynamicReleased
  | ReasonDynamicExhausted

record Event =
  evKind :: Kind
  evReason :: Reason
  evFamily :: byte
  evProto :: byte
  evLength :: int
  evSrc :: Addr
  evDst :: Addr

text \<open>A call of an observer's \<open>Translated\<close> or \<open>Event\<close> method.\<close>

datatype obs = Translated byte int | Observed Event

subsection \<open>Names\<close>

fun Kind_String :: "Kind \<Rightarrow> string" where
  "Kind_String KindDrop = ''drop''"
| "Kind_String KindReject = ''reject''"
| "Kind_String KindICMP = ''icmp''"
| "Kind_String KindSelf = ''self''"
| "Kind_String KindDynamic = ''dynamic''"

fun Reason_String :: "Reason \<Rightarrow> string" where
  "Reason_String ReasonNone = ''none''"
| "Reason_String ReasonUnknownIPVersion = ''unknown_ip_version''"
| "Reason_String ReasonIPHeaderLength = ''ip_header_length''"
| "Reason_String ReasonIPHeaderInvalid = ''ip_header_invalid''"
| "Reason_String ReasonICMPFragmented = ''icmp_fragmented''"
| "Reason_String ReasonICMPHeaderLength = ''icmp_header_length''"
| "Reason_String ReasonIPv6OnlyProto = ''ipv6_only_protocol''"
| "Reason_String ReasonIPv4OnlyProto = ''ipv4_only_protocol''"
| "Reason_String ReasonFragmentMisaligned = ''fragment_misaligned''"
| "Reason_String ReasonFragmentTooLong = ''fragment_too_long''"
| "Reason_String ReasonICMPChecksumInvalid = ''icmp_checksum_invalid''"
| "Reason_String ReasonSelfUnknownProto = ''self_unknown_protocol''"
| "Reason_String ReasonEchoRequest = ''echo_request''"
| "Reason_String ReasonSelfUnknownICMPType = ''self_unknown_icmp_type''"
| "Reason_String ReasonTimeExceeded = ''time_exceeded''"
| "Reason_String ReasonDestinationUnmappable = ''destination_unmappable''"
| "Reason_String ReasonSourceUnmappable = ''source_unmappable''"
| "Reason_String ReasonPacketTooBig = ''packet_too_big''"
| "Reason_String ReasonUDPHeaderLength = ''udp_header_length''"
| "Reason_String ReasonUDPZeroChecksum = ''udp_zero_checksum''"
| "Reason_String ReasonTCPHeaderLength = ''tcp_header_length''"
| "Reason_String ReasonEmbeddedTooShort = ''embedded_too_short''"
| "Reason_String ReasonEmbeddedParseFailed = ''embedded_parse_failed''"
| "Reason_String ReasonICMPErrorOfICMPError = ''icmp_error_of_icmp_error''"
| "Reason_String ReasonEmbeddedUnmappable = ''embedded_unmappable''"
| "Reason_String ReasonEmbeddedUntranslatable = ''embedded_untranslatable''"
| "Reason_String ReasonUnknownUnreachableCode = ''unknown_unreachable_code''"
| "Reason_String ReasonParamProblemInvalidCode = ''param_problem_invalid_code''"
| "Reason_String ReasonParamProblemInvalidPointer = ''param_problem_invalid_pointer''"
| "Reason_String ReasonParamProblemUntranslatable = ''param_problem_untranslatable''"
| "Reason_String ReasonUnknownICMPType = ''unknown_icmp_type''"
| "Reason_String ReasonSynthesisedSource = ''synthesised_source''"
| "Reason_String ReasonExtHeaderLength = ''extension_header_length''"
| "Reason_String ReasonFragHeaderLength = ''fragment_header_length''"
| "Reason_String ReasonRoutingHeaderSegmentsLeft = ''routing_header_segments_left''"
| "Reason_String ReasonNoMTUInPacketTooBig = ''no_mtu_in_packet_too_big''"
| "Reason_String ReasonDynamicAssigned = ''dynamic_assigned''"
| "Reason_String ReasonDynamicReactivated = ''dynamic_reactivated''"
| "Reason_String ReasonDynamicReassigned = ''dynamic_reassigned''"
| "Reason_String ReasonDynamicDormant = ''dynamic_dormant''"
| "Reason_String ReasonDynamicReleased = ''dynamic_released''"
| "Reason_String ReasonDynamicExhausted = ''dynamic_exhausted''"

subsection \<open>Observers\<close>

text \<open>
  An observer is a state with a method call on it: \<open>NopObserver\<close> ignores the call,
  \<open>MultiObserver\<close> passes it to each of several observers in order.
\<close>

definition NopObserver :: "obs \<Rightarrow> unit \<Rightarrow> unit" where
  "NopObserver c s = s"

definition MultiObserver :: "('s \<Rightarrow> obs \<Rightarrow> 's) \<Rightarrow> 's list \<Rightarrow> obs \<Rightarrow> 's list" where
  "MultiObserver call ss c = map (\<lambda>s. call s c) ss"

end
