(* ===== verification/Packet.thy ===== *)
theory Packet
  imports Netutil Events
begin

text \<open>
  \<^verbatim>\<open>src/internal/xlate/packet.go\<close>: the parsed view over a packet and the
  two parsers.

  The slices of a Go \<^verbatim>\<open>pkt\<close> alias one buffer. The model keeps the buffer
  once, in \<open>raw\<close>, and each slice as an offset and a length into it, so that a write
  through \<open>data\<close> or \<open>icmp\<close> is a write to \<open>raw\<close> that every other view sees.
  \<open>ipLen = None\<close>, \<open>fragOff = None\<close> and \<open>icmpOff = None\<close> are nil slices.
\<close>

subsection \<open>Constants of \<^verbatim>\<open>translator.go\<close>\<close>

abbreviation (input) ipv4HdrLen :: nat where "ipv4HdrLen \<equiv> 20"
abbreviation (input) ipv6HdrLen :: nat where "ipv6HdrLen \<equiv> 40"
abbreviation (input) fragHdrLen :: nat where "fragHdrLen \<equiv> 8"
abbreviation (input) icmpHdrLen :: nat where "icmpHdrLen \<equiv> 8"
abbreviation (input) mtuAdj :: int where "mtuAdj \<equiv> 20"
abbreviation (input) mtuMin :: nat where "mtuMin \<equiv> 1280"
abbreviation (input) icmp4MaxLen :: nat where "icmp4MaxLen \<equiv> 576"
abbreviation (input) ip4FlagDF :: u16 where "ip4FlagDF \<equiv> 0x4000"
abbreviation (input) ip4FlagMF :: u16 where "ip4FlagMF \<equiv> 0x2000"
abbreviation (input) ip4OffMask :: u16 where "ip4OffMask \<equiv> 0x1fff"
abbreviation (input) ip6FragMF :: u16 where "ip6FragMF \<equiv> 0x0001"
abbreviation (input) ip6FragMask :: u16 where "ip6FragMask \<equiv> 0xfff8"
abbreviation (input) protoICMP :: byte where "protoICMP \<equiv> 1"
abbreviation (input) protoTCP :: byte where "protoTCP \<equiv> 6"
abbreviation (input) protoUDP :: byte where "protoUDP \<equiv> 17"
abbreviation (input) protoFrag :: byte where "protoFrag \<equiv> 44"
abbreviation (input) protoICMPv6 :: byte where "protoICMPv6 \<equiv> 58"

subsection \<open>The view\<close>

record pkt =
  raw :: "byte list"
  ipLen :: "nat option"
  hdrLen :: nat
  dataOff :: nat
  dataLen :: nat
  proto :: byte
  fragOff :: "nat option"
  icmpOff :: "nat option"

text \<open>\<open>&pkt{raw: b}\<close>\<close>

definition new_pkt :: "byte list \<Rightarrow> pkt" where
  "new_pkt b = \<lparr>raw = b, ipLen = None, hdrLen = 0, dataOff = 0, dataLen = 0, proto = 0,
     fragOff = None, icmpOff = None\<rparr>"

definition pip :: "pkt \<Rightarrow> byte list" where
  "pip p = (case ipLen p of None \<Rightarrow> [] | Some n \<Rightarrow> take n (raw p))"

definition pdata :: "pkt \<Rightarrow> byte list" where
  "pdata p = gslice (dataOff p) (dataOff p + dataLen p) (raw p)"

definition pfrag :: "pkt \<Rightarrow> byte list" where
  "pfrag p = (case fragOff p of None \<Rightarrow> [] | Some i \<Rightarrow> gslice i (i + fragHdrLen) (raw p))"

definition picmp :: "pkt \<Rightarrow> byte list" where
  "picmp p = (case icmpOff p of None \<Rightarrow> [] | Some i \<Rightarrow> gslice i (i + icmpHdrLen) (raw p))"

definition family :: "pkt \<Rightarrow> byte" where
  "family p = drop_bit 4 (raw p ! 0)"

definition event :: "pkt \<Rightarrow> Kind \<Rightarrow> Reason \<Rightarrow> Event" where
  "event p kind reason =
     (let e = \<lparr>evKind = kind, evReason = reason, evFamily = family p, evProto = proto p,
                evLength = 0, evSrc = NoAddr, evDst = NoAddr\<rparr> in
      if ipLen p = None then e\<lparr>evLength := int (length (raw p))\<rparr>
      else if evFamily e = 4 then
        e\<lparr>evSrc := AddrFrom4 (gslice 12 16 (pip p)), evDst := AddrFrom4 (gslice 16 20 (pip p)),
          evLength := int (hdrLen p + dataLen p)\<rparr>
      else if evFamily e = 6 then
        e\<lparr>evSrc := AddrFrom16 (gslice 8 24 (pip p)), evDst := AddrFrom16 (gslice 24 40 (pip p)),
          evLength := int (ipv6HdrLen + hdrLen p + dataLen p)\<rparr>
      else e)"

subsection \<open>Header accessors\<close>

definition ip4TotalLen :: "byte list \<Rightarrow> nat" where "ip4TotalLen h = unat (get16 h 2)"
definition ip4Ident :: "byte list \<Rightarrow> u16" where "ip4Ident h = get16 h 4"
definition ip4FlagsOff :: "byte list \<Rightarrow> u16" where "ip4FlagsOff h = get16 h 6"
definition ip6VerTcFl :: "byte list \<Rightarrow> u32" where "ip6VerTcFl h = get32 h 0"
definition ip6PayloadLen :: "byte list \<Rightarrow> nat" where "ip6PayloadLen h = unat (get16 h 4)"
definition icmpWord :: "byte list \<Rightarrow> u32" where "icmpWord h = get32 h 4"
definition fragOffFlags :: "byte list \<Rightarrow> u16" where "fragOffFlags h = get16 h 2"
definition fragIdent :: "byte list \<Rightarrow> u32" where "fragIdent h = get32 h 4"

subsection \<open>The parsers\<close>

definition parseIPv4 :: "pkt \<Rightarrow> Reason \<times> pkt" where
  "parseIPv4 p =
     (let b = raw p in
      if length b < ipv4HdrLen then (ReasonIPHeaderLength, p)
      else
        let ihl = unat (b ! 0 AND 0x0f) * 4; total = ip4TotalLen b in
        if drop_bit 4 (b ! 0) \<noteq> 4 \<or> ihl < ipv4HdrLen \<or> length b < ihl \<or> total < ihl
           \<or> ClassifyIPv4 (gslice 12 16 b) = IPv4Invalid \<or> ClassifyIPv4 (gslice 16 20 b) = IPv4Invalid
        then (ReasonIPHeaderInvalid, p\<lparr>ipLen := Some ipv4HdrLen, hdrLen := ipv4HdrLen\<rparr>)
        else
          let dend = (if length b > total then total else length b);
              p = p\<lparr>ipLen := Some ihl, hdrLen := ihl, dataOff := ihl, dataLen := dend - ihl, proto := b ! 9\<rparr>
          in
          if proto p = protoICMP then
            if ip4FlagsOff b AND (ip4OffMask OR ip4FlagMF) \<noteq> 0 then (ReasonICMPFragmented, p)
            else if dataLen p < icmpHdrLen then (ReasonICMPHeaderLength, p)
            else (ReasonNone, p\<lparr>icmpOff := Some (dataOff p)\<rparr>)
          else if proto p \<in> {0, 43, 44, 58, 60} then (ReasonIPv6OnlyProto, p)
          else
            let fo = ip4FlagsOff b in
            if fo AND ip4FlagMF \<noteq> 0 \<and> dataLen p mod 8 \<noteq> 0 then (ReasonFragmentMisaligned, p)
            else if unat (fo AND ip4OffMask) * 8 + dataLen p > 65535 then (ReasonFragmentTooLong, p)
            else (ReasonNone, p))"

text \<open>
  The loop over the hop-by-hop, routing and destination options headers. \<open>off\<close> and
  \<open>len\<close> are the local slice \<open>data\<close>. The result says whether the loop ran to its end
  (\<open>False\<close>: a header did not fit).
\<close>

function extHeaders :: "pkt \<Rightarrow> nat \<Rightarrow> nat \<Rightarrow> nat \<Rightarrow> nat \<Rightarrow> bool \<times> pkt \<times> nat \<times> nat \<times> nat \<times> nat" where
  "extHeaders p off len segLeft segPtr =
     (if proto p = 0 \<or> proto p = 43 \<or> proto p = 60 then
        if len < 2 then (False, p\<lparr>dataOff := off, dataLen := len\<rparr>, off, len, segLeft, segPtr)
        else
          let hl = (unat (raw p ! (off + 1)) + 1) * 8 in
          if len < hl then (False, p\<lparr>dataOff := off, dataLen := len\<rparr>, off, len, segLeft, segPtr)
          else
            let segLeft = (if proto p = 43 then unat (raw p ! (off + 3)) else segLeft);
                segPtr = (if segLeft = 0 then segPtr + hl else segPtr)
            in extHeaders (p\<lparr>proto := raw p ! off, hdrLen := hdrLen p + hl\<rparr>) (off + hl) (len - hl) segLeft segPtr
      else (True, p, off, len, segLeft, segPtr))"
  by pat_completeness auto

termination
  by (relation "measure (\<lambda>(p, off, len, segLeft, segPtr). len)") auto

declare extHeaders.simps [simp del]

text \<open>The fragment header after the loop; the slice \<open>data\<close> is left in the view.\<close>

definition fragHeader :: "pkt \<Rightarrow> nat \<Rightarrow> nat \<Rightarrow> Reason \<times> pkt" where
  "fragHeader p off len =
     (if proto p = protoFrag then
        if len < fragHdrLen then (ReasonFragHeaderLength, p\<lparr>dataOff := off, dataLen := len\<rparr>)
        else
          let p = p\<lparr>fragOff := Some off, proto := raw p ! off, hdrLen := hdrLen p + fragHdrLen,
                    dataOff := off + fragHdrLen, dataLen := len - fragHdrLen\<rparr>;
              flags = fragOffFlags (pfrag p)
          in
          if flags AND ip6FragMF \<noteq> 0 \<and> dataLen p mod 8 \<noteq> 0 then (ReasonFragmentMisaligned, p)
          else if unat (flags AND ip6FragMask) + dataLen p > 65535 then (ReasonFragmentTooLong, p)
          else (ReasonNone, p)
      else (ReasonNone, p\<lparr>dataOff := off, dataLen := len\<rparr>))"

text \<open>The transport protocol and the routing header, at the end of \<^verbatim>\<open>parseIPv6\<close>.\<close>

definition finishIPv6 :: "pkt \<Rightarrow> nat \<Rightarrow> nat \<Rightarrow> (Reason \<times> nat \<times> bool) \<times> pkt" where
  "finishIPv6 p segLeft segPtr =
     (let (r, p) =
        (if proto p = protoICMPv6 then
           if fragOff p \<noteq> None \<and> fragOffFlags (pfrag p) AND (ip6FragMask OR ip6FragMF) \<noteq> 0
           then (ReasonICMPFragmented, p)
           else if dataLen p < icmpHdrLen then (ReasonICMPHeaderLength, p)
           else (ReasonNone, p\<lparr>icmpOff := Some (dataOff p)\<rparr>)
         else if proto p = protoICMP then (ReasonIPv4OnlyProto, p)
         else (ReasonNone, p))
      in
      if r \<noteq> ReasonNone then ((r, 0, False), p)
      else if segLeft \<noteq> 0 then ((ReasonRoutingHeaderSegmentsLeft, segPtr + 4, False), p)
      else ((ReasonNone, 0, False), p))"

definition parseIPv6 :: "pkt \<Rightarrow> (Reason \<times> nat \<times> bool) \<times> pkt" where
  "parseIPv6 p =
     (let b = raw p in
      if length b < ipv6HdrLen then ((ReasonIPHeaderLength, 0, False), p)
      else
        let p = p\<lparr>ipLen := Some ipv6HdrLen\<rparr> in
        if drop_bit 4 (b ! 0) \<noteq> 6 \<or> \<not> ValidIPv6 (gslice 8 24 b) \<or> \<not> ValidIPv6 (gslice 24 40 b) then
          if b ! 8 = 0xff \<or> b ! 24 = 0xff then ((ReasonIPHeaderInvalid, 0, True), p)
          else ((ReasonIPHeaderInvalid, 0, False), p)
        else
          let p = p\<lparr>proto := b ! 6\<rparr>; pl = ip6PayloadLen b;
              len = (if length b - ipv6HdrLen > pl then pl else length b - ipv6HdrLen);
              (ok, p, off, len, segLeft, segPtr) = extHeaders p ipv6HdrLen len 0 ipv6HdrLen
          in
          if \<not> ok then ((ReasonExtHeaderLength, 0, False), p)
          else
            let (r, p) = fragHeader p off len in
            if r \<noteq> ReasonNone then ((r, 0, False), p)
            else finishIPv6 p segLeft segPtr)"

definition estMTU :: "int \<Rightarrow> int" where
  "estMTU tooBig =
     (case find (\<lambda>m. tooBig > m) [65535, 32000, 17914, 8166, 4352, 2002, 1492, 1006, 508, 296] of
        Some m \<Rightarrow> m
      | None \<Rightarrow> 68)"

text \<open>Writes through the slices \<open>p.data\<close> and \<open>p.icmp\<close>.\<close>

definition put_data :: "pkt \<Rightarrow> nat \<Rightarrow> u16 \<Rightarrow> pkt" where
  "put_data p i v = p\<lparr>raw := put16 (raw p) (dataOff p + i) v\<rparr>"

definition put_icmp :: "pkt \<Rightarrow> nat \<Rightarrow> u16 \<Rightarrow> pkt" where
  "put_icmp p i v = p\<lparr>raw := put16 (raw p) (the (icmpOff p) + i) v\<rparr>"

definition set_icmpType :: "pkt \<Rightarrow> byte \<Rightarrow> pkt" where
  "set_icmpType p v = p\<lparr>raw := (raw p)[the (icmpOff p) := v]\<rparr>"

subsection \<open>Well-formed views\<close>

text \<open>
  What a successful parse guarantees of a view: every slice lies inside the buffer and
  inside the length the IP header announces, the transport header the protocol number
  promises is there, and the addresses and fragment fields were checked.
\<close>

definition view4 :: "pkt \<Rightarrow> bool" where
  "view4 p \<longleftrightarrow>
     20 \<le> hdrLen p \<and> hdrLen p \<le> 60 \<and> ipLen p = Some (hdrLen p) \<and> dataOff p = hdrLen p
     \<and> hdrLen p + dataLen p \<le> length (raw p) \<and> hdrLen p + dataLen p \<le> ip4TotalLen (raw p)
     \<and> family p = 4 \<and> fragOff p = None \<and> proto p = raw p ! 9
     \<and> ClassifyIPv4 (gslice 12 16 (raw p)) \<noteq> IPv4Invalid \<and> ClassifyIPv4 (gslice 16 20 (raw p)) \<noteq> IPv4Invalid
     \<and> icmpOff p = (if proto p = protoICMP then Some (hdrLen p) else None)
     \<and> (if proto p = protoICMP then 8 \<le> dataLen p \<and> ip4FlagsOff (raw p) AND 0x3fff = 0
        else (ip4FlagsOff (raw p) AND ip4FlagMF \<noteq> 0 \<longrightarrow> 8 dvd dataLen p)
           \<and> unat (ip4FlagsOff (raw p) AND ip4OffMask) * 8 + dataLen p \<le> 65535)
     \<and> proto p \<notin> {0, 43, 44, 58, 60}"

definition view6 :: "pkt \<Rightarrow> bool" where
  "view6 p \<longleftrightarrow>
     ipLen p = Some 40 \<and> dataOff p = 40 + hdrLen p \<and> 8 dvd hdrLen p
     \<and> 40 + hdrLen p + dataLen p \<le> length (raw p) \<and> hdrLen p + dataLen p \<le> ip6PayloadLen (raw p)
     \<and> family p = 6 \<and> ValidIPv6 (gslice 8 24 (raw p)) \<and> ValidIPv6 (gslice 24 40 (raw p))
     \<and> (fragOff p = None \<or> fragOff p = Some (32 + hdrLen p) \<and> 8 \<le> hdrLen p
          \<and> (fragOffFlags (pfrag p) AND ip6FragMF \<noteq> 0 \<longrightarrow> 8 dvd dataLen p)
          \<and> unat (fragOffFlags (pfrag p) AND ip6FragMask) + dataLen p \<le> 65535)
     \<and> icmpOff p = (if proto p = protoICMPv6 then Some (40 + hdrLen p) else None)
     \<and> (proto p = protoICMPv6 \<longrightarrow> 8 \<le> dataLen p
          \<and> (fragOff p \<noteq> None \<longrightarrow> fragOffFlags (pfrag p) AND 0xfff9 = 0))
     \<and> proto p \<noteq> protoICMP"

subsection \<open>Slices of a view\<close>

lemma dvd8_iff_mod: "8 dvd (n::nat) \<longleftrightarrow> n mod 8 = 0"
  by auto

lemma length_pdata: "dataOff p + dataLen p \<le> length (raw p) \<Longrightarrow> length (pdata p) = dataLen p"
  by (simp add: pdata_def)

lemma new_pkt_simps [simp]:
  "raw (new_pkt b) = b" "ipLen (new_pkt b) = None" "hdrLen (new_pkt b) = 0" "dataOff (new_pkt b) = 0"
  "dataLen (new_pkt b) = 0" "proto (new_pkt b) = 0" "fragOff (new_pkt b) = None" "icmpOff (new_pkt b) = None"
  by (simp_all add: new_pkt_def)

lemma unat_nibble_le: "unat ((x :: byte) AND 0x0f) \<le> 15"
proof -
  have "x AND 0x0f = take_bit 4 x" by (simp add: take_bit_eq_mask mask_numeral)
  then have "unat (x AND 0x0f) = unat x mod 16" by (simp add: take_bit_eq_mod unat_mod_distrib)
  then show ?thesis by simp
qed

subsection \<open>The IPv4 parser\<close>

lemma parseIPv4_None:
  assumes "parseIPv4 (new_pkt b) = (ReasonNone, p)"
  defines "ihl \<equiv> unat (b ! 0 AND 0x0f) * 4"
  defines "dl \<equiv> (if length b > ip4TotalLen b then ip4TotalLen b else length b) - ihl"
  shows "20 \<le> length b \<and> drop_bit 4 (b ! 0) = 4 \<and> 20 \<le> ihl \<and> ihl \<le> length b \<and> ihl \<le> ip4TotalLen b
    \<and> ClassifyIPv4 (gslice 12 16 b) \<noteq> IPv4Invalid \<and> ClassifyIPv4 (gslice 16 20 b) \<noteq> IPv4Invalid
    \<and> p = \<lparr>raw = b, ipLen = Some ihl, hdrLen = ihl, dataOff = ihl, dataLen = dl, proto = b ! 9, fragOff = None,
            icmpOff = (if b ! 9 = protoICMP then Some ihl else None)\<rparr>
    \<and> (if b ! 9 = protoICMP then 8 \<le> dl \<and> ip4FlagsOff b AND 0x3fff = 0
       else (ip4FlagsOff b AND ip4FlagMF \<noteq> 0 \<longrightarrow> dl mod 8 = 0)
           \<and> unat (ip4FlagsOff b AND ip4OffMask) * 8 + dl \<le> 65535)
    \<and> b ! 9 \<notin> {0, 43, 44, 58, 60}"
  using assms(1) unfolding parseIPv4_def Let_def new_pkt_def pkt.simps ihl_def [symmetric] dl_def [symmetric]
  by (simp split: if_splits) auto?

lemma parseIPv4_view4:
  assumes "parseIPv4 (new_pkt b) = (ReasonNone, p)"
  shows "view4 p \<and> raw p = b"
  using parseIPv4_None [OF assms] unat_nibble_le [of "b ! 0"]
  by (elim conjE) (simp add: view4_def dvd8_iff_mod family_def split: if_splits; linarith)

lemma view4_slices:
  assumes "view4 p"
  shows "length (pip p) = hdrLen p" "length (pdata p) = dataLen p" "pip p = take (hdrLen p) (raw p)"
  using assms by (auto simp: view4_def pip_def pdata_def)

lemma raw_view4: "view4 p \<Longrightarrow> pip p @ pdata p = take (hdrLen p + dataLen p) (raw p)"
  by (auto simp: view4_def pip_def pdata_def gslice_def take_add)

subsection \<open>The IPv6 parser\<close>

lemma extHeaders_inv:
  assumes "extHeaders p off len sl sp = (ok, p', off', len', sl', sp')" "8 dvd hdrLen p"
    and "dataOff p = 0" "off = 40 + hdrLen p"
  shows "raw p' = raw p \<and> ipLen p' = ipLen p \<and> fragOff p' = fragOff p \<and> icmpOff p' = icmpOff p
    \<and> off' + len' = off + len \<and> off' = 40 + hdrLen p' \<and> 8 dvd hdrLen p' \<and> off \<le> off'
    \<and> (ok \<longrightarrow> proto p' \<notin> {0, 43, 60}) \<and> sp \<le> sp' \<and> sp' + off \<le> sp + off'
    \<and> (\<not> ok \<longrightarrow> dataOff p' = off' \<and> dataLen p' = len')"
  using assms
proof (induction p off len sl sp rule: extHeaders.induct)
  case (1 p off len sl sp)
  show ?case
  proof (cases "(proto p = 0 \<or> proto p = 43 \<or> proto p = 60) \<and> \<not> len < 2 \<and> \<not> len < (unat (raw p ! (off + 1)) + 1) * 8")
    case False
    then show ?thesis using "1.prems" by (subst (asm) extHeaders.simps) (auto simp: Let_def split: if_splits)
  next
    case True
    define hl where "hl = (unat (raw p ! (off + 1)) + 1) * 8"
    define s' where "s' = (if proto p = 43 then unat (raw p ! (off + 3)) else sl)"
    define q' where "q' = (if s' = 0 then sp + hl else sp)"
    have c: "proto p = 0 \<or> proto p = 43 \<or> proto p = 60" "\<not> len < 2" "\<not> len < hl"
      using True by (auto simp: hl_def)
    have step: "extHeaders (p\<lparr>proto := raw p ! off, hdrLen := hdrLen p + hl\<rparr>) (off + hl) (len - hl) s' q'
        = (ok, p', off', len', sl', sp')"
      using "1.prems"(1) c unfolding extHeaders.simps [of p] Let_def hl_def [symmetric] s'_def [symmetric] q'_def [symmetric]
      by (simp split del: if_split)
    have d: "8 dvd hdrLen p + hl" using "1.prems"(2) by (simp add: hl_def)
    have l: "hl \<le> len" using True by (simp add: hl_def)
    have ih: "raw p' = raw p \<and> ipLen p' = ipLen p \<and> fragOff p' = fragOff p \<and> icmpOff p' = icmpOff p
    \<and> off' + len' = (off + hl) + (len - hl) \<and> off' = 40 + hdrLen p' \<and> 8 dvd hdrLen p' \<and> off + hl \<le> off'
    \<and> (ok \<longrightarrow> proto p' \<notin> {0, 43, 60}) \<and> q' \<le> sp' \<and> sp' + (off + hl) \<le> q' + off'
    \<and> (\<not> ok \<longrightarrow> dataOff p' = off' \<and> dataLen p' = len')"
      using "1.IH" [OF c(1,2) hl_def c(3) s'_def q'_def step] d "1.prems"(3,4) by simp
    have "sp \<le> q'" "q' \<le> sp + hl" by (auto simp: q'_def)
    then show ?thesis using ih l by auto
  qed
qed

lemma fragHeader_inv:
  assumes "fragHeader p off len = (ReasonNone, p')" "fragOff p = None"
  shows "raw p' = raw p \<and> ipLen p' = ipLen p \<and> icmpOff p' = icmpOff p
    \<and> (fragOff p' = None \<and> hdrLen p' = hdrLen p \<and> dataOff p' = off \<and> dataLen p' = len
       \<or> fragOff p' = Some off \<and> hdrLen p' = hdrLen p + 8 \<and> dataOff p' = off + 8 \<and> dataLen p' = len - 8 \<and> 8 \<le> len
          \<and> (fragOffFlags (pfrag p') AND ip6FragMF \<noteq> 0 \<longrightarrow> 8 dvd dataLen p')
          \<and> unat (fragOffFlags (pfrag p') AND ip6FragMask) + dataLen p' \<le> 65535)"
  using assms unfolding fragHeader_def Let_def dvd8_iff_mod by (simp split: if_splits) auto

lemma pfrag_icmp_update [simp]: "pfrag (p\<lparr>icmpOff := x\<rparr>) = pfrag p"
  by (simp add: pfrag_def split: option.split)

lemma fragHeader_reason: "fragHeader p off len = (r, p') \<Longrightarrow> r \<noteq> ReasonRoutingHeaderSegmentsLeft"
  by (auto simp: fragHeader_def Let_def split: if_splits)

lemma finishIPv6_inv:
  assumes "finishIPv6 p sl sp = ((r, ptr, silent), p')" "r \<in> {ReasonNone, ReasonRoutingHeaderSegmentsLeft}"
  shows "p' = p\<lparr>icmpOff := (if proto p = protoICMPv6 then Some (dataOff p) else icmpOff p)\<rparr>
    \<and> \<not> silent \<and> proto p \<noteq> protoICMP
    \<and> (proto p = protoICMPv6 \<longrightarrow> 8 \<le> dataLen p \<and> (fragOff p \<noteq> None \<longrightarrow> fragOffFlags (pfrag p) AND 0xfff9 = 0))
    \<and> (r = ReasonRoutingHeaderSegmentsLeft \<longleftrightarrow> sl \<noteq> 0) \<and> ptr = (if sl = 0 then 0 else sp + 4)"
  using assms unfolding finishIPv6_def Let_def by (auto split: if_splits)

lemma parseIPv6_view6:
  assumes "parseIPv6 (new_pkt b) = ((r, ptr, silent), p)" "r \<in> {ReasonNone, ReasonRoutingHeaderSegmentsLeft}"
  shows "view6 p \<and> raw p = b \<and> \<not> silent \<and> ptr \<le> 44 + hdrLen p"
proof -
  define p0 where "p0 = new_pkt b\<lparr>ipLen := Some 40, proto := b ! 6\<rparr>"
  define len0 where "len0 = (if length b - 40 > ip6PayloadLen b then ip6PayloadLen b else length b - 40)"
  obtain ok p1 off len sl sp where e: "extHeaders p0 40 len0 0 40 = (ok, p1, off, len, sl, sp)"
    by (metis prod.exhaust_sel)
  obtain r2 p2 where f: "fragHeader p1 off len = (r2, p2)" by (metis prod.exhaust_sel)
  have u: "40 \<le> length b \<and> drop_bit 4 (b ! 0) = 6 \<and> ValidIPv6 (gslice 8 24 b) \<and> ValidIPv6 (gslice 24 40 b)
      \<and> ok \<and> r2 = ReasonNone \<and> finishIPv6 p2 sl sp = ((r, ptr, silent), p)"
    using assms e f fragHeader_reason [OF f] unfolding parseIPv6_def Let_def p0_def len0_def new_pkt_simps
    by (simp split: if_splits)
  have e': "raw p1 = b \<and> ipLen p1 = Some 40 \<and> fragOff p1 = None \<and> icmpOff p1 = None \<and> off + len = 40 + len0
      \<and> off = 40 + hdrLen p1 \<and> 8 dvd hdrLen p1 \<and> sp \<le> off"
    using extHeaders_inv [OF e] by (simp add: p0_def)
  have l: "40 + len0 \<le> length b" "len0 \<le> ip6PayloadLen b" using u by (auto simp: len0_def)
  have f': "fragHeader p1 off len = (ReasonNone, p2)" using f u by simp
  note g = fragHeader_inv [OF f'] finishIPv6_inv [OF _ assms(2), of p2 sl sp ptr silent p]
  have "raw p2 = b \<and> ipLen p2 = Some 40 \<and> icmpOff p2 = None \<and> dataOff p2 = 40 + hdrLen p2 \<and> 8 dvd hdrLen p2
     \<and> dataOff p2 + dataLen p2 = 40 + len0 \<and> sp \<le> dataOff p2
     \<and> (fragOff p2 = None \<or> fragOff p2 = Some (32 + hdrLen p2) \<and> 8 \<le> hdrLen p2
          \<and> (fragOffFlags (pfrag p2) AND ip6FragMF \<noteq> 0 \<longrightarrow> 8 dvd dataLen p2)
          \<and> unat (fragOffFlags (pfrag p2) AND ip6FragMask) + dataLen p2 \<le> 65535)"
    using g(1) e' by auto
  then show ?thesis using g(2) u l by (auto simp: view6_def family_def)
qed

lemma view6_slices:
  assumes "view6 p"
  shows "length (pip p) = 40" "length (pdata p) = dataLen p" "pip p = take 40 (raw p)" 
    "length (pfrag p) = (if fragOff p = None then 0 else 8)"
  using assms by (auto simp: view6_def pip_def pdata_def pfrag_def)

subsection \<open>In-place writes through the views\<close>

lemma put_data_simps [simp]:
  "hdrLen (put_data p i v) = hdrLen p" "dataLen (put_data p i v) = dataLen p" "dataOff (put_data p i v) = dataOff p"
  "proto (put_data p i v) = proto p" "ipLen (put_data p i v) = ipLen p" "icmpOff (put_data p i v) = icmpOff p"
  "fragOff (put_data p i v) = fragOff p"
  by (simp_all add: put_data_def)

lemma put_icmp_simps [simp]:
  "hdrLen (put_icmp p i v) = hdrLen p" "dataLen (put_icmp p i v) = dataLen p" "dataOff (put_icmp p i v) = dataOff p"
  "proto (put_icmp p i v) = proto p" "ipLen (put_icmp p i v) = ipLen p" "icmpOff (put_icmp p i v) = icmpOff p"
  "fragOff (put_icmp p i v) = fragOff p"
  by (simp_all add: put_icmp_def)

lemma set_icmpType_simps [simp]:
  "hdrLen (set_icmpType p v) = hdrLen p" "dataLen (set_icmpType p v) = dataLen p" "dataOff (set_icmpType p v) = dataOff p"
  "proto (set_icmpType p v) = proto p" "ipLen (set_icmpType p v) = ipLen p" "icmpOff (set_icmpType p v) = icmpOff p"
  "fragOff (set_icmpType p v) = fragOff p"
  by (simp_all add: set_icmpType_def)

lemma pdata_put_data: "pdata (put_data p i v) = put16 (pdata p) i v"
  by (simp add: pdata_def put_data_def slice_put16)

lemma pdata_put_icmp: "icmpOff p = Some (dataOff p) \<Longrightarrow> pdata (put_icmp p i v) = put16 (pdata p) i v"
  by (simp add: pdata_def put_icmp_def slice_put16)

lemma pdata_set_icmpType: "icmpOff p = Some (dataOff p) \<Longrightarrow> pdata (set_icmpType p v) = (pdata p)[0 := v]"
  using slice_list_update [of "dataOff p" "dataLen p" "raw p" 0 v] by (simp add: pdata_def set_icmpType_def)

lemma pip_writes:
  assumes "ipLen p = Some n" "n \<le> dataOff p"
  shows "pip (put_data p i v) = pip p"
    and "icmpOff p = Some (dataOff p) \<Longrightarrow> pip (put_icmp p i v) = pip p"
    and "icmpOff p = Some (dataOff p) \<Longrightarrow> pip (set_icmpType p x) = pip p"
  using assms by (simp_all add: pip_def put_data_def put_icmp_def set_icmpType_def take_put16_beyond)

lemma picmp_pdata: "icmpOff p = Some (dataOff p) \<Longrightarrow> 8 \<le> dataLen p \<Longrightarrow> picmp p = take 8 (pdata p)"
  by (simp add: picmp_def pdata_def gslice_def take_take min_def)

lemma view4D:
  assumes "view4 p"
  shows "20 \<le> hdrLen p" "ipLen p = Some (hdrLen p)" "dataOff p = hdrLen p" "hdrLen p + dataLen p \<le> length (raw p)"
    "dataLen p < 65536" "proto p = protoICMP \<Longrightarrow> icmpOff p = Some (dataOff p) \<and> 8 \<le> dataLen p"
  using assms unsigned_less [of "get16 (raw p) 2", where ?'a = nat] unfolding view4_def ip4TotalLen_def by auto

lemma view6D:
  assumes "view6 p"
  shows "ipLen p = Some 40" "dataOff p = 40 + hdrLen p" "40 + hdrLen p + dataLen p \<le> length (raw p)"
    "hdrLen p + dataLen p < 65536" "proto p = protoICMPv6 \<Longrightarrow> icmpOff p = Some (dataOff p) \<and> 8 \<le> dataLen p"
  using assms unsigned_less [of "get16 (raw p) 4", where ?'a = nat] unfolding view6_def ip6PayloadLen_def by auto

subsection \<open>Properties\<close>

text \<open>
  Claim C36. \<^verbatim>\<open>parseIPv4\<close> accepts a packet exactly when it has a well-formed view,
  and the view it then builds is that one: a header of the announced length, then the
  payload up to the end of the buffer or of the announced total length, whichever comes
  first, with every slice inside the buffer, no IPv6-only protocol, no fragmented or
  truncated ICMP, no misaligned or overlong fragment and no invalid address.
\<close>

theorem parseIPv4_accepts:
  "parseIPv4 (new_pkt b) = (ReasonNone, p) \<longleftrightarrow>
     view4 p \<and> raw p = b \<and> hdrLen p = 4 * unat (b ! 0 AND 0x0f)
     \<and> hdrLen p + dataLen p = min (length b) (ip4TotalLen b)"
proof
  assume l: "parseIPv4 (new_pkt b) = (ReasonNone, p)"
  show "view4 p \<and> raw p = b \<and> hdrLen p = 4 * unat (b ! 0 AND 0x0f)
     \<and> hdrLen p + dataLen p = min (length b) (ip4TotalLen b)"
    using parseIPv4_view4 [OF l] parseIPv4_None [OF l] by (elim conjE) (simp add: min_def)
next
  assume r: "view4 p \<and> raw p = b \<and> hdrLen p = 4 * unat (b ! 0 AND 0x0f)
     \<and> hdrLen p + dataLen p = min (length b) (ip4TotalLen b)"
  from r have v: "view4 p" and b: "raw p = b" and ihl: "unat (b ! 0 AND 0x0f) * 4 = hdrLen p" by simp_all
  from r have "hdrLen p + dataLen p = min (length b) (ip4TotalLen b)" by blast
  then have dl: "(if length b > ip4TotalLen b then ip4TotalLen b else length b) - hdrLen p = dataLen p"
    by (simp add: min_def split: if_splits; linarith)
  have "p = \<lparr>raw = raw p, ipLen = ipLen p, hdrLen = hdrLen p, dataOff = dataOff p, dataLen = dataLen p,
      proto = proto p, fragOff = fragOff p, icmpOff = icmpOff p\<rparr>" by simp
  then have p: "p = \<lparr>raw = b, ipLen = Some (hdrLen p), hdrLen = hdrLen p, dataOff = hdrLen p, dataLen = dataLen p,
      proto = b ! 9, fragOff = None, icmpOff = (if b ! 9 = protoICMP then Some (hdrLen p) else None)\<rparr>"
    using v b by (simp add: view4_def)
  have f: "20 \<le> hdrLen p" "hdrLen p \<le> length b" "hdrLen p \<le> ip4TotalLen b" "drop_bit 4 (b ! 0) = 4" "20 \<le> length b"
      "ClassifyIPv4 (gslice 12 16 b) \<noteq> IPv4Invalid" "ClassifyIPv4 (gslice 16 20 b) \<noteq> IPv4Invalid" "b ! 9 \<notin> {0, 43, 44, 58, 60}"
    using v b by (auto simp: view4_def family_def)
  have k: "if b ! 9 = protoICMP then 8 \<le> dataLen p \<and> ip4FlagsOff b AND 0x3fff = 0
        else (ip4FlagsOff b AND ip4FlagMF \<noteq> 0 \<longrightarrow> dataLen p mod 8 = 0) \<and> unat (ip4FlagsOff b AND ip4OffMask) * 8 + dataLen p \<le> 65535"
    using v unfolding view4_def dvd8_iff_mod b by (elim conjE) (simp split: if_splits)
  have "parseIPv4 (new_pkt b) = (ReasonNone, \<lparr>raw = b, ipLen = Some (hdrLen p), hdrLen = hdrLen p, dataOff = hdrLen p,
      dataLen = dataLen p, proto = b ! 9, fragOff = None, icmpOff = (if b ! 9 = protoICMP then Some (hdrLen p) else None)\<rparr>)"
    unfolding parseIPv4_def Let_def new_pkt_simps ihl dl
    using f k by (cases "b ! 9 = 1") (auto simp: new_pkt_def)
  then show "parseIPv4 (new_pkt b) = (ReasonNone, p)" by (simp only: p [symmetric])
qed

text \<open>
  Claim C37. When \<^verbatim>\<open>parseIPv6\<close> succeeds, or fails only because a routing header has
  segments left, the view is well formed: the fixed header, the extension headers, the
  fragment header and the payload lie one after the other inside the buffer and inside
  the announced payload length, ICMPv6 is unfragmented and has its header, and the
  pointer reported for the routing header is at most four bytes beyond the extension
  headers. These are the cases in which the handlers go on to read the view.
\<close>

theorem parseIPv6_accepts:
  assumes "parseIPv6 (new_pkt b) = ((r, ptr, silent), p)" "r \<in> {ReasonNone, ReasonRoutingHeaderSegmentsLeft}"
  shows "view6 p \<and> raw p = b \<and> \<not> silent \<and> ptr \<le> 44 + hdrLen p
     \<and> take 40 b @ gslice 40 (40 + hdrLen p) b @ pdata p = take (40 + hdrLen p + dataLen p) b"
proof -
  have v: "view6 p \<and> raw p = b \<and> \<not> silent \<and> ptr \<le> 44 + hdrLen p" by (rule parseIPv6_view6 [OF assms])
  then have "pdata p = take (dataLen p) (drop (40 + hdrLen p) b)" by (simp add: view6_def pdata_def gslice_def)
  with v show ?thesis by (simp add: gslice_def take_add)
qed

theorem parseIPv6_accepts_witness:
  "let b = [0x60, 0, 0, 0, 0, 16, 43, 64, 0x20, 1, 0xd, 0xb8, 0, 0, 0, 0, 0, 0, 0, 0, 0, 0, 0, 1,
            0x20, 1, 0xd, 0xb8, 0, 0, 0, 0, 0, 0, 0, 0, 0, 0, 0, 2, 17, 0, 0, 3, 0, 0, 0, 0, 1, 2, 3, 4, 5, 6, 7, 8];
       p = snd (parseIPv6 (new_pkt b))
   in fst (parseIPv6 (new_pkt b)) = (ReasonRoutingHeaderSegmentsLeft, 44, False) \<and>
      view6 p \<and> raw p = b \<and> \<not> False \<and> 44 \<le> 44 + hdrLen p
     \<and> take 40 b @ gslice 40 (40 + hdrLen p) b @ pdata p = take (40 + hdrLen p + dataLen p) b"
proof -
  define b :: "byte list" where "b = [0x60, 0, 0, 0, 0, 16, 43, 64, 0x20, 1, 0xd, 0xb8, 0, 0, 0, 0, 0, 0, 0, 0, 0, 0, 0, 1,
            0x20, 1, 0xd, 0xb8, 0, 0, 0, 0, 0, 0, 0, 0, 0, 0, 0, 2, 17, 0, 0, 3, 0, 0, 0, 0, 1, 2, 3, 4, 5, 6, 7, 8]"
  have e: "fst (parseIPv6 (new_pkt b)) = (ReasonRoutingHeaderSegmentsLeft, 44, False)"
    unfolding b_def by code_simp
  then have "parseIPv6 (new_pkt b) = ((ReasonRoutingHeaderSegmentsLeft, 44, False), snd (parseIPv6 (new_pkt b)))"
    by (metis prod.collapse)
  from parseIPv6_accepts [OF this] show ?thesis using e unfolding b_def [symmetric] by (simp add: Let_def)
qed

end
