(* ===== verification/Checksum.thy ===== *)
theory Checksum
  imports Prelude
begin

text \<open>
  \<^verbatim>\<open>src/internal/xlate/checksum.go\<close>: the Internet checksum on unfolded
  64-bit accumulators. The loops of \<^verbatim>\<open>sum16\<close> are the recursive functions
  \<open>sum16_by8\<close> and \<open>sum16_by2\<close> on the index; \<open>fold_acc\<close> is \<^verbatim>\<open>fold\<close>.

  The specification is a plain sum of big-endian 16-bit words of unbounded size
  (\<open>be_sum\<close>), compared by \<open>oc_eq\<close>: equal as one's complement numbers, that is
  congruent modulo 65535 and zero together.
\<close>

subsection \<open>The code\<close>

function sum16_by8 :: "byte list \<Rightarrow> nat \<Rightarrow> u64 \<Rightarrow> nat \<times> u64" where
  "sum16_by8 b i acc =
     (if i + 8 \<le> length b
      then sum16_by8 b (i + 8) (acc + (ucast (get32 b i) + ucast (get32 b (i + 4))))
      else (i, acc))"
  by pat_completeness auto
termination
  by (relation "measure (\<lambda>(b, i, acc). length b - i)") auto

function sum16_by2 :: "byte list \<Rightarrow> nat \<Rightarrow> u64 \<Rightarrow> nat \<times> u64" where
  "sum16_by2 b i acc =
     (if i + 2 \<le> length b then sum16_by2 b (i + 2) (acc + ucast (get16 b i)) else (i, acc))"
  by pat_completeness auto
termination
  by (relation "measure (\<lambda>(b, i, acc). length b - i)") auto

definition sum16 :: "byte list \<Rightarrow> u64 \<Rightarrow> u64" where
  "sum16 b acc =
     (let (i, acc) = sum16_by8 b 0 acc;
          (i, acc) = sum16_by2 b i acc
      in if i < length b then acc + push_bit 8 (ucast (b ! i)) else acc)"

definition fold_acc :: "u64 \<Rightarrow> u16" where
  "fold_acc acc =
     (let acc = drop_bit 32 acc + (acc AND 0xffffffff);
          acc = drop_bit 32 acc + (acc AND 0xffffffff);
          acc = drop_bit 16 acc + (acc AND 0xffff);
          acc = drop_bit 16 acc + (acc AND 0xffff)
      in ucast acc)"

definition checksum :: "byte list \<Rightarrow> u64 \<Rightarrow> u16" where
  "checksum b extra = NOT (fold_acc (sum16 b extra))"

definition verify :: "byte list \<Rightarrow> u64 \<Rightarrow> bool" where
  "verify b extra \<longleftrightarrow> fold_acc (sum16 b extra) = 0xffff"

definition pseudo4 :: "byte list \<Rightarrow> byte list \<Rightarrow> int \<Rightarrow> byte \<Rightarrow> u64" where
  "pseudo4 src dst len proto =
     sum16 (take 4 src) 0 + sum16 (take 4 dst) 0 + word_of_int len + ucast proto"

definition pseudo6 :: "byte list \<Rightarrow> byte list \<Rightarrow> int \<Rightarrow> byte \<Rightarrow> u64" where
  "pseudo6 src dst len nextHeader =
     sum16 (take 16 src) 0 + sum16 (take 16 dst) 0
     + ucast (drop_bit 16 (word_of_int len :: u32)) + ucast (word_of_int len :: u16) + ucast nextHeader"

definition adjust :: "u16 \<Rightarrow> u64 \<Rightarrow> u64 \<Rightarrow> u16" where
  "adjust old remove add = NOT (fold_acc (ucast (NOT old) + ucast (NOT (fold_acc remove)) + add))"

declare sum16_by8.simps [simp del] sum16_by2.simps [simp del]

subsection \<open>The specification\<close>

fun be_sum :: "byte list \<Rightarrow> nat" where
  "be_sum (x # y # r) = 256 * unat x + unat y + be_sum r"
| "be_sum [x] = 256 * unat x"
| "be_sum [] = 0"

definition oc_eq :: "nat \<Rightarrow> nat \<Rightarrow> bool" where
  "oc_eq m n \<longleftrightarrow> m mod 65535 = n mod 65535 \<and> (m = 0 \<longleftrightarrow> n = 0)"

text \<open>The representative of a one's complement number: \<open>0\<close>, or a number in \<open>1..65535\<close>.\<close>

definition oc_val :: "nat \<Rightarrow> nat" where
  "oc_val n = (if n = 0 then 0 else if n mod 65535 = 0 then 65535 else n mod 65535)"

text \<open>No 64-bit accumulator overflows: far beyond the size of an IP packet.\<close>

definition ck_range :: "byte list \<Rightarrow> u64 \<Rightarrow> bool" where
  "ck_range b extra \<longleftrightarrow> unat extra + 1073741824 * length b < 18446744073709551616"

lemma oc_eq_refl [simp]: "oc_eq n n"
  by (simp add: oc_eq_def)

lemma oc_eq_sym: "oc_eq m n \<Longrightarrow> oc_eq n m"
  by (simp add: oc_eq_def)

lemma oc_eq_trans: "oc_eq l m \<Longrightarrow> oc_eq m n \<Longrightarrow> oc_eq l n"
  by (simp add: oc_eq_def)

lemma oc_eq_add: "oc_eq m n \<Longrightarrow> oc_eq k l \<Longrightarrow> oc_eq (m + k) (n + l)"
  unfolding oc_eq_def by (metis add_is_0 mod_add_cong)

lemma oc_eq_shift16: "oc_eq (65536 * m + n) (m + n)"
proof -
  have "(65536 * m + n) mod 65535 = (m + n + 65535 * m) mod 65535" by simp
  also have "\<dots> = (m + n) mod 65535" by (simp only: mod_mult_self2)
  finally show ?thesis by (auto simp: oc_eq_def)
qed

lemma oc_val_eq: "oc_eq m n \<Longrightarrow> oc_val m = oc_val n"
  by (simp add: oc_eq_def oc_val_def)

lemma oc_val_less: "n < 65536 \<Longrightarrow> oc_val n = n"
  by (cases "n = 65535") (simp_all add: oc_val_def)

subsection \<open>The sum\<close>

lemma unat_add_nowrap: "unat a + unat b < 2 ^ LENGTH('a) \<Longrightarrow> unat (a + b) = unat a + unat (b :: 'a::len word)"
  by (simp add: unat_word_ariths)

lemma unat_u64_add: "unat a + unat b < 18446744073709551616 \<Longrightarrow> unat (a + b) = unat a + unat (b :: u64)"
  by (simp add: unat_word_ariths)

lemma unat_ucast_u64 [simp]: "unat (ucast (w :: 'a::len word) :: u64) = unat w" if "LENGTH('a) \<le> 64"
proof -
  have "unat w < 2 ^ LENGTH('a)" by simp
  also have "\<dots> \<le> 2 ^ 64" using that by (simp only: power_increasing)
  finally show ?thesis by (simp add: unsigned_ucast_eq take_bit_nat_eq_self_iff)
qed

lemma get32_less: "unat (get32 b i) < 4294967296" and get16_less: "unat (get16 b i) < 65536"
  using unsigned_less [of "get32 b i", where ?'a = nat] unsigned_less [of "get16 b i", where ?'a = nat]
  by simp_all

lemma be_sum_drop2:
  assumes "i + 2 \<le> length b"
  shows "be_sum (drop i b) = unat (get16 b i) + be_sum (drop (i + 2) b)"
proof -
  have "drop i b = b ! i # b ! (i + 1) # drop (i + 2) b"
    using assms by (simp add: Cons_nth_drop_Suc)
  then show ?thesis by (simp add: unat_get16)
qed

lemma oc_eq_get32: "oc_eq (unat (get32 b i)) (unat (get16 b i) + unat (get16 b (i + 2)))"
  using oc_eq_shift16 [of "unat (get16 b i)" "unat (get16 b (i + 2))"]
  by (simp add: unat_get16 unat_get32 algebra_simps del: add_2_eq_Suc add_2_eq_Suc')

lemma be_sum_drop8:
  assumes "i + 8 \<le> length b"
  shows "oc_eq (unat (get32 b i) + unat (get32 b (i + 4)) + be_sum (drop (i + 8) b)) (be_sum (drop i b))"
proof -
  have "be_sum (drop i b) = unat (get16 b i) + unat (get16 b (i + 2)) + (unat (get16 b (i + 4)) + unat (get16 b (i + 6)))
      + be_sum (drop (i + 8) b)"
    using assms be_sum_drop2 [of i b] be_sum_drop2 [of "i + 2" b] be_sum_drop2 [of "i + 4" b] be_sum_drop2 [of "i + 6" b]
    by (simp add: algebra_simps del: add_2_eq_Suc add_2_eq_Suc')
  then show ?thesis
    using oc_eq_add [OF oc_eq_add [OF oc_eq_get32 [of b i] oc_eq_get32 [of b "i + 4"]] oc_eq_refl [of "be_sum (drop (i + 8) b)"]]
    by (simp add: add.assoc del: add_2_eq_Suc add_2_eq_Suc')
qed

lemma sum16_by8_spec:
  assumes "sum16_by8 b i acc = (j, acc')" "unat acc + 1073741824 * (length b - i) < 18446744073709551616" "i \<le> length b"
  shows "oc_eq (unat acc' + be_sum (drop j b)) (unat acc + be_sum (drop i b))
    \<and> unat acc' + 1073741824 * (length b - j) \<le> unat acc + 1073741824 * (length b - i) \<and> j \<le> length b"
  using assms
proof (induction b i acc rule: sum16_by8.induct)
  case (1 b i acc)
  let ?w = "ucast (get32 b i) + ucast (get32 b (i + 4)) :: u64"
  show ?case
  proof (cases "i + 8 \<le> length b")
    case True
    have w: "unat ?w = unat (get32 b i) + unat (get32 b (i + 4))"
      using get32_less [of b i] get32_less [of b "i + 4"] by (subst unat_u64_add) simp_all
    have le: "unat ?w \<le> 8589934592" using w get32_less [of b i] get32_less [of b "i + 4"] by linarith
    have acc: "unat (acc + ?w) = unat acc + unat ?w"
      using le True "1.prems"(2) by (intro unat_u64_add) linarith
    have "sum16_by8 b (i + 8) (acc + ?w) = (j, acc')"
      using "1.prems"(1) True by (simp add: sum16_by8.simps [of b i])
    then have IH: "oc_eq (unat acc' + be_sum (drop j b)) (unat (acc + ?w) + be_sum (drop (i + 8) b))
       \<and> unat acc' + 1073741824 * (length b - j) \<le> unat (acc + ?w) + 1073741824 * (length b - (i + 8)) \<and> j \<le> length b"
      using acc le True "1.prems"(2) by (intro "1.IH") auto
    have "oc_eq (unat (acc + ?w) + be_sum (drop (i + 8) b)) (unat acc + be_sum (drop i b))"
      using oc_eq_add [OF oc_eq_refl be_sum_drop8 [OF True], of "unat acc"] by (simp add: acc w add.assoc)
    then show ?thesis
      using IH acc le True by (auto intro: oc_eq_trans)
  next
    case False
    then show ?thesis using "1.prems" by (simp add: sum16_by8.simps [of b i])
  qed
qed

lemma sum16_by2_spec:
  assumes "sum16_by2 b i acc = (j, acc')" "unat acc + 1073741824 * (length b - i) < 18446744073709551616" "i \<le> length b"
  shows "unat acc' + be_sum (drop j b) = unat acc + be_sum (drop i b)
    \<and> unat acc' + 1073741824 * (length b - j) \<le> unat acc + 1073741824 * (length b - i) \<and> length b < j + 2 \<and> j \<le> length b"
  using assms
proof (induction b i acc rule: sum16_by2.induct)
  case (1 b i acc)
  let ?w = "ucast (get16 b i) :: u64"
  show ?case
  proof (cases "i + 2 \<le> length b")
    case True
    have acc: "unat (acc + ?w) = unat acc + unat (get16 b i)"
      using get16_less [of b i] True "1.prems"(2) by (subst unat_u64_add) auto
    have "sum16_by2 b (i + 2) (acc + ?w) = (j, acc')"
      using "1.prems"(1) True by (simp add: sum16_by2.simps [of b i])
    then have "unat acc' + be_sum (drop j b) = unat (acc + ?w) + be_sum (drop (i + 2) b)
       \<and> unat acc' + 1073741824 * (length b - j) \<le> unat (acc + ?w) + 1073741824 * (length b - (i + 2)) 
       \<and> length b < j + 2 \<and> j \<le> length b"
      using acc get16_less [of b i] True "1.prems"(2) by (intro "1.IH") auto
    then show ?thesis
      using acc get16_less [of b i] True by (auto simp: be_sum_drop2)
  next
    case False
    then show ?thesis using "1.prems" by (simp add: sum16_by2.simps [of b i])
  qed
qed

lemma sum16_spec:
  assumes "unat acc + 1073741824 * length b < 18446744073709551616"
  shows "oc_eq (unat (sum16 b acc)) (unat acc + be_sum b)"
    and "unat (sum16 b acc) \<le> unat acc + 1073741824 * length b"
proof -
  obtain j acc1 where 1: "sum16_by8 b 0 acc = (j, acc1)" by (rule prod.exhaust)
  obtain k acc2 where 2: "sum16_by2 b j acc1 = (k, acc2)" by (rule prod.exhaust)
  note s8 = sum16_by8_spec [OF 1] note s2 = sum16_by2_spec [OF 2]
  have s8: "oc_eq (unat acc1 + be_sum (drop j b)) (unat acc + be_sum b)"
     "unat acc1 + 1073741824 * (length b - j) \<le> unat acc + 1073741824 * length b" "j \<le> length b"
    using s8 assms by auto
  have s2: "unat acc2 + be_sum (drop k b) = unat acc1 + be_sum (drop j b)"
     "unat acc2 + 1073741824 * (length b - k) \<le> unat acc1 + 1073741824 * (length b - j)" "length b < k + 2" "k \<le> length b"
    using s2 s8 assms by auto
  have "oc_eq (unat (sum16 b acc)) (unat acc + be_sum b) \<and> unat (sum16 b acc) \<le> unat acc + 1073741824 * length b"
  proof (cases "k < length b")
    case True
    then have d: "drop k b = [b ! k]" using s2 by (simp add: Cons_nth_drop_Suc [symmetric])
    have p: "unat (push_bit 8 (ucast (b ! k)) :: u64) = 256 * unat (b ! k)"
      using unat_byte_less [of "b ! k"]
      by (simp add: push_bit_eq_mult unat_word_ariths unsigned_ucast_eq take_bit_eq_mod)
    have "unat (acc2 + push_bit 8 (ucast (b ! k))) = unat acc2 + 256 * unat (b ! k)"
      using p unat_byte_less [of "b ! k"] s2 s8 assms True by (subst unat_u64_add) auto
    moreover have "unat acc2 + 256 * unat (b ! k) \<le> unat acc + 1073741824 * length b"
      using unat_byte_less [of "b ! k"] s2 s8 True by auto
    ultimately show ?thesis using True s2(1) s8(1) d by (simp add: sum16_def 1 2)
  next
    case False
    then have "drop k b = []" by simp
    then show ?thesis using False s2 s8 by (simp add: sum16_def 1 2)
  qed
  then show "oc_eq (unat (sum16 b acc)) (unat acc + be_sum b)" "unat (sum16 b acc) \<le> unat acc + 1073741824 * length b"
    by simp_all
qed

subsection \<open>Folding\<close>

text \<open>One folding step keeps the one's complement value.\<close>

lemma oc_eq_fold16: "oc_eq (n div 65536 + n mod 65536) n"
  using oc_eq_sym [OF oc_eq_shift16 [of "n div 65536" "n mod 65536"]] by simp

lemma oc_eq_fold32: "oc_eq (n div 4294967296 + n mod 4294967296) n"
proof -
  define h l where "h = n div 4294967296" and "l = n mod 4294967296"
  have n: "n = 65536 * (65536 * h) + l"
    using div_mult_mod_eq [of n 4294967296] by (simp add: h_def l_def)
  have "oc_eq (65536 * (65536 * h) + l) (65536 * h + l)" by (rule oc_eq_shift16)
  then have "oc_eq n (h + l)" unfolding n by (rule oc_eq_trans) (rule oc_eq_shift16)
  then show ?thesis unfolding h_def l_def by (rule oc_eq_sym)
qed

lemma unat_fold_step:
  fixes a :: u64
  shows "unat (drop_bit 32 a + (a AND 0xffffffff)) = unat a div 4294967296 + unat a mod 4294967296"
    and "unat (drop_bit 16 a + (a AND 0xffff)) = (unat a div 65536 + unat a mod 65536) mod 2 ^ 64"
proof -
  have m: "a AND 0xffffffff = take_bit 32 a" "a AND 0xffff = take_bit 16 a"
    by (simp_all add: take_bit_eq_mask mask_eq_exp_minus_1)
  have a: "unat a < 18446744073709551616" using unsigned_less [of a, where ?'a = nat] by simp
  then have "unat a div 4294967296 < 4294967296" by (simp add: less_mult_imp_div_less)
  then show "unat (drop_bit 32 a + (a AND 0xffffffff)) = unat a div 4294967296 + unat a mod 4294967296"
    unfolding m by (subst unat_u64_add) (simp_all add: drop_bit_eq_div take_bit_eq_mod unat_div_distrib unat_mod_distrib)
  show "unat (drop_bit 16 a + (a AND 0xffff)) = (unat a div 65536 + unat a mod 65536) mod 2 ^ 64"
    unfolding m unat_word_ariths by (simp add: drop_bit_eq_div take_bit_eq_mod unat_div_distrib unat_mod_distrib)
qed

lemma div_add_mod_less: "n + 2 \<le> 2 * k \<Longrightarrow> n div k + n mod k < (k :: nat)"
proof (cases "n < k")
  case False
  assume *: "n + 2 \<le> 2 * k"
  have "n div k = 1" using * False by (intro div_nat_eqI) auto
  moreover have "n mod k = n - k" using * False by (simp add: le_mod_geq)
  ultimately show ?thesis using * False by simp
qed simp

lemma fold_bounds:
  fixes n :: nat
  assumes "n < 18446744073709551616"
  defines "n1 \<equiv> n div 4294967296 + n mod 4294967296"
  defines "n2 \<equiv> n1 div 4294967296 + n1 mod 4294967296"
  defines "n3 \<equiv> n2 div 65536 + n2 mod 65536"
  defines "n4 \<equiv> n3 div 65536 + n3 mod 65536"
  shows "n2 < 4294967296" "n3 \<le> 131070" "n4 < 65536"
proof -
  have "n div 4294967296 < 4294967296" using assms(1) by (simp add: less_mult_imp_div_less)
  then have "n1 \<le> 8589934590" unfolding n1_def by linarith
  then show n2: "n2 < 4294967296" unfolding n2_def by (intro div_add_mod_less) simp
  then have "n2 div 65536 < 65536" by (simp add: less_mult_imp_div_less)
  then show n3: "n3 \<le> 131070" unfolding n3_def by linarith
  then show "n4 < 65536" unfolding n4_def by (intro div_add_mod_less) simp
qed

lemma unat_fold_acc: "unat (fold_acc a) = oc_val (unat a)"
proof -
  define a1 where "a1 = drop_bit 32 a + (a AND 0xffffffff)"
  define a2 where "a2 = drop_bit 32 a1 + (a1 AND 0xffffffff)"
  define a3 where "a3 = drop_bit 16 a2 + (a2 AND 0xffff)"
  define a4 where "a4 = drop_bit 16 a3 + (a3 AND 0xffff)"
  have f: "fold_acc a = ucast a4" by (simp only: fold_acc_def Let_def a1_def a2_def a3_def a4_def)
  have n: "unat a < 18446744073709551616" using unsigned_less [of a, where ?'a = nat] by simp
  note b = fold_bounds [OF n]
  have 1: "unat a1 = unat a div 4294967296 + unat a mod 4294967296"
    unfolding a1_def by (rule unat_fold_step)
  have 2: "unat a2 = unat a1 div 4294967296 + unat a1 mod 4294967296"
    unfolding a2_def by (rule unat_fold_step)
  have 3: "unat a3 = unat a2 div 65536 + unat a2 mod 65536"
    using b(2) unfolding a3_def unat_fold_step(2) 1 [symmetric] 2 [symmetric] by simp
  have 4: "unat a4 = unat a3 div 65536 + unat a3 mod 65536"
    using b(3) unfolding a4_def unat_fold_step(2) 1 [symmetric] 2 [symmetric] 3 [symmetric] by simp
  have lt: "unat a4 < 65536" using b(3) by (simp only: 1 [symmetric] 2 [symmetric] 3 [symmetric] 4 [symmetric])
  have "oc_eq (unat a4) (unat a)"
    unfolding 4 3 2 1 by (meson oc_eq_fold16 oc_eq_fold32 oc_eq_trans)
  then have "oc_val (unat a4) = oc_val (unat a)" by (rule oc_val_eq)
  then show ?thesis using lt oc_val_less [OF lt] by (simp add: f unsigned_ucast_eq take_bit_eq_mod)
qed

lemma unat_numeral_u16: "unat (65535 :: u16) = 65535"
  by simp

lemma unat_not_u16: "unat (NOT (w :: u16)) = 65535 - unat w"
proof -
  have "NOT w = - 1 - w" by (simp add: not_eq_complement)
  moreover have "unat (- 1 - w) = unat (- 1 :: u16) - unat w" by (rule unat_sub) simp
  moreover have "(- 1 :: u16) = 65535" by simp
  ultimately show ?thesis by (metis unat_numeral_u16)
qed


subsection \<open>Checksums\<close>

lemma oc_val_le: "oc_val n \<le> 65535"
  by (simp add: oc_val_def)

lemma oc_val_decomp: "\<exists>k. n = oc_val n + 65535 * k"
proof (cases "n \<noteq> 0 \<and> n mod 65535 = 0")
  case True
  then have "n = 65535 * (n div 65535)" "0 < n div 65535" by (auto simp: dvd_eq_mod_eq_0 [symmetric])
  then have "n = 65535 + 65535 * (n div 65535 - 1)" by (simp add: algebra_simps)
  with True show ?thesis by (auto simp: oc_val_def)
next
  case False
  then have "oc_val n = n mod 65535" by (auto simp: oc_val_def)
  then have "n = oc_val n + 65535 * (n div 65535)" by simp
  then show ?thesis ..
qed

lemma mod_eq_by_mult: "a + 65535 * x = b + 65535 * y \<Longrightarrow> a mod 65535 = b mod (65535 :: nat)"
  by (metis mod_mult_self2)

lemma oc_val_65535: "oc_val n = 65535 \<longleftrightarrow> 0 < n \<and> n mod 65535 = 0"
proof -
  have "n mod 65535 < 65535" by simp
  then have "n mod 65535 \<noteq> 65535" by linarith
  then show ?thesis by (auto simp: oc_val_def)
qed

lemma unat_fold_sum16:
  "ck_range b extra \<Longrightarrow> unat (fold_acc (sum16 b extra)) = oc_val (unat extra + be_sum b)"
  unfolding ck_range_def unat_fold_acc by (intro oc_val_eq sum16_spec)

lemma verify_iff:
  assumes "ck_range b extra"
  shows "verify b extra \<longleftrightarrow> 0 < unat extra + be_sum b \<and> (unat extra + be_sum b) mod 65535 = 0"
  using unat_fold_sum16 [OF assms] oc_val_65535 [of "unat extra + be_sum b"]
  by (simp add: verify_def word_unat_eq_iff)

lemma unat_checksum:
  "ck_range b extra \<Longrightarrow> unat (checksum b extra) = 65535 - oc_val (unat extra + be_sum b)"
  by (simp add: checksum_def unat_not_u16 unat_fold_sum16)

lemma be_sum_append_even: "even (length xs) \<Longrightarrow> be_sum (xs @ ys) = be_sum xs + be_sum ys"
  by (induction xs rule: be_sum.induct) auto

lemma be_sum_put16:
  assumes "even i" "i + 1 < length b"
  shows "be_sum (put16 b i v) + unat (get16 b i) = be_sum b + unat v"
proof -
  have b: "b = take i b @ b ! i # b ! (i + 1) # drop (i + 2) b"
    using assms(2) by (simp add: Cons_nth_drop_Suc)
  have l: "length (take i b) = i" using assms(2) by simp
  have "put16 b i v = take i b @ hi8 v # lo8 v # drop (i + 2) b"
    using l by (subst b) (simp add: put16_def list_update_append)
  moreover have "256 * unat (hi8 v) + unat (lo8 v) = unat v" by (simp add: unat_hi8 unat_lo8)
  moreover have "be_sum b = be_sum (take i b) + (unat (get16 b i) + be_sum (drop (i + 2) b))"
    using be_sum_append_even [of "take i b" "drop i b"] be_sum_drop2 [of i b] assms by simp
  ultimately show ?thesis
    using assms(1) l by (simp add: be_sum_append_even)
qed

text \<open>A stored checksum makes the buffer verify.\<close>

lemma verify_put_checksum:
  assumes "ck_range b extra" "even i" "i + 1 < length b" "get16 b i = 0"
  shows "verify (put16 b i (checksum b extra)) extra"
proof -
  let ?n = "unat extra + be_sum b"
  obtain k where k: "?n = oc_val ?n + 65535 * k" using oc_val_decomp by blast
  have "be_sum (put16 b i (checksum b extra)) = be_sum b + (65535 - oc_val ?n)"
    using be_sum_put16 [OF assms(2,3), of "checksum b extra"] assms(4) unat_checksum [OF assms(1)] by simp
  then have e: "unat extra + be_sum (put16 b i (checksum b extra)) = 65535 * (k + 1)"
    using k oc_val_le [of ?n] by simp
  have "ck_range (put16 b i (checksum b extra)) extra" using assms(1) by (simp add: ck_range_def)
  then show ?thesis unfolding verify_iff e by (simp only: verify_iff e) simp
qed

lemma exchange_mod:
  fixes a r t x y n o' :: nat
  assumes "y + o' = x + n" "(n + a) mod 65535 = (o' + r) mod 65535"
  shows "(a + t + y) mod 65535 = (r + t + x) mod 65535"
proof -
  obtain p q where "n + a + 65535 * p = o' + r + 65535 * q"
    using assms(2) unfolding nat_mod_eq_iff by blast
  then have "a + t + y + 65535 * p = r + t + x + 65535 * q" using assms(1) by linarith
  then show ?thesis by (rule mod_eq_by_mult)
qed

text \<open>RFC 1624: the adjusted checksum balances the exchanged words.\<close>

lemma adjust_cong:
  assumes "unat add < 2 ^ 63"
  shows "(unat (adjust old remove add) + unat add) mod 65535 = (unat old + unat remove) mod 65535"
proof -
  define f where "f = oc_val (unat remove)"
  define S where "S = 65535 - unat old + (65535 - f) + unat add"
  have f: "f \<le> 65535" unfolding f_def by (rule oc_val_le)
  have old: "unat old < 65536" using unsigned_less [of old, where ?'a = nat] by simp
  have "unat (ucast (NOT old) + ucast (NOT (fold_acc remove)) + add :: u64) = S"
    using assms f old
    by (simp add: unat_u64_add unat_not_u16 unat_fold_acc S_def f_def [symmetric])
  then have new: "unat (adjust old remove add) = 65535 - oc_val S"
    by (simp add: adjust_def unat_not_u16 unat_fold_acc)
  obtain k where k: "S = oc_val S + 65535 * k" using oc_val_decomp by blast
  obtain l where l: "unat remove = f + 65535 * l" unfolding f_def using oc_val_decomp by blast
  have "S + unat old + f = 131070 + unat add" using f old unfolding S_def by simp
  moreover have "unat (adjust old remove add) + oc_val S = 65535" using new oc_val_le [of S] by simp
  ultimately have "unat (adjust old remove add) + unat add + 65535 * (l + 1)
      = unat old + unat remove + 65535 * k"
    using k l by simp
  then show ?thesis by (rule mod_eq_by_mult)
qed


subsection \<open>Pseudo-headers\<close>

lemma sum16_small:
  assumes "length b \<le> 1048576" "unat acc < 1099511627776"
  shows "oc_eq (unat (sum16 b acc)) (unat acc + be_sum b)" "unat (sum16 b acc) < 1127000493261824"
  using sum16_spec [of acc b] assms by auto

lemma word_of_int_len:
  assumes "0 \<le> len" "len < 4294967296"
  shows "unat (word_of_int len :: u64) = nat len"
    and "unat (drop_bit 16 (word_of_int len :: u32)) = nat len div 65536"
    and "unat (word_of_int len :: u16) = nat len mod 65536"
proof -
  show "unat (word_of_int len :: u64) = nat len"
    using assms by (simp add: unsigned_of_int take_bit_int_eq_self)
  have "unat (word_of_int len :: u32) = nat len"
    using assms by (simp add: unsigned_of_int take_bit_int_eq_self)
  then show "unat (drop_bit 16 (word_of_int len :: u32)) = nat len div 65536"
    by (simp add: unat_drop_bit_eq drop_bit_eq_div unat_div_distrib)
  show "unat (word_of_int len :: u16) = nat len mod 65536"
    using assms by (simp add: unsigned_of_int take_bit_eq_mod nat_mod_distrib)
qed

lemma sum16_addr:
  assumes "n \<le> 16"
  shows "oc_eq (unat (sum16 (take n b) 0)) (be_sum (take n b))"
    and "unat (sum16 (take n b) 0) \<le> 17179869184"
proof -
  have l: "length (take n b) \<le> 16" using assms by simp
  then have "unat (0 :: u64) + 1073741824 * length (take n b) < 18446744073709551616" by simp
  note sp = sum16_spec [OF this]
  show "oc_eq (unat (sum16 (take n b) 0)) (be_sum (take n b))" using sp(1) by simp
  show "unat (sum16 (take n b) 0) \<le> 17179869184" using sp(2) l by simp
qed

lemma pseudo4_spec:
  assumes "0 \<le> len" "len < 4294967296"
  shows "oc_eq (unat (pseudo4 src dst len proto)) (be_sum (take 4 src) + be_sum (take 4 dst) + nat len + unat proto)"
    and "unat (pseudo4 src dst len proto) < 1099511627776"
proof -
  have l: "nat len < 4294967296" using assms by simp
  have "4 \<le> (16::nat)" by simp
  note s = sum16_addr [OF this, of src] and d = sum16_addr [OF this, of dst]
  have p: "unat (pseudo4 src dst len proto)
      = unat (sum16 (take 4 src) 0) + unat (sum16 (take 4 dst) 0) + nat len + unat proto"
    using s(2) d(2) l unat_byte_less [of proto]
    by (simp add: pseudo4_def unat_u64_add word_of_int_len [OF assms])
  show "oc_eq (unat (pseudo4 src dst len proto)) (be_sum (take 4 src) + be_sum (take 4 dst) + nat len + unat proto)"
    unfolding p using s(1) d(1) by (intro oc_eq_add oc_eq_refl) auto
  show "unat (pseudo4 src dst len proto) < 1099511627776"
    unfolding p using s(2) d(2) l unat_byte_less [of proto] by simp
qed

lemma pseudo6_spec:
  assumes "0 \<le> len" "len < 4294967296"
  shows "oc_eq (unat (pseudo6 src dst len proto)) (be_sum (take 16 src) + be_sum (take 16 dst) + nat len + unat proto)"
    and "unat (pseudo6 src dst len proto) < 1099511627776"
proof -
  have l: "nat len < 4294967296" using assms by simp
  have "16 \<le> (16::nat)" by simp
  note s = sum16_addr [OF this, of src] and d = sum16_addr [OF this, of dst]
  have h: "nat len div 65536 < 65536" using l by (simp add: less_mult_imp_div_less)
  have p: "unat (pseudo6 src dst len proto)
      = unat (sum16 (take 16 src) 0) + unat (sum16 (take 16 dst) 0) + (nat len div 65536 + nat len mod 65536) + unat proto"
    using s(2) d(2) h unat_byte_less [of proto]
    by (simp add: pseudo6_def unat_u64_add word_of_int_len [OF assms])
  show "oc_eq (unat (pseudo6 src dst len proto)) (be_sum (take 16 src) + be_sum (take 16 dst) + nat len + unat proto)"
    unfolding p using s(1) d(1) by (intro oc_eq_add oc_eq_refl oc_eq_fold16) auto
  show "unat (pseudo6 src dst len proto) < 1099511627776"
    unfolding p using s(2) d(2) h unat_byte_less [of proto] by simp
qed


subsection \<open>Updating a checksum\<close>

lemma be_sum_update0: "0 < length b \<Longrightarrow> be_sum (b[0 := v]) + 256 * unat (b ! 0) = be_sum b + 256 * unat v"
  by (cases b rule: be_sum.cases) auto

lemma oc_eqD: "oc_eq m n \<Longrightarrow> m mod 65535 = n mod 65535" "oc_eq m n \<Longrightarrow> 0 < m \<longleftrightarrow> 0 < n"
  by (auto simp: oc_eq_def)

lemma sum16_le32:
  assumes "length b \<le> 32"
  shows "oc_eq (unat (sum16 b 0)) (be_sum b)" "unat (sum16 b 0) \<le> 34359738368"
proof -
  have "unat (0 :: u64) + 1073741824 * length b < 18446744073709551616" using assms by simp
  note sp = sum16_spec [OF this]
  show "oc_eq (unat (sum16 b 0)) (be_sum b)" using sp(1) by simp
  show "unat (sum16 b 0) \<le> 34359738368" using sp(2) assms by simp
qed

text \<open>Verification against an accumulator known only up to one's complement equality.\<close>

lemma verify_oc:
  assumes "oc_eq (unat e) n" "unat e < 1099511627776" "length b \<le> 131072"
  shows "verify b e \<longleftrightarrow> 0 < n + be_sum b \<and> (n + be_sum b) mod 65535 = 0"
proof -
  have "ck_range b e" using assms(2,3) by (simp add: ck_range_def)
  moreover have "oc_eq (unat e + be_sum b) (n + be_sum b)" using assms(1) by (rule oc_eq_add) simp
  ultimately show ?thesis using oc_eqD [of "unat e + be_sum b" "n + be_sum b"] by (simp add: verify_iff)
qed

text \<open>
  The incremental update on the first part \<open>d\<close> of a datagram \<open>d @ r\<close>: the words of \<open>A\<close>
  leave the pseudo-header, those of \<open>B\<close> enter it, \<open>c\<close> stays.
\<close>

lemma adjust_pseudo:
  assumes i: "even i" "i + 1 < length d" and l: "length (d @ r) \<le> 131072" "length A \<le> 32" "length B \<le> 32"
    and r: "r = [] \<or> even (length d)" and c: "0 < c"
    and e: "oc_eq (unat e) (be_sum A + c)" "unat e < 1099511627776"
    and e': "oc_eq (unat e') (be_sum B + c)" "unat e' < 1099511627776"
    and ck: "unat ck mod 65535 = unat (adjust (get16 d i) (sum16 A 0) (sum16 B 0)) mod 65535"
    and v: "verify (d @ r) e"
  shows "verify (put16 d i ck @ r) e'"
proof -
  have s: "be_sum (x @ r) = be_sum x + be_sum r" if "length x = length d" for x
    using r that be_sum_append_even [of x r] by auto
  note A = sum16_le32 [OF l(2)] and B = sum16_le32 [OF l(3)]
  have "(unat ck + be_sum B) mod 65535 = (unat (adjust (get16 d i) (sum16 A 0) (sum16 B 0)) + unat (sum16 B 0)) mod 65535"
    using ck oc_eqD(1) [OF B(1)] by (metis mod_add_cong)
  also have "\<dots> = (unat (get16 d i) + unat (sum16 A 0)) mod 65535" using B(2) by (intro adjust_cong) simp
  also have "\<dots> = (unat (get16 d i) + be_sum A) mod 65535" using oc_eqD(1) [OF A(1)] by (metis mod_add_cong)
  finally have "(be_sum B + (c + be_sum r) + be_sum (put16 d i ck)) mod 65535 = (be_sum A + (c + be_sum r) + be_sum d) mod 65535"
    using be_sum_put16 [OF i, of ck] by (intro exchange_mod)
  moreover have "(be_sum A + c + be_sum (d @ r)) mod 65535 = 0" using v verify_oc [OF e l(1)] by simp
  ultimately have "(be_sum B + c + be_sum (put16 d i ck @ r)) mod 65535 = 0" by (simp add: s ac_simps)
  moreover have "length (put16 d i ck @ r) \<le> 131072" using l(1) by simp
  ultimately show ?thesis using verify_oc [OF e'] c by simp
qed

lemma be_sum_split:
  assumes "even (j - i)" "i \<le> j" "j \<le> k" "k \<le> length b"
  shows "be_sum (gslice i k b) = be_sum (gslice i j b) + be_sum (gslice j k b)"
proof -
  have "gslice i k b = gslice i j b @ gslice j k b"
    using assms take_add [of "j - i" "k - j" "drop i b"] by (simp add: gslice_def)
  then show ?thesis using assms by (simp add: be_sum_append_even)
qed

text \<open>A zero checksum and an all-ones checksum mean the same in one's complement.\<close>

lemma udp_zero_mod: "unat (if b \<and> ck = 0 then 0xffff else ck :: u16) mod 65535 = unat ck mod 65535"
  by simp

lemma pseudo4_slices:
  assumes "20 \<le> length h" "n < 4294967296"
  shows "oc_eq (unat (pseudo4 (gslice 12 16 h) (gslice 16 20 h) (int n) pr)) (be_sum (gslice 12 20 h) + (n + unat pr))"
    and "unat (pseudo4 (gslice 12 16 h) (gslice 16 20 h) (int n) pr) < 1099511627776"
  using pseudo4_spec [of "int n" "gslice 12 16 h" "gslice 16 20 h" pr] be_sum_split [of 16 12 20 h] assms
  by (simp_all add: add.assoc)

lemma pseudo6_slices:
  assumes "40 \<le> length h" "n < 4294967296"
  shows "oc_eq (unat (pseudo6 (gslice 8 24 h) (gslice 24 40 h) (int n) pr)) (be_sum (gslice 8 40 h) + (n + unat pr))"
    and "unat (pseudo6 (gslice 8 24 h) (gslice 24 40 h) (int n) pr) < 1099511627776"
  using pseudo6_spec [of "int n" "gslice 8 24 h" "gslice 24 40 h" pr] be_sum_split [of 24 8 40 h] assms
  by (simp_all add: add.assoc)

lemma not_fold_cong: "(unat (NOT (fold_acc x)) + unat x) mod 65535 = 0"
proof -
  obtain k where "unat x = oc_val (unat x) + 65535 * k" using oc_val_decomp by blast
  then have "unat (NOT (fold_acc x)) + unat x = 65535 * (k + 1)"
    using oc_val_le [of "unat x"] by (simp add: unat_not_u16 unat_fold_acc)
  then show ?thesis by (simp only: mod_mult_self1_is_0)
qed

text \<open>An ICMP header whose type changes from \<open>d ! 0\<close> to \<open>v\<close> and whose pseudo-header sum changes from \<open>P\<close> to \<open>P'\<close>.\<close>

lemma icmp_exchange:
  assumes l: "8 \<le> length d" "length (d @ r) \<le> 131072" and r: "r = [] \<or> even (length d)"
    and e: "oc_eq (unat e) P" "unat e < 1099511627776"
    and e': "oc_eq (unat e') P'" "unat e' < 1099511627776"
    and pos: "0 < P' + be_sum (put16 (d[0 := v]) 2 ck @ r)"
    and ck: "(unat ck + (P' + 256 * unat v)) mod 65535 = (unat (get16 d 2) + (P + 256 * unat (d ! 0))) mod 65535"
    and v: "verify (d @ r) e"
  shows "verify (put16 (d[0 := v]) 2 ck @ r) e'"
proof -
  let ?d = "put16 (d[0 := v]) 2 ck"
  have s: "be_sum (x @ r) = be_sum x + be_sum r" if "length x = length d" for x
    using r that be_sum_append_even [of x r] by auto
  have g: "get16 (d[0 := v]) 2 = get16 d 2" by (simp add: get16_def)
  have "be_sum ?d + unat (get16 d 2) = be_sum (d[0 := v]) + unat ck"
    using be_sum_put16 [of 2 "d[0 := v]" ck] l(1) by (simp add: g)
  moreover have "be_sum (d[0 := v]) + 256 * unat (d ! 0) = be_sum d + 256 * unat v"
    using l(1) by (intro be_sum_update0) linarith
  ultimately have "be_sum ?d + unat (get16 d 2) + 256 * unat (d ! 0) = be_sum d + unat ck + 256 * unat v" by simp
  moreover obtain p q where "unat ck + (P' + 256 * unat v) + 65535 * p = unat (get16 d 2) + (P + 256 * unat (d ! 0)) + 65535 * q"
    using ck unfolding nat_mod_eq_iff by blast
  ultimately have "P' + be_sum (?d @ r) + 65535 * p = P + be_sum (d @ r) + 65535 * q" using s by simp
  then have "(P' + be_sum (?d @ r)) mod 65535 = (P + be_sum (d @ r)) mod 65535" by (rule mod_eq_by_mult)
  also have "\<dots> = 0" using v verify_oc [OF e l(2)] by simp
  finally have "(P' + be_sum (?d @ r)) mod 65535 = 0" .
  then show ?thesis using pos l(2) verify_oc [OF e', of "?d @ r"] by simp
qed

lemma icmp4to6_ck:
  assumes "unat ps < 1099511627776" "unat v0 \<le> unat v" "delta = word_of_nat (256 * (unat (v :: byte) - unat (v0 :: byte)))"
  shows "(unat (NOT (fold_acc (ucast (NOT old) + ps + delta))) + (unat ps + 256 * unat v)) mod 65535
    = (unat (old :: u16) + (0 + 256 * unat v0)) mod 65535"
proof -
  have old: "unat old < 65536" using unsigned_less [of old, where ?'a = nat] by simp
  have d: "unat delta = 256 * unat v - 256 * unat v0" "unat v < 256"
    using unat_byte_less [of v] unfolding assms(3) by (simp_all add: unat_of_nat diff_mult_distrib2 unsigned_of_nat take_bit_eq_mod)
  define x where "x = ucast (NOT old) + ps + delta"
  have x: "unat x + unat old + 256 * unat v0 = 65535 + unat ps + 256 * unat v"
    unfolding x_def using assms(1,2) old d by (simp add: unat_u64_add unat_not_u16)
  obtain k where "unat (NOT (fold_acc x)) + unat x = 65535 * k" using not_fold_cong [of x] by (auto elim: dvdE simp: mod_eq_0_iff_dvd)
  then have "unat (NOT (fold_acc x)) + (unat ps + 256 * unat v) + 65535 = unat old + (0 + 256 * unat v0) + 65535 * k"
    using x by simp
  then show ?thesis unfolding x_def [symmetric] using mod_eq_by_mult [of _ 1 _ k] by simp
qed

lemma verify_put_checksum_nz:
  assumes "ck_range b extra" "even i" "i + 1 < length b" "get16 b i = 0"
  shows "verify (put16 b i (if checksum b extra = 0 then 0xffff else checksum b extra)) extra"
proof (cases "checksum b extra = 0")
  case True
  let ?n = "unat extra + be_sum b"
  have "unat (checksum b extra) = 0" using True by simp
  then have "oc_val ?n = 65535" using unat_checksum [OF assms(1)] oc_val_le [of ?n] by simp
  then have "0 < ?n" "?n mod 65535 = 0" using oc_val_65535 by auto
  moreover have "be_sum (put16 b i 0xffff) = be_sum b + 65535" using be_sum_put16 [OF assms(2,3), of "0xffff"] assms(4) by simp
  moreover have "ck_range (put16 b i 0xffff) extra" using assms(1) by (simp add: ck_range_def)
  ultimately show ?thesis using True by (simp add: verify_iff add.assoc [symmetric])
next
  case False
  then show ?thesis using verify_put_checksum [OF assms] by simp
qed

lemma icmp6to4_ck:
  assumes "unat v \<le> unat v0" "delta = (word_of_nat (256 * (unat (v0 :: byte) - unat (v :: byte))) :: u16)"
  shows "(unat (NOT (fold_acc (ucast (NOT old) + ucast (NOT (fold_acc ps)) + ucast (NOT delta)))) + (0 + 256 * unat v)) mod 65535
    = (unat (old :: u16) + (unat ps + 256 * unat v0)) mod 65535"
proof -
  have old: "unat old < 65536" using unsigned_less [of old, where ?'a = nat] by simp
  define f where "f = oc_val (unat ps)"
  have f: "f \<le> 65535" unfolding f_def by (rule oc_val_le)
  have d: "unat delta = 256 * unat v0 - 256 * unat v" "unat v0 < 256"
    using unat_byte_less [of v0] unfolding assms(2) by (simp_all add: diff_mult_distrib2 unsigned_of_nat take_bit_eq_mod)
  define x :: u64 where "x = ucast (NOT old) + ucast (NOT (fold_acc ps)) + ucast (NOT delta)"
  have x: "unat x + unat old + f + 256 * unat v0 = 196605 + 256 * unat v"
    unfolding x_def using assms(1) old d f by (simp add: unat_u64_add unat_not_u16 unat_fold_acc f_def [symmetric])
  obtain k where k: "unat (NOT (fold_acc x)) + unat x = 65535 * k" using not_fold_cong [of x] by (auto elim: dvdE simp: mod_eq_0_iff_dvd)
  obtain l where l: "unat ps = f + 65535 * l" unfolding f_def using oc_val_decomp by blast
  have "unat (NOT (fold_acc x)) + (0 + 256 * unat v) + 65535 * (l + 3) = unat old + (unat ps + 256 * unat v0) + 65535 * k"
    using x k l by simp
  then show ?thesis unfolding x_def [symmetric] by (rule mod_eq_by_mult)
qed

lemma be_sum_pos: "0 < be_sum b \<longleftrightarrow> (\<exists>x\<in>set b. x \<noteq> 0)"
  by (induction b rule: be_sum.induct) (auto simp: unat_gt_0)

subsection \<open>Properties\<close>

text \<open>
  Claim C33 (equivalence). The optimised sum, eight bytes at a time in a 64-bit
  accumulator, folded to 16 bits, is the one's complement value of the plain sum of
  the big-endian 16-bit words, an odd last byte padded with zero.
\<close>

theorem fold_sum16_reference:
  assumes "ck_range b extra"
  shows "unat (fold_acc (sum16 b extra)) = oc_val (unat extra + be_sum b)"
  using assms by (rule unat_fold_sum16)

theorem fold_sum16_reference_witness:
  "ck_range [0x45, 0, 0xff] 7 \<and> unat (fold_acc (sum16 [0x45, 0, 0xff] 7)) = oc_val (7 + 82944)"
proof -
  have h: "ck_range [0x45, 0, 0xff] 7" by (simp add: ck_range_def)
  show ?thesis using h fold_sum16_reference [OF h] by simp
qed

text \<open>
  Claim C34 (functional). A checksum computed while its field is zero and then stored in
  the field makes the buffer verify, whatever the pseudo-header sum.
\<close>

theorem checksum_then_verify:
  assumes "ck_range b extra" "even i" "i + 1 < length b" "get16 b i = 0"
  shows "verify (put16 b i (checksum b extra)) extra"
  using assms by (rule verify_put_checksum)

theorem checksum_then_verify_witness:
  "get16 [1, 2, 0, 0, 9] 2 = 0 \<and> verify (put16 [1, 2, 0, 0, 9] 2 (checksum [1, 2, 0, 0, 9] 77)) 77"
proof -
  have g: "get16 [1, 2, 0, 0, 9] 2 = 0" by (simp add: get16_def)
  have "verify (put16 [1, 2, 0, 0, 9] 2 (checksum [1, 2, 0, 0, 9] 77)) 77"
    using g by (intro checksum_then_verify) (simp_all add: ck_range_def)
  with g show ?thesis by simp
qed

text \<open>
  Claim C35 (functional). The RFC 1624 update is a recomputation: if a buffer verifies
  against a pseudo-header sum \<open>remove + rest\<close>, then with its checksum field replaced by
  \<open>adjust\<close> it verifies against \<open>add + rest\<close>.
\<close>

theorem adjust_keeps_verify:
  assumes "length b \<le> 1048576" "even i" "i + 1 < length b"
    and "unat remove < 1099511627776" "unat add < 1099511627776" "unat rest < 1099511627776"
    and "0 < unat add" "verify b (remove + rest)"
  shows "verify (put16 b i (adjust (get16 b i) remove add)) (add + rest)"
proof -
  let ?b = "put16 b i (adjust (get16 b i) remove add)"
  have r: "unat (remove + rest) = unat remove + unat rest" "unat (add + rest) = unat add + unat rest"
    using assms(4-6) by (simp_all add: unat_u64_add)
  have c: "ck_range b (remove + rest)" "ck_range ?b (add + rest)"
    using assms(1,4-6) by (simp_all add: ck_range_def r)
  have old: "(unat remove + unat rest + be_sum b) mod 65535 = 0"
    using assms(8) unfolding verify_iff [OF c(1)] r by simp
  have "be_sum ?b + unat (get16 b i) = be_sum b + unat (adjust (get16 b i) remove add)"
    using assms(2,3) by (rule be_sum_put16)
  moreover have "(unat (adjust (get16 b i) remove add) + unat add) mod 65535
      = (unat (get16 b i) + unat remove) mod 65535"
    using assms(5) by (intro adjust_cong) simp
  ultimately have "(unat add + unat rest + be_sum ?b) mod 65535 = (unat remove + unat rest + be_sum b) mod 65535"
    by (rule exchange_mod)
  with old assms(7) show ?thesis unfolding verify_iff [OF c(2)] r by simp
qed

theorem adjust_keeps_verify_witness:
  "verify [0, 1, 0xff, 0xf0] (9 + 5) \<and>
   verify (put16 [0, 1, 0xff, 0xf0] 2 (adjust (get16 [0, 1, 0xff, 0xf0] 2) 9 30)) (30 + 5)"
proof -
  have v: "verify [0, 1, 0xff, 0xf0] (9 + 5)"
    by (simp add: verify_iff ck_range_def)
  have "verify (put16 [0, 1, 0xff, 0xf0] 2 (adjust (get16 [0, 1, 0xff, 0xf0] 2) 9 30)) (30 + 5)"
    using v by (intro adjust_keeps_verify) simp_all
  with v show ?thesis by blast
qed

end
