(* ===== verification/Xlate.thy ===== *)
theory Xlate
  imports Packet Checksum
begin

text \<open>
  \<^verbatim>\<open>src/internal/xlate/translator.go\<close>: the interfaces the translator calls,
  its configuration, and the world its methods run in.

  A Go interface is a record of functions on the state behind it: a \<open>Mapper\<close> has a
  state \<open>'m\<close>, an \<open>Emitter\<close> a state \<open>'e\<close>. An emitter hands out a buffer, whose bytes are
  whatever it held before, and the translator fills it; \<open>emPacket\<close> is the call of
  \<^verbatim>\<open>Packet\<close> and \<open>emFill\<close> the writes through the slice it returned, made before the
  next call. The observer's calls are appended to \<open>wtrace\<close>, and \<open>wrand\<close> is the sequence
  of values \<^verbatim>\<open>rand.Uint32\<close> will return.
\<close>

subsection \<open>Interfaces and state\<close>

datatype map_error = ErrReject | ErrDrop

record 'm Mapper =
  MapIPv4ToIPv6 :: "Addr \<Rightarrow> 'm \<Rightarrow> (map_error + Addr) \<times> 'm"
  MapIPv6ToIPv4 :: "Addr \<Rightarrow> bool \<Rightarrow> 'm \<Rightarrow> (map_error + Addr) \<times> 'm"

record 'e Emitter =
  emPacket :: "nat \<Rightarrow> 'e \<Rightarrow> byte list option \<times> 'e"
  emFill :: "byte list \<Rightarrow> 'e \<Rightarrow> 'e"

datatype UDPChecksumMode = UDPChecksumDrop | UDPChecksumCalc | UDPChecksumForward

fun UDPChecksumMode_String :: "UDPChecksumMode \<Rightarrow> string" where
  "UDPChecksumMode_String UDPChecksumDrop = ''drop''"
| "UDPChecksumMode_String UDPChecksumCalc = ''calc''"
| "UDPChecksumMode_String UDPChecksumForward = ''forward''"

record Config =
  LocalAddr4 :: Addr
  LocalAddr6 :: Addr
  MTU :: int
  OfflinkMTU :: int
  UDPChecksum :: UDPChecksumMode

record 'm Translator =
  cfg :: Config
  mapper :: "'m Mapper"
  local4 :: "byte list"
  local6 :: "byte list"

record ('m, 'e) world =
  wmapper :: 'm
  wout :: 'e
  wtrace :: "obs list"
  wrand :: "nat \<Rightarrow> u32"

subsection \<open>The constructor\<close>

definition New :: "Config \<Rightarrow> 'm Mapper \<Rightarrow> 'm Translator" where
  "New c m =
     (let c = (if OfflinkMTU c < int mtuMin then c\<lparr>OfflinkMTU := int mtuMin\<rparr> else c) in
      \<lparr>cfg = c, mapper = m, local4 = As4 (LocalAddr4 c), local6 = As16 (LocalAddr6 c)\<rparr>)"

subsection \<open>Calls on the interfaces\<close>

definition obs_event :: "Event \<Rightarrow> ('m, 'e) world \<Rightarrow> ('m, 'e) world" where
  "obs_event e w = w\<lparr>wtrace := wtrace w @ [Observed e]\<rparr>"

definition obs_translated :: "byte \<Rightarrow> nat \<Rightarrow> ('m, 'e) world \<Rightarrow> ('m, 'e) world" where
  "obs_translated f n w = w\<lparr>wtrace := wtrace w @ [Translated f (int n)]\<rparr>"

definition out_packet :: "'e Emitter \<Rightarrow> nat \<Rightarrow> ('m, 'e) world \<Rightarrow> byte list option \<times> ('m, 'e) world" where
  "out_packet out n w = (let (b, e) = emPacket out n (wout w) in (b, w\<lparr>wout := e\<rparr>))"

definition out_fill :: "'e Emitter \<Rightarrow> byte list \<Rightarrow> ('m, 'e) world \<Rightarrow> ('m, 'e) world" where
  "out_fill out b w = w\<lparr>wout := emFill out b (wout w)\<rparr>"

definition map4to6 :: "'m Translator \<Rightarrow> byte list \<Rightarrow> ('m, 'e) world \<Rightarrow> (map_error + byte list) \<times> ('m, 'e) world" where
  "map4to6 t a w =
     (let (r, m) = MapIPv4ToIPv6 (mapper t) (AddrFrom4 (take 4 a)) (wmapper w);
          w = w\<lparr>wmapper := m\<rparr>
      in case r of
           Inl err \<Rightarrow> (Inl err, w)
         | Inr x \<Rightarrow> if \<not> Is6 x then (Inl ErrDrop, w) else (Inr (As16 x), w))"

definition map6to4 :: "'m Translator \<Rightarrow> byte list \<Rightarrow> bool \<Rightarrow> ('m, 'e) world \<Rightarrow> (map_error + byte list) \<times> ('m, 'e) world" where
  "map6to4 t a allocate w =
     (let (r, m) = MapIPv6ToIPv4 (mapper t) (AddrFrom16 (take 16 a)) allocate (wmapper w);
          w = w\<lparr>wmapper := m\<rparr>
      in case r of
           Inl err \<Rightarrow> (Inl err, w)
         | Inr x \<Rightarrow> if \<not> Is4 x then (Inl ErrDrop, w) else (Inr (As4 x), w))"

definition randomIdent :: "('m, 'e) world \<Rightarrow> u16 \<times> ('m, 'e) world" where
  "randomIdent w = (ucast (wrand w 0), w\<lparr>wrand := \<lambda>i. wrand w (Suc i)\<rparr>)"

subsection \<open>Transport checksums\<close>

text \<open>
  The transport checksum of a whole datagram \<open>d\<close>, as a receiver checks it: TCP and UDP
  with the pseudo-header of their family, ICMPv4 without, ICMPv6 with.
\<close>

definition transport_ok4 :: "byte list \<Rightarrow> byte list \<Rightarrow> byte \<Rightarrow> byte list \<Rightarrow> bool" where
  "transport_ok4 src dst pr d =
     (if pr = protoICMP then verify d 0
      else if pr = protoTCP \<or> pr = protoUDP then verify d (pseudo4 src dst (int (length d)) pr)
      else True)"

definition transport_ok6 :: "byte list \<Rightarrow> byte list \<Rightarrow> byte \<Rightarrow> byte list \<Rightarrow> bool" where
  "transport_ok6 src dst pr d =
     (if pr = protoICMPv6 \<or> pr = protoTCP \<or> pr = protoUDP then verify d (pseudo6 src dst (int (length d)) pr)
      else True)"

definition proto4to6 :: "byte \<Rightarrow> byte" where
  "proto4to6 pr = (if pr = protoICMP then protoICMPv6 else pr)"

definition proto6to4 :: "byte \<Rightarrow> byte" where
  "proto6to4 pr = (if pr = protoICMPv6 then protoICMP else pr)"

subsection \<open>Closed forms of the packets built\<close>

text \<open>
  Every packet is written field by field into a buffer with unknown contents. The
  closed forms show that every byte is written.
\<close>

definition word4 :: "u32 \<Rightarrow> byte list" where
  "word4 v = [ucast (drop_bit 24 v), ucast (drop_bit 16 v), ucast (drop_bit 8 v), ucast v]"

definition first_word6 :: "byte \<Rightarrow> byte list" where
  "first_word6 tc = word4 (push_bit 28 6 OR push_bit 20 (ucast tc))"

definition hdr6 :: "byte \<Rightarrow> u16 \<Rightarrow> byte \<Rightarrow> byte \<Rightarrow> byte list \<Rightarrow> byte list \<Rightarrow> byte list" where
  "hdr6 tc len nh hl src dst = first_word6 tc @ [hi8 len, lo8 len, nh, hl] @ src @ dst"

definition hdr4 :: "byte \<Rightarrow> u16 \<Rightarrow> u16 \<Rightarrow> u16 \<Rightarrow> byte \<Rightarrow> byte \<Rightarrow> byte list \<Rightarrow> byte list \<Rightarrow> byte list" where
  "hdr4 tos len ident fo ttl pr src dst =
     [0x45, tos, hi8 len, lo8 len, hi8 ident, lo8 ident, hi8 fo, lo8 fo, ttl, pr, 0, 0] @ src @ dst"

definition icmp_hdr :: "byte \<Rightarrow> byte \<Rightarrow> u32 \<Rightarrow> byte list \<Rightarrow> byte list" where
  "icmp_hdr typ code word payload = [typ, code, 0, 0] @ word4 word @ payload"

definition seal :: "nat \<Rightarrow> u64 \<Rightarrow> byte list \<Rightarrow> byte list" where
  "seal i extra b = put16 b i (checksum b extra)"

lemma length_hdr6 [simp]: "length (hdr6 tc len nh hl src dst) = 8 + length src + length dst"
  by (simp add: hdr6_def first_word6_def word4_def)

lemma length_hdr4 [simp]: "length (hdr4 tos len ident fo ttl pr src dst) = 12 + length src + length dst"
  by (simp add: hdr4_def)

lemma hdr6_fields [simp]:
  "hdr6 tc len nh hl src dst ! 7 = hl" "(hdr6 tc len nh hl src dst)[7 := v] = hdr6 tc len nh v src dst"
  "hdr6 tc len nh hl src dst ! 6 = nh" "(hdr6 tc len nh hl src dst)[6 := v] = hdr6 tc len v hl src dst"
  "put16 (hdr6 tc len nh hl src dst) 4 k = hdr6 tc k nh hl src dst" "get16 (hdr6 tc len nh hl src dst) 4 = len"
  by (simp_all add: hdr6_def first_word6_def word4_def put16_def get16_def be16_hi_lo)

lemma hdr6_addrs [simp]:
  assumes "length src = 16" "length dst = 16"
  shows "gslice 8 24 (hdr6 tc len nh hl src dst) = src" "gslice 24 40 (hdr6 tc len nh hl src dst) = dst"
  using assms by (simp_all add: hdr6_def first_word6_def word4_def gslice_def)

lemma hdr4_fields [simp]:
  "hdr4 tos len ident fo ttl pr src dst ! 8 = ttl" "(hdr4 tos len ident fo ttl pr src dst)[8 := v] = hdr4 tos len ident fo v pr src dst"
  "get16 (hdr4 tos len ident fo ttl pr src dst) 2 = len" "get16 (hdr4 tos len ident fo ttl pr src dst) 10 = 0"
  by (simp_all add: hdr4_def get16_def be16_hi_lo)

lemma hdr4_addrs [simp]:
  assumes "length src = 4" "length dst = 4"
  shows "gslice 12 16 (hdr4 tos len ident fo ttl pr src dst) = src" "gslice 16 20 (hdr4 tos len ident fo ttl pr src dst) = dst"
  using assms by (simp_all add: hdr4_def gslice_def)

lemma length_icmp_hdr [simp]: "length (icmp_hdr typ code word payload) = 8 + length payload"
  by (simp add: icmp_hdr_def word4_def)

lemma length_seal [simp]: "length (seal i e b) = length b"
  by (simp add: seal_def)

subsection \<open>Well-formed packets\<close>

lemma get32_word4: "get32 (a @ word4 v @ b) (length a) = v"
proof -
  have "push_bit 24 (ucast (ucast (drop_bit 24 v) :: byte)) OR push_bit 16 (ucast (ucast (drop_bit 16 v) :: byte))
     OR push_bit 8 (ucast (ucast (drop_bit 8 v) :: byte)) OR ucast (ucast v :: byte) = v" (is "?l = v")
  proof (rule bit_eqI)
    fix n assume "possible_bit TYPE(u32) n"
    then have n: "n < 32" by simp
    consider "n < 8" | "8 \<le> n" "n < 16" | "16 \<le> n" "n < 24" | "24 \<le> n" by linarith
    then show "bit ?l n = bit v n" using n by cases (auto simp: bit_simps)
  qed
  then show ?thesis by (simp add: get32_def word4_def nth_append)
qed

lemma first_word6_version [simp]: "drop_bit 4 (first_word6 tc ! 0) = 6"
proof -
  define v :: u32 where "v = push_bit 28 6 OR push_bit 20 (ucast tc)"
  have "unat v = unat (push_bit 28 6 :: u32) + unat (push_bit 20 (ucast tc) :: u32)"
    unfolding v_def
  proof (rule word_or_disjoint_unat)
    fix n
    have "28 \<le> n" if "bit (push_bit 28 6 :: u32) n" using that by (simp only: bit_push_bit_iff)
    moreover have "n < 28" if "bit (push_bit 20 (ucast tc) :: u32) n"
      using that bit_imp_le_length [of tc "n - 20"] by (auto simp: bit_simps)
    ultimately show "\<not> (bit (push_bit 28 6 :: u32) n \<and> bit (push_bit 20 (ucast tc) :: u32) n)" by fastforce
  qed
  moreover have "unat (push_bit 20 (ucast tc) :: u32) = 1048576 * unat tc"
    using unat_byte_less [of tc] by (simp add: push_bit_eq_mult unat_word_ariths unsigned_ucast_eq take_bit_eq_mod)
  ultimately have v: "unat v = 1610612736 + 1048576 * unat tc" by simp
  have "unat (drop_bit 24 v) = unat v div 16777216" by (simp add: drop_bit_eq_div unat_div_distrib)
  then have "unat (drop_bit 24 v) = 96 + unat tc div 16" unfolding v by linarith
  then have "unat (ucast (drop_bit 24 v) :: byte) = 96 + unat tc div 16"
    using unat_byte_less [of tc] by (simp add: unsigned_ucast_eq take_bit_eq_mod)
  then have "unat (drop_bit 4 (ucast (drop_bit 24 v) :: byte)) = 6"
    using unat_byte_less [of tc] by (simp add: drop_bit_eq_div unat_div_distrib)
  then have "drop_bit 4 (ucast (drop_bit 24 v) :: byte) = 6" by (simp add: word_unat_eq_iff)
  then show ?thesis by (simp add: first_word6_def word4_def v_def)
qed

text \<open>
  What every packet handed to the emitter must be: an IPv4 packet without options whose
  total length is its length and whose header checksum verifies, or an IPv6 packet whose
  payload length is its length.
\<close>

definition wf_ip4 :: "byte list \<Rightarrow> bool" where
  "wf_ip4 b \<longleftrightarrow> 20 \<le> length b \<and> b ! 0 = 0x45 \<and> ip4TotalLen b = length b \<and> verify (take 20 b) 0"

definition wf_ip6 :: "byte list \<Rightarrow> bool" where
  "wf_ip6 b \<longleftrightarrow> 40 \<le> length b \<and> drop_bit 4 (b ! 0) = 6 \<and> ip6PayloadLen b + 40 = length b"

lemma unat_word_of_nat_u16: "n \<le> 65535 \<Longrightarrow> unat (word_of_nat n :: u16) = n"
  by (simp add: unsigned_of_nat take_bit_eq_mod)

lemma wf_ip4_packet:
  assumes "length src = 4" "length dst = 4" "20 + length d \<le> 65535"
  shows "wf_ip4 (seal 10 0 (hdr4 tos (word_of_nat (20 + length d)) ident fo ttl pr src dst) @ d)"
proof -
  define H where "H = hdr4 tos (word_of_nat (20 + length d)) ident fo ttl pr src dst"
  have l: "length H = 20" using assms by (simp add: H_def)
  have "ck_range H 0" using l by (simp add: ck_range_def)
  then have v: "verify (seal 10 0 H) 0" unfolding seal_def using l by (intro verify_put_checksum) (simp_all add: H_def)
  have "get16 (seal 10 0 H @ d) 2 = get16 H 2" using l by (simp add: get16_append) (simp add: seal_def get16_def put16_def)
  also have "\<dots> = word_of_nat (20 + length d)" by (simp only: H_def hdr4_fields)
  finally have "ip4TotalLen (seal 10 0 H @ d) = 20 + length d"
    using assms(3) by (simp only: ip4TotalLen_def unat_word_of_nat_u16)
  moreover have "(seal 10 0 H @ d) ! 0 = 0x45" using l by (simp add: nth_append seal_def put16_def) (simp add: H_def hdr4_def)
  ultimately show ?thesis using v l unfolding H_def [symmetric] by (simp add: wf_ip4_def)
qed

lemma hdr6_bytes:
  "hdr6 tc len nh hl src dst ! 0 = first_word6 tc ! 0" "length (first_word6 tc) = 4"
  by (simp_all add: hdr6_def first_word6_def word4_def)

lemma wf_ip6_packet:
  assumes "length src = 16" "length dst = 16" "length d \<le> 65535"
  shows "wf_ip6 (hdr6 tc (word_of_nat (length d)) nh hl src dst @ d)"
proof -
  let ?H = "hdr6 tc (word_of_nat (length d)) nh hl src dst"
  have l: "length ?H = 40" using assms by simp
  have "get16 (?H @ d) 4 = word_of_nat (length d)" using l by (simp add: get16_append)
  then have "ip6PayloadLen (?H @ d) = length d" using assms(3) by (simp add: ip6PayloadLen_def unat_word_of_nat_u16)
  then show ?thesis using l by (simp add: wf_ip6_def nth_append hdr6_bytes)
qed

end
