(* ===== verification/Xlate4.thy ===== *)
theory Xlate4
  imports Xlate
begin

text \<open>
  \<^verbatim>\<open>src/internal/xlate/xlate4.go\<close>: the translation of packets received from the
  IPv4 side, one definition per function of the file.
\<close>

subsection \<open>Generated ICMPv4\<close>

definition icmp4_message :: "byte \<Rightarrow> byte list \<Rightarrow> byte list \<Rightarrow> byte \<Rightarrow> byte \<Rightarrow> u32 \<Rightarrow> byte list \<Rightarrow> byte list \<Rightarrow> byte list" where
  "icmp4_message tos src dst typ code word payload b =
     (let n = ipv4HdrLen + icmpHdrLen + length payload;
          b = b[0 := 0x45, 1 := tos];
          b = put16 b 2 (word_of_nat n);
          b = put16 b 4 0;
          b = put16 b 6 0;
          b = b[8 := 64, 9 := protoICMP, 10 := 0, 11 := 0];
          b = copy_at 12 (take 4 src) b;
          b = copy_at 16 (take 4 dst) b;
          b = put16 b 10 (checksum (take ipv4HdrLen b) 0);
          b = b[20 := typ, 21 := code, 22 := 0, 23 := 0];
          b = put32 b 24 word;
          b = copy_at (ipv4HdrLen + icmpHdrLen) payload b
      in put16 b 22 (checksum (drop ipv4HdrLen b) 0))"

definition sendICMPv4 ::
    "'m Translator \<Rightarrow> 'e Emitter \<Rightarrow> byte \<Rightarrow> byte list \<Rightarrow> byte list \<Rightarrow> byte \<Rightarrow> byte \<Rightarrow> u32 \<Rightarrow> byte list
     \<Rightarrow> ('m, 'e) world \<Rightarrow> ('m, 'e) world" where
  "sendICMPv4 t out tos src dst typ code word payload w =
     (case out_packet out (ipv4HdrLen + icmpHdrLen + length payload) w of
        (None, w) \<Rightarrow> w
      | (Some b, w) \<Rightarrow> out_fill out (icmp4_message tos src dst typ code word payload b) w)"

definition sendICMPv4Error ::
    "'m Translator \<Rightarrow> 'e Emitter \<Rightarrow> byte \<Rightarrow> byte \<Rightarrow> u32 \<Rightarrow> pkt \<Rightarrow> ('m, 'e) world \<Rightarrow> ('m, 'e) world" where
  "sendICMPv4Error t out typ code word orig w =
     (if proto orig = protoICMP \<and> picmp orig ! 0 \<noteq> 8 then w
      else
        let n = hdrLen orig + dataLen orig;
            mx = icmp4MaxLen - ipv4HdrLen - icmpHdrLen;
            n = (if n > mx then mx else n)
        in sendICMPv4 t out 0 (local4 t) (gslice 12 16 (pip orig)) typ code word (take n (raw orig)) w)"

definition hostICMPv4 :: "'m Translator \<Rightarrow> 'e Emitter \<Rightarrow> pkt \<Rightarrow> ('m, 'e) world \<Rightarrow> ('m, 'e) world" where
  "hostICMPv4 t out p w =
     (if picmp p ! 0 = 8 then
        let w = obs_event (event p KindSelf ReasonEchoRequest) w in
        sendICMPv4 t out (pip p ! 1) (gslice 16 20 (pip p)) (gslice 12 16 (pip p)) 0 (picmp p ! 1)
          (icmpWord (picmp p)) (drop icmpHdrLen (pdata p)) w
      else obs_event (event p KindSelf ReasonSelfUnknownICMPType) w)"

subsection \<open>Headers and payload\<close>

definition header4to6 :: "pkt \<Rightarrow> byte list \<Rightarrow> int \<Rightarrow> byte list \<Rightarrow> byte list \<Rightarrow> byte list" where
  "header4to6 p h payloadLen src6 dst6 =
     (let h = put32 h 0 (push_bit 28 6 OR push_bit 20 (ucast (pip p ! 1)));
          h = put16 h 4 (word_of_int payloadLen);
          h = h[6 := (if proto p = protoICMP then protoICMPv6 else proto p)];
          h = h[7 := pip p ! 8];
          h = copy_at 8 src6 h
      in copy_at 24 dst6 h)"

definition payload4to6 :: "'m Translator \<Rightarrow> pkt \<Rightarrow> byte list \<Rightarrow> Reason \<times> pkt" where
  "payload4to6 t p h =
     (let update = (\<lambda>ckOff.
          let old = get16 (pdata p) ckOff;
              ck = adjust old (sum16 (gslice 12 20 (pip p)) 0) (sum16 (gslice 8 40 h) 0);
              ck = (if proto p = protoUDP \<and> ck = 0 then 0xffff else ck)
          in (ReasonNone, put_data p ckOff ck))
      in
      if ip4FlagsOff (pip p) AND ip4OffMask \<noteq> 0 then (ReasonNone, p)
      else if proto p = protoICMP then
        let ps = pseudo6 (gslice 8 24 h) (gslice 24 40 h) (int (ip4TotalLen (pip p)) - int (hdrLen p)) protoICMPv6;
            old = get16 (picmp p) 2;
            (delta :: u64, p) =
              (if picmp p ! 0 = 8 then (push_bit 8 (128 - 8), set_icmpType p 128)
               else (push_bit 8 (129 - 0), set_icmpType p 129))
        in (ReasonNone, put_icmp p 2 (NOT (fold_acc (ucast (NOT old) + ps + delta))))
      else if proto p = protoUDP then
        if dataLen p < 8 then (ReasonUDPHeaderLength, p)
        else if get16 (pdata p) 6 = 0 then
          (case UDPChecksum (cfg t) of
             UDPChecksumForward \<Rightarrow> (ReasonNone, p)
           | UDPChecksumCalc \<Rightarrow>
               let ck = checksum (pdata p) (pseudo6 (gslice 8 24 h) (gslice 24 40 h) (int (dataLen p)) protoUDP);
                   ck = (if ck = 0 then 0xffff else ck)
               in (ReasonNone, put_data p 6 ck)
           | UDPChecksumDrop \<Rightarrow> (ReasonUDPZeroChecksum, p))
        else update 6
      else if proto p = protoTCP then
        if dataLen p < 20 then (ReasonTCPHeaderLength, p) else update 16
      else (ReasonNone, p))"

subsection \<open>Data packets\<close>

text \<open>
  The fragmentation loop. Its result says whether every fragment was handed out
  (\<open>False\<close>: the emitter refused a buffer). A fragment size of zero never consumes
  any data, and slicing with a negative one panics; in both cases the value is \<open>None\<close>.
\<close>

partial_function (option) fragments4to6 ::
    "'e Emitter \<Rightarrow> byte list \<Rightarrow> byte list \<Rightarrow> bool \<Rightarrow> int \<Rightarrow> byte list \<Rightarrow> nat \<Rightarrow> ('m, 'e) world
     \<Rightarrow> (bool \<times> ('m, 'e) world) option" where
  "fragments4to6 out h fh origMF fragSize d off w =
     (if d = [] then Some (True, w)
      else
        let n = (if int (length d) < fragSize then int (length d) else fragSize) in
        if n < 0 then None
        else
          let h = put16 h 4 (word_of_int (int fragHdrLen + n));
              flags = (word_of_nat off :: u16);
              flags = (if int (length d) > n \<or> origMF then flags OR ip6FragMF else flags);
              fh = put16 fh 2 flags
          in
          case out_packet out (ipv6HdrLen + fragHdrLen + nat n) w of
            (None, w) \<Rightarrow> Some (False, w)
          | (Some b, w) \<Rightarrow>
              let b = copy_at 0 h b;
                  b = copy_at ipv6HdrLen fh b;
                  b = copy_at (ipv6HdrLen + fragHdrLen) (take (nat n) d) b
              in fragments4to6 out h fh origMF fragSize (drop (nat n) d) (off + nat n) (out_fill out b w))"

definition xlate4to6Data :: "'m Translator \<Rightarrow> 'e Emitter \<Rightarrow> pkt \<Rightarrow> ('m, 'e) world \<Rightarrow> ('m, 'e) world option" where
  "xlate4to6Data t out p w =
     (let fragSize = OfflinkMTU (cfg t);
          fragSize = (if fragSize > MTU (cfg t) then MTU (cfg t) else fragSize);
          fragSize = fragSize - int ipv6HdrLen
      in
      case map4to6 t (gslice 16 20 (pip p)) w of
        (Inl err, w) \<Rightarrow>
          Some (if err = ErrReject then
                  sendICMPv4Error t out 3 1 0 p (obs_event (event p KindReject ReasonDestinationUnmappable) w)
                else obs_event (event p KindDrop ReasonDestinationUnmappable) w)
      | (Inr dst6, w) \<Rightarrow>
      case map4to6 t (gslice 12 16 (pip p)) w of
        (Inl err, w) \<Rightarrow>
          Some (if err = ErrReject then
                  sendICMPv4Error t out 3 10 0 p (obs_event (event p KindReject ReasonSourceUnmappable) w)
                else obs_event (event p KindDrop ReasonSourceUnmappable) w)
      | (Inr src6, w) \<Rightarrow>
      let fo = ip4FlagsOff (pip p); unfragmented = (fo AND (ip4OffMask OR ip4FlagMF) = 0) in
      if unfragmented \<and> fo AND ip4FlagDF \<noteq> 0 \<and> MTU (cfg t) - mtuAdj < int (hdrLen p + dataLen p) then
        Some (sendICMPv4Error t out 3 4 (word_of_int (MTU (cfg t) - mtuAdj)) p
               (obs_event (event p KindICMP ReasonPacketTooBig) w))
      else
        let noFragHdr = (unfragmented \<and> (fo AND ip4FlagDF \<noteq> 0 \<or> int (dataLen p) \<le> fragSize));
            h = header4to6 p (replicate ipv6HdrLen 0) (int (dataLen p)) src6 dst6;
            h = h[7 := h ! 7 - 1]
        in
        case payload4to6 t p h of (r, p) \<Rightarrow>
        if r \<noteq> ReasonNone then Some (obs_event (event p KindDrop r) w)
        else
          let total = hdrLen p + dataLen p in
          if noFragHdr then
            case out_packet out (ipv6HdrLen + dataLen p) w of
              (None, w) \<Rightarrow> Some w
            | (Some b, w) \<Rightarrow>
                let b = copy_at 0 h b; b = copy_at ipv6HdrLen (pdata p) b
                in Some (obs_translated 4 total (out_fill out b w))
          else
            let fh = (replicate fragHdrLen 0)[0 := h ! 6];
                h = h[6 := protoFrag];
                fh = put32 fh 4 (ucast (ip4Ident (pip p)));
                off = unat (fo AND ip4OffMask) * 8;
                fragSize = (fragSize - int fragHdrLen) div 8 * 8;
                origMF = (fo AND ip4FlagMF \<noteq> 0)
            in
            case fragments4to6 out h fh origMF fragSize (pdata p) off w of
              None \<Rightarrow> None
            | Some (done, w) \<Rightarrow> Some (if done then obs_translated 4 total w else w))"

subsection \<open>ICMP errors\<close>

definition ptrTable4to6 :: "int list" where
  "ptrTable4to6 = [0, 1, 4, 4, - 1, - 1, - 1, - 1, 7, 6, - 1, - 1, 8, 8, 8, 8, 24, 24, 24, 24]"

text \<open>
  The type, code and second word of the translated message, or the reason it is
  dropped: the \<^verbatim>\<open>switch typ\<close> of \<^verbatim>\<open>xlate4to6ICMPError\<close>.
\<close>

definition icmpError4to6 :: "'m Translator \<Rightarrow> pkt \<Rightarrow> pkt \<Rightarrow> Reason + (byte \<times> byte \<times> u32)" where
  "icmpError4to6 t p em =
     (let typ = picmp p ! 0; code = picmp p ! 1 in
      if typ = 3 then
        if code \<in> {0, 1, 5, 6, 7, 8, 11, 12} then Inr (1, 0, 0)
        else if code = 2 then Inr (4, 1, 6)
        else if code = 3 then Inr (1, 4, 0)
        else if code = 4 then
          let mtu = uint (icmpWord (picmp p) AND 0xffff);
              mtu = (if mtu < 68 then estMTU (int (ip4TotalLen (pip em))) else mtu);
              mtu = mtu + mtuAdj;
              mtu = (if mtu > MTU (cfg t) then MTU (cfg t) else mtu);
              mtu = (if mtu < int mtuMin then int mtuMin else mtu)
          in Inr (2, 0, word_of_int mtu)
        else if code \<in> {9, 10, 13, 15} then Inr (1, 1, 0)
        else Inl ReasonUnknownUnreachableCode
      else if typ = 11 then Inr (3, code, 0)
      else if typ = 12 then
        if code \<noteq> 0 \<and> code \<noteq> 2 then Inl ReasonParamProblemInvalidCode
        else
          let ptr = unat (drop_bit 24 (icmpWord (picmp p))) in
          if ptr \<ge> length ptrTable4to6 then Inl ReasonParamProblemInvalidPointer
          else
            let np = ptrTable4to6 ! ptr in
            if np < 0 then Inl ReasonParamProblemUntranslatable else Inr (4, 0, word_of_int np)
      else Inl ReasonUnknownICMPType)"

text \<open>The embedded packet: the RFC 4884 length field, the parse, and the checks after it.\<close>

definition embedded4 :: "pkt \<Rightarrow> Reason + pkt" where
  "embedded4 p =
     (let b = drop icmpHdrLen (pdata p); typ = picmp p ! 0;
          emLen = (if typ = 3 \<or> typ = 11 \<or> typ = 12
                   then unat (drop_bit 14 (icmpWord (picmp p)) AND 0x3fc) else 0)
      in
      if emLen \<noteq> 0 \<and> length b < emLen then Inl ReasonEmbeddedTooShort
      else
        case parseIPv4 (new_pkt (if emLen \<noteq> 0 then take emLen b else b)) of (r, em) \<Rightarrow>
        if r \<noteq> ReasonNone then Inl ReasonEmbeddedParseFailed
        else if proto em = protoICMP \<and> picmp em ! 0 \<noteq> 8 then Inl ReasonICMPErrorOfICMPError
        else
          let mx = mtuMin - 2 * ipv6HdrLen - icmpHdrLen in
          Inr (if dataLen em > mx then em\<lparr>dataLen := mx\<rparr> else em))"

definition icmpError6_packet ::
    "pkt \<Rightarrow> byte list \<Rightarrow> byte list \<Rightarrow> byte \<times> byte \<times> u32 \<Rightarrow> byte list \<Rightarrow> pkt \<Rightarrow> byte list \<Rightarrow> byte list" where
  "icmpError6_packet p src6 dst6 o6 inner em b =
     (let (otype, ocode, oword) = o6;
          n = ipv6HdrLen + icmpHdrLen + ipv6HdrLen + dataLen em;
          h = header4to6 p (take ipv6HdrLen b) (int n - int ipv6HdrLen) src6 dst6;
          h = h[7 := h ! 7 - 1];
          b = copy_at 0 h b;
          b = b[40 := otype, 41 := ocode, 42 := 0, 43 := 0];
          b = put32 b 44 oword;
          b = copy_at (ipv6HdrLen + icmpHdrLen) inner b;
          b = copy_at (ipv6HdrLen + icmpHdrLen + ipv6HdrLen) (pdata em) b
      in put16 b 42 (checksum (drop ipv6HdrLen b)
           (pseudo6 (gslice 8 24 b) (gslice 24 40 b) (int n - int ipv6HdrLen) protoICMPv6)))"

definition xlate4to6ICMPError :: "'m Translator \<Rightarrow> 'e Emitter \<Rightarrow> pkt \<Rightarrow> ('m, 'e) world \<Rightarrow> ('m, 'e) world" where
  "xlate4to6ICMPError t out p w =
     (case embedded4 p of
        Inl r \<Rightarrow> obs_event (event p KindDrop r) w
      | Inr em \<Rightarrow>
      case map4to6 t (gslice 12 16 (pip em)) w of (emSrc, w) \<Rightarrow>
      case map4to6 t (gslice 16 20 (pip em)) w of (emDst, w) \<Rightarrow>
      case (emSrc, emDst) of
        (Inr emSrc, Inr emDst) \<Rightarrow>
          let inner = header4to6 em (replicate ipv6HdrLen 0) (int (ip4TotalLen (pip em)) - int (hdrLen em)) emSrc emDst in
          (case icmpError4to6 t p em of
             Inl r \<Rightarrow> obs_event (event p KindDrop r) w
           | Inr o6 \<Rightarrow>
           case payload4to6 t em inner of (r, em) \<Rightarrow>
           if r \<noteq> ReasonNone then obs_event (event p KindDrop ReasonEmbeddedUntranslatable) w
           else
             case map4to6 t (gslice 12 16 (pip p)) w of (s, w) \<Rightarrow>
             let (src6, w) =
               (case s of
                  Inl _ \<Rightarrow> (local6 t, obs_event (event p KindICMP ReasonSynthesisedSource) w)
                | Inr a \<Rightarrow> (a, w))
             in
             case map4to6 t (gslice 16 20 (pip p)) w of
               (Inl _, w) \<Rightarrow> obs_event (event p KindDrop ReasonDestinationUnmappable) w
             | (Inr dst6, w) \<Rightarrow>
             case out_packet out (ipv6HdrLen + icmpHdrLen + ipv6HdrLen + dataLen em) w of
               (None, w) \<Rightarrow> w
             | (Some b, w) \<Rightarrow>
                 obs_translated 4 (hdrLen p + dataLen p)
                   (out_fill out (icmpError6_packet p src6 dst6 o6 inner em b) w))
      | _ \<Rightarrow> obs_event (event p KindDrop ReasonEmbeddedUnmappable) w)"

subsection \<open>The handler\<close>

definition handleIPv4 :: "'m Translator \<Rightarrow> 'e Emitter \<Rightarrow> byte list \<Rightarrow> ('m, 'e) world \<Rightarrow> ('m, 'e) world option" where
  "handleIPv4 t out b w =
     (case parseIPv4 (new_pkt b) of (r, p) \<Rightarrow>
      if r \<noteq> ReasonNone then Some (obs_event (event p KindDrop r) w)
      else if pip p ! 8 = 0 \<or> \<not> verify (pip p) 0 \<or> hdrLen p + dataLen p \<noteq> ip4TotalLen (pip p) then
        Some (obs_event (event p KindDrop ReasonIPHeaderInvalid) w)
      else if icmpOff p \<noteq> None \<and> \<not> verify (pdata p) 0 then
        Some (obs_event (event p KindDrop ReasonICMPChecksumInvalid) w)
      else if gslice 16 20 (pip p) = local4 t then
        Some (if proto p = protoICMP then hostICMPv4 t out p w
              else sendICMPv4Error t out 3 2 0 p (obs_event (event p KindReject ReasonSelfUnknownProto) w))
      else if pip p ! 8 = 1 then
        Some (sendICMPv4Error t out 11 0 0 p (obs_event (event p KindICMP ReasonTimeExceeded) w))
      else if proto p \<noteq> protoICMP \<or> picmp p ! 0 = 8 \<or> picmp p ! 0 = 0 then xlate4to6Data t out p w
      else Some (xlate4to6ICMPError t out p w))"

subsection \<open>The payload keeps its checksum\<close>

definition update4to6 :: "pkt \<Rightarrow> byte list \<Rightarrow> nat \<Rightarrow> u16" where
  "update4to6 p h i =
     (let ck = adjust (get16 (pdata p) i) (sum16 (gslice 12 20 (pip p)) 0) (sum16 (gslice 8 40 h) 0)
      in if proto p = protoUDP \<and> ck = 0 then 0xffff else ck)"

lemma payload4to6_tcp_udp:
  assumes "ip4FlagsOff (pip p) AND ip4OffMask = 0" "proto p = protoTCP \<or> proto p = protoUDP \<and> get16 (pdata p) 6 \<noteq> 0"
    and "payload4to6 t p h = (ReasonNone, p')"
  defines "i \<equiv> if proto p = protoTCP then 16 else 6"
  shows "p' = put_data p i (update4to6 p h i)" "i + 1 < dataLen p" "even i"
  using assms by (auto simp: payload4to6_def update4to6_def Let_def split: if_splits)

lemma payload4to6_icmp:
  assumes "ip4FlagsOff (pip p) AND ip4OffMask = 0" "proto p = protoICMP" "payload4to6 t p h = (r, p')"
  defines "v \<equiv> if picmp p ! 0 = 8 then 128 else 129"
  defines "delta \<equiv> if picmp p ! 0 = 8 then 0x7800 else 0x8100"
  shows "r = ReasonNone" "p' = put_icmp (set_icmpType p v) 2
    (NOT (fold_acc (ucast (NOT (get16 (picmp p) 2))
       + pseudo6 (gslice 8 24 h) (gslice 24 40 h) (int (ip4TotalLen (pip p)) - int (hdrLen p)) protoICMPv6 + delta)))"
  using assms(1-3) unfolding v_def delta_def by (auto simp: payload4to6_def Let_def split: if_splits)

lemma update_nonzero_udp: "proto p = protoUDP \<Longrightarrow> update4to6 p h i \<noteq> 0"
  by (simp add: update4to6_def Let_def)

lemma payload4to6_tcp_udp_ok:
  assumes v: "view4 p" and h: "length h = 40" and off: "ip4FlagsOff (pip p) AND ip4OffMask = 0"
    and run: "payload4to6 t p h = (ReasonNone, p')"
    and tu: "proto p = protoTCP \<or> proto p = protoUDP \<and> get16 (pdata p) 6 \<noteq> 0"
    and rest: "rest = [] \<or> even (dataLen p)" "length (pdata p @ rest) \<le> 65535"
    and ok: "transport_ok4 (gslice 12 16 (pip p)) (gslice 16 20 (pip p)) (proto p) (pdata p @ rest)"
  shows "transport_ok6 (gslice 8 24 h) (gslice 24 40 h) (proto p) (pdata p' @ rest)"
proof -
  note vd = view4D [OF v] and ld = view4_slices [OF v]
  have rest': "rest = [] \<or> even (length (pdata p))" using rest(1) ld by simp
  let ?L = "length (pdata p @ rest)"
  have L: "?L < 4294967296" "?L \<le> 131072" using rest(2) by simp_all
  define i :: nat where "i = (if proto p = protoTCP then 16 else 6)"
  note pl = payload4to6_tcp_udp [OF off tu run, folded i_def]
  have p4: "20 \<le> length (pip p)" and p6: "40 \<le> length h" using ld vd h by simp_all
  have pos: "0 < ?L + unat (proto p)" using tu by auto
  have ck: "unat (update4to6 p h i) mod 65535
      = unat (adjust (get16 (pdata p) i) (sum16 (gslice 12 20 (pip p)) 0) (sum16 (gslice 8 40 h) 0)) mod 65535"
    unfolding update4to6_def Let_def by (rule udp_zero_mod)
  have "verify (pdata p @ rest) (pseudo4 (gslice 12 16 (pip p)) (gslice 16 20 (pip p)) (int ?L) (proto p))"
    using ok tu by (auto simp: transport_ok4_def)
  then have "verify (put16 (pdata p) i (update4to6 p h i) @ rest) (pseudo6 (gslice 8 24 h) (gslice 24 40 h) (int ?L) (proto p))"
    using pl ld ck pos p6
    by (intro adjust_pseudo [OF _ _ _ _ _ rest' _ pseudo4_slices [OF p4 L(1)] pseudo6_slices [OF p6 L(1)] ck]) (use L h in auto)
  then show ?thesis using tu pl(1) by (auto simp: transport_ok6_def pdata_put_data)
qed

lemma payload4to6_icmp_ok:
  assumes v: "view4 p" and h: "length h = 40" and off: "ip4FlagsOff (pip p) AND ip4OffMask = 0"
    and run: "payload4to6 t p h = (ReasonNone, p')" and ic: "proto p = protoICMP"
    and tot: "ip4TotalLen (pip p) = hdrLen p + length (pdata p @ rest)"
    and icmp: "picmp p ! 0 = 8 \<or> picmp p ! 0 = 0"
    and rest: "rest = [] \<or> even (dataLen p)" "length (pdata p @ rest) \<le> 65535"
    and ok: "verify (pdata p @ rest) 0"
  shows "verify (pdata p' @ rest) (pseudo6 (gslice 8 24 h) (gslice 24 40 h) (int (length (pdata p' @ rest))) protoICMPv6)"
proof -
  note ld = view4_slices [OF v]
  have rest': "rest = [] \<or> even (length (pdata p))" using rest(1) ld by simp
  let ?L = "length (pdata p @ rest)"
  have L: "?L < 4294967296" "?L \<le> 131072" using rest(2) by simp_all
  define x :: byte where "x = (if picmp p ! 0 = 8 then 128 else 129)"
  define delta :: u64 where "delta = (if picmp p ! 0 = 8 then 0x7800 else 0x8100)"
  define ps where "ps = pseudo6 (gslice 8 24 h) (gslice 24 40 h) (int ?L) protoICMPv6"
  define ck where "ck = NOT (fold_acc (ucast (NOT (get16 (pdata p) 2)) + ps + delta))"
  have io: "icmpOff p = Some (dataOff p)" "8 \<le> dataLen p" using view4D(6) [OF v ic] by simp_all
  have pi: "picmp p = take 8 (pdata p)" using io by (rule picmp_pdata)
  have d: "unat (pdata p ! 0) \<le> unat x" "delta = word_of_nat (256 * (unat x - unat (pdata p ! 0)))"
    using icmp pi unfolding x_def delta_def by auto
  have p': "pdata p' = put16 ((pdata p)[0 := x]) 2 ck"
    using payload4to6_icmp(2) [OF off ic run] tot io
    by (simp add: pi get16_take pdata_put_icmp pdata_set_icmpType x_def delta_def ck_def ps_def)
  have p6: "40 \<le> length h" using h by simp
  note pe = pseudo6_slices [OF p6 L(1), of protoICMPv6, folded ps_def]
  have "verify (put16 ((pdata p)[0 := x]) 2 ck @ rest) ps"
  proof (rule icmp_exchange [OF _ L(2) rest' _ _ oc_eq_refl pe(2) _ _ ok])
    show "(unat ck + (unat ps + 256 * unat x)) mod 65535 = (unat (get16 (pdata p) 2) + (0 + 256 * unat (pdata p ! 0))) mod 65535"
      unfolding ck_def by (rule icmp4to6_ck [OF pe(2) d])
    show "0 < unat ps + be_sum (put16 ((pdata p)[0 := x]) 2 ck @ rest)"
      using oc_eqD(2) [OF pe(1)] by simp
  qed (use io ld in simp_all)
  then show ?thesis using p' by (simp add: ps_def)
qed

lemma payload4to6_ok:
  assumes v: "view4 p" and h: "length h = 40" and off: "ip4FlagsOff (pip p) AND ip4OffMask = 0"
    and run: "payload4to6 t p h = (ReasonNone, p')"
    and tot: "proto p = protoICMP \<Longrightarrow> ip4TotalLen (pip p) = hdrLen p + length (pdata p @ rest)"
    and icmp: "proto p = protoICMP \<Longrightarrow> picmp p ! 0 = 8 \<or> picmp p ! 0 = 0"
    and udp: "proto p = protoUDP \<Longrightarrow> get16 (pdata p) 6 \<noteq> 0"
    and rest: "rest = [] \<or> even (dataLen p)" "length (pdata p @ rest) \<le> 65535"
    and ok: "transport_ok4 (gslice 12 16 (pip p)) (gslice 16 20 (pip p)) (proto p) (pdata p @ rest)"
  shows "transport_ok6 (gslice 8 24 h) (gslice 24 40 h) (proto4to6 (proto p)) (pdata p' @ rest)"
proof -
  consider "proto p = protoTCP \<or> proto p = protoUDP \<and> get16 (pdata p) 6 \<noteq> 0" | "proto p = protoICMP"
    | "proto p \<notin> {protoTCP, protoUDP, protoICMP}" using udp by blast
  then show ?thesis
  proof cases
    case 1
    then show ?thesis using payload4to6_tcp_udp_ok [OF v h off run 1 rest ok] by (auto simp: proto4to6_def)
  next
    case 2
    then show ?thesis using payload4to6_icmp_ok [OF v h off run 2 tot icmp rest] ok
      by (simp add: transport_ok4_def transport_ok6_def proto4to6_def)
  next
    case 3
    moreover have "proto p \<noteq> protoICMPv6" using v by (auto simp: view4_def)
    ultimately show ?thesis by (simp add: transport_ok6_def proto4to6_def)
  qed
qed

lemma payload4to6_calc_ok:
  assumes v: "view4 p" and h: "length h = 40" and off: "ip4FlagsOff (pip p) AND ip4OffMask = 0"
    and run: "payload4to6 t p h = (r, p')" and udp: "proto p = protoUDP" "8 \<le> dataLen p" "get16 (pdata p) 6 = 0"
    and mode: "UDPChecksum (cfg t) = UDPChecksumCalc"
  shows "r = ReasonNone \<and> get16 (pdata p') 6 \<noteq> 0 \<and> transport_ok6 (gslice 8 24 h) (gslice 24 40 h) (proto p) (pdata p')"
proof -
  define e where "e = pseudo6 (gslice 8 24 h) (gslice 24 40 h) (int (dataLen p)) protoUDP"
  define ck where "ck = (if checksum (pdata p) e = 0 then 0xffff else checksum (pdata p) e)"
  have p: "r = ReasonNone" "p' = put_data p 6 ck"
    using off run udp mode by (auto simp: payload4to6_def Let_def e_def ck_def)
  have ld: "length (pdata p) = dataLen p" "dataLen p < 65536" using view4_slices [OF v] view4D [OF v] by simp_all
  have "unat e < 1099511627776" unfolding e_def using h ld by (intro pseudo6_slices) simp_all
  then have "ck_range (pdata p) e" using ld by (simp add: ck_range_def)
  then have "verify (put16 (pdata p) 6 ck) e" unfolding ck_def using udp ld by (intro verify_put_checksum_nz) simp_all
  moreover have "ck \<noteq> 0" by (simp add: ck_def)
  ultimately show ?thesis using p udp ld by (simp add: transport_ok6_def pdata_put_data e_def)
qed

subsection \<open>Closed forms of the packets built\<close>

lemma header4to6_eq:
  assumes "length h = 40" "length src6 = 16" "length dst6 = 16"
  shows "header4to6 p h n src6 dst6 = hdr6 (pip p ! 1) (word_of_int n) (proto4to6 (proto p)) (pip p ! 8) src6 dst6"
proof -
  have "length h = 8 + 16 + 16" using assms by simp
  then obtain x y z where h: "h = x @ y @ z" "length x = 8" "length y = 16" "length z = 16" by (rule split3)
  from h(2) obtain a0 a1 a2 a3 a4 a5 a6 a7 where x: "x = [a0, a1, a2, a3, a4, a5, a6, a7]" by (rule length8_cases)
  show ?thesis
    unfolding header4to6_def Let_def h(1) x using assms h(3-)
    by (simp add: slice_simps hdr6_def first_word6_def word4_def put32_def put16_def proto4to6_def del: append.simps)
qed

lemma icmp4_message_eq:
  assumes "length b = 28 + length payload" "length src = 4" "length dst = 4"
  shows "icmp4_message tos src dst typ code word payload b
    = seal 10 0 (hdr4 tos (word_of_nat (28 + length payload)) 0 0 64 protoICMP src dst)
      @ seal 2 0 (icmp_hdr typ code word payload)"
proof -
  have "length b = 20 + 8 + length payload" using assms by simp
  then obtain x y z where b: "b = x @ y @ z" "length x = 20" "length y = 8" "length z = length payload" by (rule split3)
  have "length x = 12 + 4 + 4" using b by simp
  then obtain x1 x2 x3 where x: "x = x1 @ x2 @ x3" "length x1 = 12" "length x2 = 4" "length x3 = 4" by (rule split3)
  from x(2) obtain a0 a1 a2 a3 a4 a5 a6 a7 a8 a9 a10 a11
    where x1: "x1 = [a0, a1, a2, a3, a4, a5, a6, a7, a8, a9, a10, a11]" by (rule length12_cases)
  from b(3) obtain c0 c1 c2 c3 c4 c5 c6 c7 where y: "y = [c0, c1, c2, c3, c4, c5, c6, c7]" by (rule length8_cases)
  have 0: "hi8 0 = 0" "lo8 0 = 0" by (simp_all add: hi8_def lo8_def)
  show ?thesis
    unfolding icmp4_message_def Let_def b(1) x(1) x1 y using assms(2,3) x(3,4) b(4)
    by (simp add: slice_simps hdr4_def icmp_hdr_def word4_def seal_def put32_def 0 put16_def del: append.simps) simp
qed

lemma icmpError6_packet_eq:
  assumes "length b = 88 + dataLen em" "length src6 = 16" "length dst6 = 16" "length inner = 40" "length (pdata em) = dataLen em"
  shows "icmpError6_packet p src6 dst6 (otype, ocode, oword) inner em b
    = hdr6 (pip p ! 1) (word_of_nat (48 + dataLen em)) (proto4to6 (proto p)) (pip p ! 8 - 1) src6 dst6
      @ seal 2 (pseudo6 src6 dst6 (48 + int (dataLen em)) protoICMPv6) (icmp_hdr otype ocode oword (inner @ pdata em))"
proof -
  have "length b = 40 + 8 + (40 + dataLen em)" using assms by simp
  then obtain x y z where b: "b = x @ y @ z" "length x = 40" "length y = 8" "length z = 40 + dataLen em" by (rule split3)
  have "length z = 40 + dataLen em + 0" using b by simp
  then obtain z1 z2 z3 where z: "z = z1 @ z2" "length z1 = 40" "length z2 = dataLen em" by (rule split3) simp
  from b(3) obtain c0 c1 c2 c3 c4 c5 c6 c7 where y: "y = [c0, c1, c2, c3, c4, c5, c6, c7]" by (rule length8_cases)
  have h: "header4to6 p x (48 + int (dataLen em)) src6 dst6
      = hdr6 (pip p ! 1) (word_of_nat (48 + dataLen em)) (proto4to6 (proto p)) (pip p ! 8) src6 dst6"
    using b assms by (simp add: header4to6_eq word_of_int_nat)
  show ?thesis
    unfolding icmpError6_packet_def Let_def b(1) y z(1) using assms(2-) b(2) z(2,3)
    by (simp add: h slice_simps icmp_hdr_def word4_def seal_def put32_def put16_def del: append.simps) simp
qed

subsection \<open>What the payload rewriting leaves alone\<close>

lemma payload4to6_keeps:
  assumes "payload4to6 t p h = (r, p')"
  shows "hdrLen p' = hdrLen p \<and> dataLen p' = dataLen p \<and> dataOff p' = dataOff p \<and> ipLen p' = ipLen p
    \<and> proto p' = proto p \<and> length (raw p') = length (raw p) \<and> icmpOff p' = icmpOff p \<and> fragOff p' = fragOff p"
  using assms by (auto simp: payload4to6_def Let_def put_data_def put_icmp_def set_icmpType_def
      split: if_splits UDPChecksumMode.splits)

lemma payload4to6_unchanged: "payload4to6 t p h = (r, p') \<Longrightarrow> r \<noteq> ReasonNone \<Longrightarrow> p' = p"
  by (auto simp: payload4to6_def Let_def split: if_splits UDPChecksumMode.splits)

lemma payload4to6_form:
  assumes "payload4to6 t p h = (r, p')"
  shows "p' = p \<or> (\<exists>i v. p' = put_data p i v) \<or> proto p = protoICMP \<and> (\<exists>a v. p' = put_icmp (set_icmpType p a) 2 v)"
proof -
  consider "ip4FlagsOff (pip p) AND ip4OffMask \<noteq> 0" | "ip4FlagsOff (pip p) AND ip4OffMask = 0" "proto p = protoICMP"
    | "ip4FlagsOff (pip p) AND ip4OffMask = 0" "proto p \<noteq> protoICMP" by blast
  then show ?thesis
  proof cases
    case 2
    then show ?thesis using payload4to6_icmp(2) [OF 2 assms] by blast
  qed (use assms in \<open>auto simp: payload4to6_def Let_def split: if_split_asm UDPChecksumMode.split_asm\<close>)
qed

lemma pip_payload4to6:
  assumes "payload4to6 t p h = (r, p')" "view4 p"
  shows "pip p' = pip p"
  using assms(1) view4D [OF assms(2)]
  using payload4to6_form [OF assms(1)] by (auto simp: pip_writes)

end
