(* ===== verification/Xlate6.thy ===== *)
theory Xlate6
  imports Xlate4
begin

text \<open>
  \<^verbatim>\<open>src/internal/xlate/xlate6.go\<close>: the translation of packets received from the
  IPv6 side, one definition per function of the file.
\<close>

subsection \<open>Generated ICMPv6\<close>

definition icmp6_message :: "byte \<Rightarrow> byte list \<Rightarrow> byte list \<Rightarrow> byte \<Rightarrow> byte \<Rightarrow> u32 \<Rightarrow> byte list \<Rightarrow> byte list \<Rightarrow> byte list" where
  "icmp6_message tc src dst typ code word payload b =
     (let n = ipv6HdrLen + icmpHdrLen + length payload;
          b = put32 b 0 (push_bit 28 6 OR push_bit 20 (ucast tc));
          b = put16 b 4 (word_of_nat (icmpHdrLen + length payload));
          b = b[6 := protoICMPv6, 7 := 64];
          b = copy_at 8 (take 16 src) b;
          b = copy_at 24 (take 16 dst) b;
          b = b[40 := typ, 41 := code, 42 := 0, 43 := 0];
          b = put32 b 44 word;
          b = copy_at (ipv6HdrLen + icmpHdrLen) payload b
      in put16 b 42 (checksum (drop ipv6HdrLen b)
           (pseudo6 (gslice 8 24 b) (gslice 24 40 b) (int n - int ipv6HdrLen) protoICMPv6)))"

definition sendICMPv6 ::
    "'m Translator \<Rightarrow> 'e Emitter \<Rightarrow> byte \<Rightarrow> byte list \<Rightarrow> byte list \<Rightarrow> byte \<Rightarrow> byte \<Rightarrow> u32 \<Rightarrow> byte list
     \<Rightarrow> ('m, 'e) world \<Rightarrow> ('m, 'e) world" where
  "sendICMPv6 t out tc src dst typ code word payload w =
     (case out_packet out (ipv6HdrLen + icmpHdrLen + length payload) w of
        (None, w) \<Rightarrow> w
      | (Some b, w) \<Rightarrow> out_fill out (icmp6_message tc src dst typ code word payload b) w)"

definition sendICMPv6Error ::
    "'m Translator \<Rightarrow> 'e Emitter \<Rightarrow> byte \<Rightarrow> byte \<Rightarrow> u32 \<Rightarrow> pkt \<Rightarrow> ('m, 'e) world \<Rightarrow> ('m, 'e) world" where
  "sendICMPv6Error t out typ code word orig w =
     (if proto orig = protoICMPv6 \<and> picmp orig ! 0 \<noteq> 128 then w
      else
        let n = ipv6HdrLen + hdrLen orig + dataLen orig;
            mx = mtuMin - ipv6HdrLen - icmpHdrLen;
            n = (if n > mx then mx else n)
        in sendICMPv6 t out 0 (local6 t) (gslice 8 24 (pip orig)) typ code word (take n (raw orig)) w)"

definition hostICMPv6 :: "'m Translator \<Rightarrow> 'e Emitter \<Rightarrow> pkt \<Rightarrow> ('m, 'e) world \<Rightarrow> ('m, 'e) world" where
  "hostICMPv6 t out p w =
     (if picmp p ! 0 = 128 then
        let w = obs_event (event p KindSelf ReasonEchoRequest) w;
            tc = ucast (drop_bit 20 (ip6VerTcFl (pip p)))
        in sendICMPv6 t out tc (gslice 24 40 (pip p)) (gslice 8 24 (pip p)) 129 (picmp p ! 1)
             (icmpWord (picmp p)) (drop icmpHdrLen (pdata p)) w
      else obs_event (event p KindSelf ReasonSelfUnknownICMPType) w)"

subsection \<open>Headers and payload\<close>

definition header6to4 ::
    "pkt \<Rightarrow> byte list \<Rightarrow> int \<Rightarrow> byte list \<Rightarrow> byte list \<Rightarrow> ('m, 'e) world \<Rightarrow> byte list \<times> ('m, 'e) world" where
  "header6to4 p h payloadLen src4 dst4 w =
     (let h = h[0 := 0x45, 1 := ucast (drop_bit 20 (ip6VerTcFl (pip p)))];
          h = put16 h 2 (word_of_int (int ipv4HdrLen + payloadLen));
          (h, w) =
            (if fragOff p \<noteq> None then
               let h = put16 h 4 (ucast (fragIdent (pfrag p)));
                   flags = fragOffFlags (pfrag p);
                   fo = drop_bit 3 flags;
                   fo = (if flags AND ip6FragMF \<noteq> 0 then fo OR ip4FlagMF else fo)
               in (put16 h 6 fo, w)
             else if int (hdrLen p) + payloadLen \<le> int mtuMin then
               let (ident, w) = randomIdent w in (put16 (put16 h 4 ident) 6 0, w)
             else (put16 (put16 h 4 0) 6 ip4FlagDF, w));
          h = h[8 := pip p ! 7];
          h = h[9 := (if proto p = protoICMPv6 then protoICMP else proto p)];
          h = h[10 := 0, 11 := 0];
          h = copy_at 12 src4 h
      in (copy_at 16 dst4 h, w))"

definition payload6to4 :: "'m Translator \<Rightarrow> pkt \<Rightarrow> byte list \<Rightarrow> Reason \<times> pkt" where
  "payload6to4 t p h =
     (let update = (\<lambda>ckOff.
          let old = get16 (pdata p) ckOff;
              ck = adjust old (sum16 (gslice 8 40 (pip p)) 0) (sum16 (gslice 12 20 h) 0);
              ck = (if proto p = protoUDP \<and> ck = 0 then 0xffff else ck)
          in (ReasonNone, put_data p ckOff ck))
      in
      if fragOff p \<noteq> None \<and> fragOffFlags (pfrag p) AND ip6FragMask \<noteq> 0 then (ReasonNone, p)
      else if proto p = protoICMPv6 then
        let ps = pseudo6 (gslice 8 24 (pip p)) (gslice 24 40 (pip p))
                   (int (ip6PayloadLen (pip p)) - int (hdrLen p)) protoICMPv6;
            old = get16 (picmp p) 2;
            (delta :: u16, p) =
              (if picmp p ! 0 = 128 then (push_bit 8 (128 - 8), set_icmpType p 8)
               else (push_bit 8 (129 - 0), set_icmpType p 0))
        in (ReasonNone, put_icmp p 2
              (NOT (fold_acc (ucast (NOT old) + ucast (NOT (fold_acc ps)) + ucast (NOT delta)))))
      else if proto p = protoUDP then
        if dataLen p < 8 then (ReasonUDPHeaderLength, p)
        else if get16 (pdata p) 6 = 0 then
          (case UDPChecksum (cfg t) of
             UDPChecksumForward \<Rightarrow> (ReasonNone, p)
           | UDPChecksumCalc \<Rightarrow>
               let ck = checksum (pdata p) (pseudo4 (gslice 12 16 h) (gslice 16 20 h) (int (dataLen p)) protoUDP);
                   ck = (if ck = 0 then 0xffff else ck)
               in (ReasonNone, put_data p 6 ck)
           | UDPChecksumDrop \<Rightarrow> (ReasonUDPZeroChecksum, p))
        else update 6
      else if proto p = protoTCP then
        if dataLen p < 20 then (ReasonTCPHeaderLength, p) else update 16
      else (ReasonNone, p))"

subsection \<open>Data packets\<close>

definition xlate6to4Data :: "'m Translator \<Rightarrow> 'e Emitter \<Rightarrow> pkt \<Rightarrow> ('m, 'e) world \<Rightarrow> ('m, 'e) world" where
  "xlate6to4Data t out p w =
     (case map6to4 t (gslice 24 40 (pip p)) False w of
        (Inl err, w) \<Rightarrow>
          if err = ErrReject then
            sendICMPv6Error t out 1 0 0 p (obs_event (event p KindReject ReasonDestinationUnmappable) w)
          else obs_event (event p KindDrop ReasonDestinationUnmappable) w
      | (Inr dst4, w) \<Rightarrow>
      case map6to4 t (gslice 8 24 (pip p)) True w of
        (Inl err, w) \<Rightarrow>
          if err = ErrReject then
            sendICMPv6Error t out 1 5 0 p (obs_event (event p KindReject ReasonSourceUnmappable) w)
          else obs_event (event p KindDrop ReasonSourceUnmappable) w
      | (Inr src4, w) \<Rightarrow>
      let total = ipv6HdrLen + hdrLen p + dataLen p in
      if int total > MTU (cfg t) then
        sendICMPv6Error t out 2 0 (word_of_int (MTU (cfg t))) p (obs_event (event p KindICMP ReasonPacketTooBig) w)
      else
        case header6to4 p (replicate ipv4HdrLen 0) (int (dataLen p)) src4 dst4 w of (h, w) \<Rightarrow>
        let h = h[8 := h ! 8 - 1] in
        case payload6to4 t p h of (r, p) \<Rightarrow>
        if r \<noteq> ReasonNone then obs_event (event p KindDrop r) w
        else
          let h = put16 h 10 (checksum h 0) in
          case out_packet out (ipv4HdrLen + dataLen p) w of
            (None, w) \<Rightarrow> w
          | (Some b, w) \<Rightarrow>
              let b = copy_at 0 h b; b = copy_at ipv4HdrLen (pdata p) b
              in obs_translated 6 total (out_fill out b w))"

subsection \<open>ICMP errors\<close>

definition ptrTable6to4 :: "int list" where
  "ptrTable6to4 = [0, 1, - 1, - 1, 2, 2, 9, 8]"

definition icmpError6to4 :: "'m Translator \<Rightarrow> pkt \<Rightarrow> Reason + (byte \<times> byte \<times> u32)" where
  "icmpError6to4 t p =
     (let typ = picmp p ! 0; code = picmp p ! 1 in
      if typ = 1 then
        if code \<in> {0, 2, 3} then Inr (3, 1, 0)
        else if code = 1 then Inr (3, 10, 0)
        else if code = 4 then Inr (3, 3, 0)
        else Inl ReasonUnknownUnreachableCode
      else if typ = 2 then
        let mtu = uint (icmpWord (picmp p)) in
        if mtu < 68 then Inl ReasonNoMTUInPacketTooBig
        else
          let mtu = (if mtu > MTU (cfg t) then MTU (cfg t) else mtu)
          in Inr (3, 4, word_of_int (mtu - mtuAdj))
      else if typ = 3 then Inr (11, code, 0)
      else if typ = 4 then
        if code = 0 then
          let ptr = unat (icmpWord (picmp p)) in
          if ptr > 39 then Inl ReasonParamProblemInvalidPointer
          else
            let np = (if ptr > 23 then 16 else if ptr > 7 then 12 else ptrTable6to4 ! ptr) in
            if np < 0 then Inl ReasonParamProblemUntranslatable
            else Inr (12, 0, push_bit 24 (word_of_int np))
        else if code = 1 then Inr (3, 2, 0)
        else Inl ReasonParamProblemInvalidCode
      else Inl ReasonUnknownICMPType)"

definition embedded6 :: "pkt \<Rightarrow> Reason + pkt" where
  "embedded6 p =
     (let b = drop icmpHdrLen (pdata p); typ = picmp p ! 0;
          emLen = (if typ = 1 \<or> typ = 3
                   then unat (drop_bit 21 (icmpWord (picmp p)) AND 0x7f8) else 0)
      in
      if emLen \<noteq> 0 \<and> length b < emLen then Inl ReasonEmbeddedTooShort
      else
        case parseIPv6 (new_pkt (if emLen \<noteq> 0 then take emLen b else b)) of ((r, _, _), em) \<Rightarrow>
        if r \<noteq> ReasonNone then Inl ReasonEmbeddedParseFailed
        else if proto em = protoICMPv6 \<and> picmp em ! 0 \<noteq> 128 then Inl ReasonICMPErrorOfICMPError
        else
          let mx = icmp4MaxLen - 2 * ipv4HdrLen - icmpHdrLen in
          Inr (if dataLen em > mx then em\<lparr>dataLen := mx\<rparr> else em))"

definition icmpError4_packet ::
    "pkt \<Rightarrow> byte list \<Rightarrow> byte list \<Rightarrow> byte \<times> byte \<times> u32 \<Rightarrow> byte list \<Rightarrow> pkt \<Rightarrow> byte list
     \<Rightarrow> ('m, 'e) world \<Rightarrow> byte list \<times> ('m, 'e) world" where
  "icmpError4_packet p src4 dst4 o4 inner em b w =
     (let (otype, ocode, oword) = o4;
          n = ipv4HdrLen + icmpHdrLen + ipv4HdrLen + dataLen em;
          (h, w) = header6to4 p (take ipv4HdrLen b) (int n - int ipv4HdrLen) src4 dst4 w;
          h = h[8 := h ! 8 - 1];
          h = put16 h 10 (checksum h 0);
          b = copy_at 0 h b;
          b = b[20 := otype, 21 := ocode, 22 := 0, 23 := 0];
          b = put32 b 24 oword;
          b = copy_at (ipv4HdrLen + icmpHdrLen) inner b;
          b = copy_at (ipv4HdrLen + icmpHdrLen + ipv4HdrLen) (pdata em) b
      in (put16 b 22 (checksum (drop ipv4HdrLen b) 0), w))"

definition xlate6to4ICMPError :: "'m Translator \<Rightarrow> 'e Emitter \<Rightarrow> pkt \<Rightarrow> ('m, 'e) world \<Rightarrow> ('m, 'e) world" where
  "xlate6to4ICMPError t out p w =
     (case embedded6 p of
        Inl r \<Rightarrow> obs_event (event p KindDrop r) w
      | Inr em \<Rightarrow>
      case icmpError6to4 t p of
        Inl r \<Rightarrow> obs_event (event p KindDrop r) w
      | Inr o4 \<Rightarrow>
      case map6to4 t (gslice 8 24 (pip em)) False w of (emSrc, w) \<Rightarrow>
      case map6to4 t (gslice 24 40 (pip em)) False w of (emDst, w) \<Rightarrow>
      case (emSrc, emDst) of
        (Inr emSrc, Inr emDst) \<Rightarrow>
          (case header6to4 em (replicate ipv4HdrLen 0) (int (ip6PayloadLen (pip em)) - int (hdrLen em)) emSrc emDst w of
             (inner, w) \<Rightarrow>
           case payload6to4 t em inner of (r, em) \<Rightarrow>
           if r \<noteq> ReasonNone then obs_event (event p KindDrop ReasonEmbeddedUntranslatable) w
           else
             let inner = put16 inner 10 (checksum inner 0) in
             case map6to4 t (gslice 8 24 (pip p)) False w of (s, w) \<Rightarrow>
             let (src4, w) =
               (case s of
                  Inl _ \<Rightarrow> (local4 t, obs_event (event p KindICMP ReasonSynthesisedSource) w)
                | Inr a \<Rightarrow> (a, w))
             in
             case map6to4 t (gslice 24 40 (pip p)) False w of
               (Inl _, w) \<Rightarrow> obs_event (event p KindDrop ReasonDestinationUnmappable) w
             | (Inr dst4, w) \<Rightarrow>
             case out_packet out (ipv4HdrLen + icmpHdrLen + ipv4HdrLen + dataLen em) w of
               (None, w) \<Rightarrow> w
             | (Some b, w) \<Rightarrow>
                 (case icmpError4_packet p src4 dst4 o4 inner em b w of
                    (b, w) \<Rightarrow> obs_translated 6 (ipv6HdrLen + hdrLen p + dataLen p) (out_fill out b w)))
      | _ \<Rightarrow> obs_event (event p KindDrop ReasonEmbeddedUnmappable) w)"

subsection \<open>The handler\<close>

definition handleIPv6 :: "'m Translator \<Rightarrow> 'e Emitter \<Rightarrow> byte list \<Rightarrow> ('m, 'e) world \<Rightarrow> ('m, 'e) world" where
  "handleIPv6 t out b w =
     (case parseIPv6 (new_pkt b) of ((r, segPtr, silent), p) \<Rightarrow>
      if r \<noteq> ReasonNone then
        if silent then w
        else if r = ReasonRoutingHeaderSegmentsLeft then
          sendICMPv6Error t out 4 0 (word_of_nat segPtr) p (obs_event (event p KindReject r) w)
        else obs_event (event p KindDrop r) w
      else if pip p ! 7 = 0 \<or> hdrLen p + dataLen p \<noteq> ip6PayloadLen (pip p) then
        obs_event (event p KindDrop ReasonIPHeaderInvalid) w
      else if icmpOff p \<noteq> None
          \<and> \<not> verify (pdata p) (pseudo6 (gslice 8 24 (pip p)) (gslice 24 40 (pip p)) (int (dataLen p)) protoICMPv6) then
        obs_event (event p KindDrop ReasonICMPChecksumInvalid) w
      else if gslice 24 40 (pip p) = local6 t then
        if proto p = protoICMPv6 then hostICMPv6 t out p w
        else sendICMPv6Error t out 4 1 6 p (obs_event (event p KindReject ReasonSelfUnknownProto) w)
      else if pip p ! 7 = 1 then
        sendICMPv6Error t out 3 0 0 p (obs_event (event p KindICMP ReasonTimeExceeded) w)
      else if proto p \<noteq> protoICMPv6 \<or> picmp p ! 0 = 128 \<or> picmp p ! 0 = 129 then xlate6to4Data t out p w
      else xlate6to4ICMPError t out p w)"

subsection \<open>The payload keeps its checksum\<close>

definition update6to4 :: "pkt \<Rightarrow> byte list \<Rightarrow> nat \<Rightarrow> u16" where
  "update6to4 p h i =
     (let ck = adjust (get16 (pdata p) i) (sum16 (gslice 8 40 (pip p)) 0) (sum16 (gslice 12 20 h) 0)
      in if proto p = protoUDP \<and> ck = 0 then 0xffff else ck)"

definition first6 :: "pkt \<Rightarrow> bool" where
  "first6 p \<longleftrightarrow> fragOff p = None \<or> fragOffFlags (pfrag p) AND ip6FragMask = 0"

lemma payload6to4_tcp_udp:
  assumes "first6 p" "proto p = protoTCP \<or> proto p = protoUDP \<and> get16 (pdata p) 6 \<noteq> 0"
    and "payload6to4 t p h = (ReasonNone, p')"
  defines "i \<equiv> if proto p = protoTCP then 16 else 6"
  shows "p' = put_data p i (update6to4 p h i)" "i + 1 < dataLen p" "even i"
  using assms by (auto simp: payload6to4_def update6to4_def first6_def Let_def split: if_splits)

lemma payload6to4_icmp:
  assumes "first6 p" "proto p = protoICMPv6" "payload6to4 t p h = (r, p')"
  defines "v \<equiv> if picmp p ! 0 = 128 then 8 else 0"
  defines "delta \<equiv> if picmp p ! 0 = 128 then 0x7800 else 0x8100 :: u16"
  shows "r = ReasonNone" "p' = put_icmp (set_icmpType p v) 2
    (NOT (fold_acc (ucast (NOT (get16 (picmp p) 2))
       + ucast (NOT (fold_acc (pseudo6 (gslice 8 24 (pip p)) (gslice 24 40 (pip p))
            (int (ip6PayloadLen (pip p)) - int (hdrLen p)) protoICMPv6))) + ucast (NOT delta))))"
  using assms(1-3) unfolding v_def delta_def by (auto simp: payload6to4_def first6_def Let_def split: if_splits)

lemma payload6to4_tcp_udp_ok:
  assumes v: "view6 p" and h: "length h = 20" and off: "first6 p"
    and run: "payload6to4 t p h = (ReasonNone, p')"
    and tu: "proto p = protoTCP \<or> proto p = protoUDP \<and> get16 (pdata p) 6 \<noteq> 0"
    and rest: "rest = [] \<or> even (dataLen p)" "length (pdata p @ rest) \<le> 65535"
    and ok: "transport_ok6 (gslice 8 24 (pip p)) (gslice 24 40 (pip p)) (proto p) (pdata p @ rest)"
  shows "transport_ok4 (gslice 12 16 h) (gslice 16 20 h) (proto p) (pdata p' @ rest)"
proof -
  note vd = view6D [OF v] and ld = view6_slices [OF v]
  have rest': "rest = [] \<or> even (length (pdata p))" using rest(1) ld by simp
  let ?L = "length (pdata p @ rest)"
  have L: "?L < 4294967296" "?L \<le> 131072" using rest(2) by simp_all
  define i :: nat where "i = (if proto p = protoTCP then 16 else 6)"
  note pl = payload6to4_tcp_udp [OF off tu run, folded i_def]
  have p6: "40 \<le> length (pip p)" and p4: "20 \<le> length h" using ld h by simp_all
  have pos: "0 < ?L + unat (proto p)" using tu by auto
  have ck: "unat (update6to4 p h i) mod 65535
      = unat (adjust (get16 (pdata p) i) (sum16 (gslice 8 40 (pip p)) 0) (sum16 (gslice 12 20 h) 0)) mod 65535"
    unfolding update6to4_def Let_def by (rule udp_zero_mod)
  have "verify (pdata p @ rest) (pseudo6 (gslice 8 24 (pip p)) (gslice 24 40 (pip p)) (int ?L) (proto p))"
    using ok tu by (auto simp: transport_ok6_def)
  then have "verify (put16 (pdata p) i (update6to4 p h i) @ rest) (pseudo4 (gslice 12 16 h) (gslice 16 20 h) (int ?L) (proto p))"
    using pl ld ck pos p4
    by (intro adjust_pseudo [OF _ _ _ _ _ rest' _ pseudo6_slices [OF p6 L(1)] pseudo4_slices [OF p4 L(1)] ck]) (use L h in auto)
  then show ?thesis using tu pl(1) by (auto simp: transport_ok4_def pdata_put_data)
qed

lemma payload6to4_icmp_ok:
  assumes v: "view6 p" and off: "first6 p"
    and run: "payload6to4 t p h = (ReasonNone, p')" and ic: "proto p = protoICMPv6"
    and tot: "ip6PayloadLen (pip p) = hdrLen p + length (pdata p @ rest)"
    and icmp: "picmp p ! 0 = 128 \<or> picmp p ! 0 = 129"
    and rest: "rest = [] \<or> even (dataLen p)" "length (pdata p @ rest) \<le> 65535"
    and nz: "\<exists>x\<in>set (pdata p' @ rest). x \<noteq> 0"
    and ok: "verify (pdata p @ rest) (pseudo6 (gslice 8 24 (pip p)) (gslice 24 40 (pip p)) (int (length (pdata p @ rest))) protoICMPv6)"
  shows "verify (pdata p' @ rest) 0"
proof -
  note ld = view6_slices [OF v]
  have rest': "rest = [] \<or> even (length (pdata p))" using rest(1) ld by simp
  let ?L = "length (pdata p @ rest)"
  have L: "?L < 4294967296" "?L \<le> 131072" using rest(2) by simp_all
  define x :: byte where "x = (if picmp p ! 0 = 128 then 8 else 0)"
  define delta :: u16 where "delta = (if picmp p ! 0 = 128 then 0x7800 else 0x8100)"
  define ps where "ps = pseudo6 (gslice 8 24 (pip p)) (gslice 24 40 (pip p)) (int ?L) protoICMPv6"
  define ck where "ck = NOT (fold_acc (ucast (NOT (get16 (pdata p) 2)) + ucast (NOT (fold_acc ps)) + ucast (NOT delta)))"
  have io: "icmpOff p = Some (dataOff p)" "8 \<le> dataLen p" using view6D(5) [OF v ic] by simp_all
  have pi: "picmp p = take 8 (pdata p)" using io by (rule picmp_pdata)
  have d: "unat x \<le> unat (pdata p ! 0)" "delta = word_of_nat (256 * (unat (pdata p ! 0) - unat x))"
    using icmp pi unfolding x_def delta_def by auto
  have p': "pdata p' = put16 ((pdata p)[0 := x]) 2 ck"
    using payload6to4_icmp(2) [OF off ic run] tot io
    by (simp add: pi get16_take pdata_put_icmp pdata_set_icmpType x_def delta_def ck_def ps_def)
  have p6: "40 \<le> length (pip p)" using ld by simp
  note pe = pseudo6_slices [OF p6 L(1), of protoICMPv6, folded ps_def]
  have "verify (put16 ((pdata p)[0 := x]) 2 ck @ rest) 0"
  proof (rule icmp_exchange [OF _ L(2) rest' oc_eq_refl pe(2) _ _ _ _ ok [folded ps_def]])
    show "(unat ck + (0 + 256 * unat x)) mod 65535 = (unat (get16 (pdata p) 2) + (unat ps + 256 * unat (pdata p ! 0))) mod 65535"
      unfolding ck_def by (rule icmp6to4_ck [OF d])
    show "0 < 0 + be_sum (put16 ((pdata p)[0 := x]) 2 ck @ rest)"
      using nz unfolding p' be_sum_pos [symmetric] by simp
  qed (use io ld in simp_all)
  then show ?thesis using p' by simp
qed

lemma payload6to4_ok:
  assumes v: "view6 p" and h: "length h = 20" and off: "first6 p"
    and run: "payload6to4 t p h = (ReasonNone, p')"
    and tot: "proto p = protoICMPv6 \<Longrightarrow> ip6PayloadLen (pip p) = hdrLen p + length (pdata p @ rest)"
    and icmp: "proto p = protoICMPv6 \<Longrightarrow> picmp p ! 0 = 128 \<or> picmp p ! 0 = 129"
    and udp: "proto p = protoUDP \<Longrightarrow> get16 (pdata p) 6 \<noteq> 0"
    and rest: "rest = [] \<or> even (dataLen p)" "length (pdata p @ rest) \<le> 65535"
    and nz: "proto p = protoICMPv6 \<Longrightarrow> \<exists>x\<in>set (pdata p' @ rest). x \<noteq> 0"
    and ok: "transport_ok6 (gslice 8 24 (pip p)) (gslice 24 40 (pip p)) (proto p) (pdata p @ rest)"
  shows "transport_ok4 (gslice 12 16 h) (gslice 16 20 h) (proto6to4 (proto p)) (pdata p' @ rest)"
proof -
  consider "proto p = protoTCP \<or> proto p = protoUDP \<and> get16 (pdata p) 6 \<noteq> 0" | "proto p = protoICMPv6"
    | "proto p \<notin> {protoTCP, protoUDP, protoICMPv6}" using udp by blast
  then show ?thesis
  proof cases
    case 1
    then show ?thesis using payload6to4_tcp_udp_ok [OF v h off run 1 rest ok] by (auto simp: proto6to4_def)
  next
    case 2
    then show ?thesis using payload6to4_icmp_ok [OF v off run 2 tot icmp rest nz] ok
      by (simp add: transport_ok4_def transport_ok6_def proto6to4_def)
  next
    case 3
    moreover have "proto p \<noteq> protoICMP" using v by (auto simp: view6_def)
    ultimately show ?thesis by (simp add: transport_ok4_def proto6to4_def)
  qed
qed

lemma payload6to4_calc_ok:
  assumes v: "view6 p" and h: "length h = 20" and off: "first6 p"
    and run: "payload6to4 t p h = (r, p')" and udp: "proto p = protoUDP" "8 \<le> dataLen p" "get16 (pdata p) 6 = 0"
    and mode: "UDPChecksum (cfg t) = UDPChecksumCalc"
  shows "r = ReasonNone \<and> get16 (pdata p') 6 \<noteq> 0 \<and> transport_ok4 (gslice 12 16 h) (gslice 16 20 h) (proto p) (pdata p')"
proof -
  define e where "e = pseudo4 (gslice 12 16 h) (gslice 16 20 h) (int (dataLen p)) protoUDP"
  define ck where "ck = (if checksum (pdata p) e = 0 then 0xffff else checksum (pdata p) e)"
  have p: "r = ReasonNone" "p' = put_data p 6 ck"
    using off run udp mode by (auto simp: payload6to4_def first6_def Let_def e_def ck_def)
  have ld: "length (pdata p) = dataLen p" "dataLen p < 65536" using view6_slices [OF v] view6D [OF v] by simp_all
  have "unat e < 1099511627776" unfolding e_def using h ld by (intro pseudo4_slices) simp_all
  then have "ck_range (pdata p) e" using ld by (simp add: ck_range_def)
  then have "verify (put16 (pdata p) 6 ck) e" unfolding ck_def using udp ld by (intro verify_put_checksum_nz) simp_all
  moreover have "ck \<noteq> 0" by (simp add: ck_def)
  ultimately show ?thesis using p udp ld by (simp add: transport_ok4_def pdata_put_data e_def)
qed

subsection \<open>Closed forms of the packets built\<close>

definition fields6to4 :: "pkt \<Rightarrow> int \<Rightarrow> ('m, 'e) world \<Rightarrow> u16 \<times> u16 \<times> ('m, 'e) world" where
  "fields6to4 p n w =
     (if fragOff p \<noteq> None then
        let flags = fragOffFlags (pfrag p); fo = drop_bit 3 flags in
        (ucast (fragIdent (pfrag p)), if flags AND ip6FragMF \<noteq> 0 then fo OR ip4FlagMF else fo, w)
      else if int (hdrLen p) + n \<le> 1280 then (fst (randomIdent w), 0, snd (randomIdent w))
      else (0, ip4FlagDF, w))"

lemma header6to4_eq:
  assumes "length h = 20" "length src4 = 4" "length dst4 = 4" "fields6to4 p n w = (ident, fo, w')"
  shows "header6to4 p h n src4 dst4 w
    = (hdr4 (ucast (drop_bit 20 (ip6VerTcFl (pip p)))) (word_of_int (20 + n)) ident fo (pip p ! 7) (proto6to4 (proto p)) src4 dst4, w')"
proof -
  have "length h = 12 + 4 + 4" using assms by simp
  then obtain x y z where h: "h = x @ y @ z" "length x = 12" "length y = 4" "length z = 4" by (rule split3)
  from h(2) obtain a0 a1 a2 a3 a4 a5 a6 a7 a8 a9 a10 a11
    where x: "x = [a0, a1, a2, a3, a4, a5, a6, a7, a8, a9, a10, a11]" by (rule length12_cases)
  have 0: "hi8 0 = 0" "lo8 0 = 0" by (simp_all add: hi8_def lo8_def)
  show ?thesis
    using assms(4) unfolding header6to4_def Let_def h(1) x fields6to4_def using assms(1-3) h(3-)
    by (auto simp: slice_simps hdr4_def put16_def proto6to4_def randomIdent_def 0 simp del: append.simps split: if_splits)
qed

lemma icmp6_message_eq:
  assumes "length b = 48 + length payload" "length src = 16" "length dst = 16"
  shows "icmp6_message tc src dst typ code word payload b
    = hdr6 tc (word_of_nat (8 + length payload)) protoICMPv6 64 src dst
      @ seal 2 (pseudo6 src dst (8 + int (length payload)) protoICMPv6) (icmp_hdr typ code word payload)"
proof -
  have "length b = 40 + 8 + length payload" using assms by simp
  then obtain x y z where b: "b = x @ y @ z" "length x = 40" "length y = 8" "length z = length payload" by (rule split3)
  have "length x = 8 + 16 + 16" using b by simp
  then obtain x1 x2 x3 where x: "x = x1 @ x2 @ x3" "length x1 = 8" "length x2 = 16" "length x3 = 16" by (rule split3)
  from x(2) obtain a0 a1 a2 a3 a4 a5 a6 a7 where x1: "x1 = [a0, a1, a2, a3, a4, a5, a6, a7]" by (rule length8_cases)
  from b(3) obtain c0 c1 c2 c3 c4 c5 c6 c7 where y: "y = [c0, c1, c2, c3, c4, c5, c6, c7]" by (rule length8_cases)
  show ?thesis
    unfolding icmp6_message_def Let_def b(1) x(1) x1 y using assms(2,3) x(3,4) b(4)
    by (simp add: slice_simps hdr6_def first_word6_def icmp_hdr_def word4_def seal_def put32_def put16_def slice_all
        del: append.simps) simp
qed

lemma icmpError4_packet_eq:
  assumes "length b = 48 + dataLen em" "length src4 = 4" "length dst4 = 4" "length inner = 20" "length (pdata em) = dataLen em"
    and "fields6to4 p (28 + int (dataLen em)) w = (ident, fo, w')"
  shows "icmpError4_packet p src4 dst4 (otype, ocode, oword) inner em b w
    = (seal 10 0 (hdr4 (ucast (drop_bit 20 (ip6VerTcFl (pip p)))) (word_of_nat (48 + dataLen em)) ident fo (pip p ! 7 - 1)
         (proto6to4 (proto p)) src4 dst4)
       @ seal 2 0 (icmp_hdr otype ocode oword (inner @ pdata em)), w')"
proof -
  have "length b = 20 + 8 + (20 + dataLen em)" using assms by simp
  then obtain x y z where b: "b = x @ y @ z" "length x = 20" "length y = 8" "length z = 20 + dataLen em" by (rule split3)
  have "length z = 20 + dataLen em + 0" using b by simp
  then obtain z1 z2 z3 where z: "z = z1 @ z2" "length z1 = 20" "length z2 = dataLen em" by (rule split3) simp
  from b(3) obtain c0 c1 c2 c3 c4 c5 c6 c7 where y: "y = [c0, c1, c2, c3, c4, c5, c6, c7]" by (rule length8_cases)
  have h: "header6to4 p x (28 + int (dataLen em)) src4 dst4 w
      = (hdr4 (ucast (drop_bit 20 (ip6VerTcFl (pip p)))) (word_of_nat (48 + dataLen em)) ident fo (pip p ! 7) (proto6to4 (proto p)) src4 dst4, w')"
    using b assms by (simp add: header6to4_eq)
  show ?thesis
    unfolding icmpError4_packet_def Let_def b(1) y z(1) using assms(2-5) b(2) z(2,3)
    by (simp add: h slice_simps icmp_hdr_def word4_def seal_def put32_def put16_def del: append.simps) simp
qed

subsection \<open>What the payload rewriting leaves alone\<close>

lemma payload6to4_form:
  assumes "payload6to4 t p h = (r, p')"
  shows "p' = p \<or> (\<exists>i v. p' = put_data p i v) \<or> proto p = protoICMPv6 \<and> (\<exists>a v. p' = put_icmp (set_icmpType p a) 2 v)"
proof -
  consider "\<not> first6 p" | "first6 p" "proto p = protoICMPv6" | "first6 p" "proto p \<noteq> protoICMPv6" by blast
  then show ?thesis
  proof cases
    case 2
    then show ?thesis using payload6to4_icmp(2) [OF 2 assms] by blast
  qed (use assms in \<open>auto simp: payload6to4_def first6_def Let_def split: if_split_asm UDPChecksumMode.split_asm\<close>)
qed

lemma payload6to4_keeps:
  assumes "payload6to4 t p h = (r, p')"
  shows "hdrLen p' = hdrLen p \<and> dataLen p' = dataLen p \<and> dataOff p' = dataOff p \<and> ipLen p' = ipLen p
    \<and> proto p' = proto p \<and> length (raw p') = length (raw p) \<and> icmpOff p' = icmpOff p \<and> fragOff p' = fragOff p"
  using payload6to4_form [OF assms] by (auto simp: put_data_def put_icmp_def set_icmpType_def)

lemma pip_payload6to4:
  assumes "payload6to4 t p h = (r, p')" "view6 p"
  shows "pip p' = pip p"
  using payload6to4_form [OF assms(1)] view6D [OF assms(2)] by (auto simp: pip_writes)

lemma payload6to4_unchanged: "payload6to4 t p h = (r, p') \<Longrightarrow> r \<noteq> ReasonNone \<Longrightarrow> p' = p"
  by (auto simp: payload6to4_def Let_def split: if_split_asm UDPChecksumMode.split_asm)

end
