(* ===== verification/Translate.thy ===== *)
theory Translate
  imports Xlate6
begin

text \<open>
  \<^verbatim>\<open>Translator.Translate\<close> of \<^verbatim>\<open>src/internal/xlate/translator.go\<close>, the entry
  point, and the properties of the translator as a whole.
\<close>

definition Translate :: "'m Translator \<Rightarrow> byte list \<Rightarrow> 'e Emitter \<Rightarrow> ('m, 'e) world \<Rightarrow> ('m, 'e) world option" where
  "Translate t pkt out w =
     (if pkt = [] then Some w
      else if drop_bit 4 (pkt ! 0) = 4 then handleIPv4 t out pkt w
      else if drop_bit 4 (pkt ! 0) = 6 then Some (handleIPv6 t out pkt w)
      else Some (obs_event \<lparr>evKind = KindDrop, evReason = ReasonUnknownIPVersion, evFamily = 0, evProto = 0,
                            evLength = int (length pkt), evSrc = NoAddr, evDst = NoAddr\<rparr> w))"

end
