(* ===== verification/Emit.thy ===== *)
theory Emit
  imports Xlate
begin

text \<open>
  The contract of the interface \<^verbatim>\<open>Emitter\<close>: \<open>Packet(n)\<close> returns nil or a
  buffer of exactly \<open>n\<close> bytes, never nil for a length an IP packet can have, and
  the packets sent are the buffers returned, in order, with what was written to
  them. \<open>sent\<close> reads the packets off the emitter's state, and \<open>ok\<close> is its invariant.
\<close>

subsection \<open>Steps that send nothing\<close>

lemma wout_obs [simp]: "wout (obs_event e w) = wout w" "wout (obs_translated f n w) = wout w"
  by (simp_all add: obs_event_def obs_translated_def)

lemma wout_map4to6: "map4to6 t a w = (r, w') \<Longrightarrow> wout w' = wout w"
  by (auto simp: map4to6_def Let_def split: prod.splits sum.splits if_splits)

lemma wout_map6to4: "map6to4 t a al w = (r, w') \<Longrightarrow> wout w' = wout w"
  by (auto simp: map6to4_def Let_def split: prod.splits sum.splits if_splits)

lemma map4to6_length: "map4to6 t a w = (Inr x, w') \<Longrightarrow> length x = 16"
  by (auto simp: map4to6_def Let_def split: prod.splits sum.splits if_splits)

lemma map6to4_length: "map6to4 t a al w = (Inr x, w') \<Longrightarrow> length x = 4"
  by (auto simp: map6to4_def Let_def split: prod.splits sum.splits if_splits elim!: Is4.elims)

subsection \<open>The contract\<close>

locale emitter_laws =
  fixes out :: "'e Emitter"
    and sent :: "'e \<Rightarrow> byte list list"
    and ok :: "'e \<Rightarrow> bool"
  assumes packet_Some: "ok e \<Longrightarrow> emPacket out n e = (Some b, e') \<Longrightarrow> length b = n \<and> sent e' = sent e @ [b] \<and> ok e'"
    and packet_None: "ok e \<Longrightarrow> emPacket out n e = (None, e') \<Longrightarrow> 65535 < n \<and> sent e' = sent e \<and> ok e'"
    and fill_last: "ok e \<Longrightarrow> sent e = ps @ [b] \<Longrightarrow> length b' = length b \<Longrightarrow> sent (emFill out b' e) = ps @ [b'] \<and> ok (emFill out b' e)"
begin

text \<open>\<open>emits P w w'\<close>: between the worlds \<open>w\<close> and \<open>w'\<close> only packets with \<open>P\<close> were sent.\<close>

definition emits :: "(byte list \<Rightarrow> bool) \<Rightarrow> ('m, 'e) world \<Rightarrow> ('m, 'e) world \<Rightarrow> bool" where
  "emits P w w' \<longleftrightarrow> ok (wout w') \<and> (\<exists>ps. sent (wout w') = sent (wout w) @ ps \<and> (\<forall>p\<in>set ps. P p))"

lemma emits_refl: "ok (wout w) \<Longrightarrow> emits P w w"
  by (simp add: emits_def)

lemma emits_ok: "emits P w w' \<Longrightarrow> ok (wout w')"
  by (simp add: emits_def)

lemma emits_trans: "emits P w w' \<Longrightarrow> emits P w' w'' \<Longrightarrow> emits P w w''"
  unfolding emits_def by force

lemma emits_wout: "emits P w0 w' \<Longrightarrow> wout w0 = wout w \<Longrightarrow> emits P w w'"
  by (simp add: emits_def)

lemma emits_obs [simp]:
  "emits P (obs_event e w) w' = emits P w w'" "emits P w (obs_event e w') = emits P w w'"
  "emits P w (obs_translated f n w') = emits P w w'"
  by (simp_all add: emits_def)

lemma emits_mono: "emits P w w' \<Longrightarrow> (\<And>b. P b \<Longrightarrow> Q b) \<Longrightarrow> emits Q w w'"
  unfolding emits_def by blast

text \<open>A buffer obtained and filled is one packet sent.\<close>

lemma packet_fill:
  assumes "ok (wout w)" "out_packet out n w = (Some b, w1)"
  shows "length b = n" "wmapper w1 = wmapper w" "wtrace w1 = wtrace w" "wrand w1 = wrand w"
    and "length b' = n \<Longrightarrow> sent (wout (out_fill out b' w1)) = sent (wout w) @ [b'] \<and> ok (wout (out_fill out b' w1))"
proof -
  obtain e where e: "emPacket out n (wout w) = (Some b, e)" "w1 = w\<lparr>wout := e\<rparr>"
    using assms(2) by (auto simp: out_packet_def split: prod.splits)
  note p = packet_Some [OF assms(1) e(1)]
  show "length b = n" "wmapper w1 = wmapper w" "wtrace w1 = wtrace w" "wrand w1 = wrand w" using p e(2) by simp_all
  show "length b' = n \<Longrightarrow> sent (wout (out_fill out b' w1)) = sent (wout w) @ [b'] \<and> ok (wout (out_fill out b' w1))"
    using p e(2) fill_last [of e "sent (wout w)" b b'] by (simp add: out_fill_def)
qed

lemma packet_refused:
  assumes "ok (wout w)" "out_packet out n w = (None, w1)"
  shows "65535 < n \<and> sent (wout w1) = sent (wout w) \<and> ok (wout w1) \<and> wmapper w1 = wmapper w \<and> wtrace w1 = wtrace w"
  using assms packet_None [OF assms(1)] by (auto simp: out_packet_def split: prod.splits)

lemma packet_accepted:
  assumes "ok (wout w)" "n \<le> 65535"
  obtains b w1 where "out_packet out n w = (Some b, w1)"
proof (cases "out_packet out n w")
  case (Pair ob w1)
  then show ?thesis using packet_refused [OF assms(1), of n w1] assms(2) that by (cases ob) auto
qed

lemma emits_packet:
  assumes "ok (wout w)" "out_packet out n w = (Some b, w1)" "length b' = n" "P b'"
  shows "emits P w (out_fill out b' w1)"
  using packet_fill(5) [OF assms(1-3)] assms(4) by (simp add: emits_def)

lemma emits_refused: "ok (wout w) \<Longrightarrow> out_packet out n w = (None, w1) \<Longrightarrow> emits P w w1"
  using packet_refused [of w n w1] by (simp add: emits_def)

end

end
