(* ===== verification/Fragment.thy ===== *)
theory Fragment
  imports Xlate4 Emit
begin

text \<open>
  The fragmentation loop of \<^verbatim>\<open>xlate4to6Data\<close>: what it sends, as a list computed
  from the payload, and that every fragment is sent.
\<close>

subsection \<open>Fragmentation\<close>

text \<open>
  The fragments of a payload: offset, more-fragments flag and chunk, at most \<open>k\<close> bytes
  each, and the IPv6 packet that carries one.
\<close>

function chunks :: "nat \<Rightarrow> bool \<Rightarrow> byte list \<Rightarrow> nat \<Rightarrow> (nat \<times> bool \<times> byte list) list" where
  "chunks k mf d off =
     (if d = [] \<or> k = 0 then [] else (off, length d > k \<or> mf, take k d) # chunks k mf (drop k d) (off + k))"
  by pat_completeness auto

termination
  by (relation "measure (\<lambda>(k, mf, d, off). length d)") auto

declare chunks.simps [simp del]

definition frag_flags :: "nat \<Rightarrow> bool \<Rightarrow> u16" where
  "frag_flags off mr = (if mr then word_of_nat off OR ip6FragMF else word_of_nat off)"

definition frag_packet :: "byte \<Rightarrow> byte \<Rightarrow> byte list \<Rightarrow> byte list \<Rightarrow> byte \<Rightarrow> u32 \<Rightarrow> nat \<times> bool \<times> byte list \<Rightarrow> byte list" where
  "frag_packet tc hl src dst nh ident c =
     (case c of (off, mr, d) \<Rightarrow>
        hdr6 tc (word_of_nat (8 + length d)) protoFrag hl src dst
        @ [nh, 0, hi8 (frag_flags off mr), lo8 (frag_flags off mr)] @ word4 ident @ d)"

lemma chunks_nonempty: "chunks k mf d off = [] \<longleftrightarrow> d = [] \<or> k = 0"
  by (simp add: chunks.simps)

lemma concat_chunks: "0 < k \<Longrightarrow> concat (map (snd \<circ> snd) (chunks k mf d off)) = d"
  by (induction k mf d off rule: chunks.induct) (subst chunks.simps, simp)

lemma nth_chunks:
  "i < length (chunks k mf d off) \<Longrightarrow>
     chunks k mf d off ! i = (off + i * k, Suc i < length (chunks k mf d off) \<or> mf, take k (drop (i * k) d))
     \<and> i * k < length d"
proof (induction k mf d off arbitrary: i rule: chunks.induct)
  case (1 k mf d off)
  have ne: "\<not> (d = [] \<or> k = 0)" using "1.prems" chunks_nonempty [of k mf d off] by auto
  then have e: "chunks k mf d off = (off, length d > k \<or> mf, take k d) # chunks k mf (drop k d) (off + k)"
    by (subst chunks.simps) simp
  show ?case
  proof (cases i)
    case 0
    then show ?thesis using ne by (auto simp: e chunks_nonempty)
  next
    case (Suc j)
    then have j: "j < length (chunks k mf (drop k d) (off + k))" using "1.prems" by (simp add: e)
    show ?thesis using "1.IH" [OF ne j] Suc by (auto simp: e add.assoc add.commute)
  qed
qed

lemma length_frag_packet:
  "length src = 16 \<Longrightarrow> length dst = 16 \<Longrightarrow> length (frag_packet tc hl src dst nh ident (off, mr, d)) = 48 + length d"
  by (simp add: frag_packet_def word4_def)

lemma copy_three:
  "length h = i \<Longrightarrow> length f = j \<Longrightarrow> length b = i + j + length d
     \<Longrightarrow> copy_at (i + j) d (copy_at i f (copy_at 0 h b)) = h @ f @ d"
  by (simp add: copy_at_def)

lemma fragments4to6_step:
  assumes "d \<noteq> []" "0 \<le> k"
  shows "fragments4to6 out h fh mf k d off w =
    (let n = min (length d) (nat k);
         h = put16 h 4 (word_of_nat (8 + n));
         fh = put16 fh 2 (frag_flags off (length d > n \<or> mf))
     in case out_packet out (48 + n) w of
          (None, w) \<Rightarrow> Some (False, w)
        | (Some b, w) \<Rightarrow>
            fragments4to6 out h fh mf k (drop n d) (off + n)
              (out_fill out (copy_at 48 (take n d) (copy_at 40 fh (copy_at 0 h b))) w))"
proof -
  define n where "n = (if int (length d) < k then int (length d) else k)"
  have n: "nat n = min (length d) (nat k)" "\<not> n < 0" using assms(2) by (auto simp: n_def min_def)
  have i: "n = int (min (length d) (nat k))" using n by simp
  show ?thesis
    using assms(1) n by (subst fragments4to6.simps) (simp add: Let_def n_def [symmetric] i frag_flags_def cong: prod.case_cong option.case_cong)
qed

lemma frag_bits:
  fixes w :: u16
  shows "push_bit 3 w AND 0xfff8 = push_bit 3 w" "(push_bit 3 w OR 1) AND 0xfff8 = push_bit 3 w"
    "push_bit 3 w AND 1 = 0" "(push_bit 3 w OR 1) AND 1 = 1"
proof -
  have m: "(0xfff8 :: u16) = NOT (mask 3)" by (simp add: mask_eq_exp_minus_1)
  show "push_bit 3 w AND 0xfff8 = push_bit 3 w" "(push_bit 3 w OR 1) AND 0xfff8 = push_bit 3 w"
    unfolding m by (rule bit_eqI; auto simp: bit_simps)+
  show "push_bit 3 w AND 1 = 0" "(push_bit 3 w OR 1) AND 1 = 1"
    by (rule bit_eqI; auto simp: bit_simps)+
qed

lemma frag_packet_fields:
  fixes tc hl nh :: byte and ident :: u32 and mr :: bool
  assumes "length src = 16" "length dst = 16" "8 dvd off" "off + length d \<le> 65535" "8 + length d \<le> 65535"
  defines "b \<equiv> frag_packet tc hl src dst nh ident (off, mr, d)"
  shows "wf_ip6 b \<and> drop 48 b = d \<and> gslice 8 24 b = src \<and> gslice 24 40 b = dst \<and> b ! 6 = protoFrag \<and> b ! 7 = hl \<and> b ! 40 = nh
    \<and> get32 b 44 = ident \<and> unat (get16 b 42 AND ip6FragMask) = off \<and> (get16 b 42 AND ip6FragMF \<noteq> 0 \<longleftrightarrow> mr)"
proof -
  define fl where "fl = frag_flags off mr"
  define H where "H = hdr6 tc (word_of_nat (8 + length d)) protoFrag hl src dst"
  define D where "D = [nh, 0, hi8 fl, lo8 fl] @ word4 ident @ d"
  have wl: "length (word4 ident) = 4" by (simp add: word4_def)
  have l: "length H = 40" "length D = 8 + length d" using assms by (simp_all add: H_def D_def wl)
  have b: "b = H @ D" by (simp add: b_def frag_packet_def H_def D_def fl_def)
  have wf: "wf_ip6 b" unfolding b H_def l(2) [symmetric] using assms l by (intro wf_ip6_packet) simp_all
  have a: "gslice 8 24 b = src \<and> gslice 24 40 b = dst \<and> b ! 6 = protoFrag \<and> b ! 7 = hl"
    using l assms(1,2) unfolding b by (simp add: slice_simps nth_append) (simp add: H_def)
  have f: "b ! 40 = nh \<and> get16 b 42 = fl \<and> drop 48 b = d \<and> get32 b 44 = ident"
    using l get32_word4 [of "H @ [nh, 0, hi8 fl, lo8 fl]" ident d] wl unfolding b
    by (simp add: D_def nth_append get16_def be16_hi_lo)
  obtain q where q: "off = 8 * q" using assms(3) by blast
  have "(word_of_nat off :: u16) = push_bit 3 (word_of_nat q)" by (simp add: q push_bit_eq_mult)
  moreover have "unat (word_of_nat off :: u16) = off" using assms(4) by (intro unat_word_of_nat_u16) simp
  ultimately have "unat (fl AND ip6FragMask) = off \<and> (fl AND ip6FragMF \<noteq> 0 \<longleftrightarrow> mr)"
    by (simp add: fl_def frag_flags_def frag_bits)
  then show ?thesis using wf a f by simp
qed

context emitter_laws
begin

text \<open>Every fragment is sent, in order, when each fits an IP packet.\<close>

lemma fragments4to6_sends:
  assumes "ok (wout w)" "0 < k" "48 + nat k \<le> 65535" "length src = 16" "length dst = 16"
  shows "\<exists>w'. fragments4to6 out (hdr6 tc len protoFrag hl src dst) ([nh, 0, x, y] @ word4 ident) mf k d off w = Some (True, w')
    \<and> ok (wout w') \<and> sent (wout w') = sent (wout w) @ map (frag_packet tc hl src dst nh ident) (chunks (nat k) mf d off)
    \<and> wtrace w' = wtrace w \<and> wmapper w' = wmapper w"
  using assms(1)
proof (induction d arbitrary: len x y off w rule: length_induct)
  case (1 d)
  show ?case
  proof (cases "d = []")
    case True
    then show ?thesis using "1.prems" by (simp add: fragments4to6.simps chunks.simps)
  next
    case False
    define n where "n = min (length d) (nat k)"
    define fl where "fl = frag_flags off (length d > n \<or> mf)"
    have n: "0 < n" "n \<le> length d" "48 + n \<le> 65535" using False assms(2,3) by (auto simp: n_def min_def)
    let ?f = "[nh, 0, hi8 fl, lo8 fl] @ word4 ident"
    have fh: "put16 ([nh, 0, x, y] @ word4 ident) 2 fl = ?f" by (simp add: put16_def)
    have wl: "length (word4 ident) = 4" by (simp add: word4_def)
    have mr: "length d > n \<longleftrightarrow> length d > nat k" by (auto simp: n_def)
    have tk: "take n d = take (nat k) d" "drop n d = drop (nat k) d" by (auto simp: n_def min_def)
    note step = fragments4to6_step [OF False less_imp_le [OF assms(2)], of out "hdr6 tc len protoFrag hl src dst" "[nh, 0, x, y] @ word4 ident" mf off w,
        folded n_def, unfolded Let_def, folded fl_def, unfolded fh]
    show ?thesis
    proof (cases "out_packet out (48 + n) w")
      case (Pair ob w1)
      then obtain b where op: "out_packet out (48 + n) w = (Some b, w1)"
        using packet_refused [OF "1.prems", of "48 + n" w1] n(3) by (cases ob) auto
      define b' where "b' = frag_packet tc hl src dst nh ident (off, length d > nat k \<or> mf, take (nat k) d)"
      define w2 where "w2 = out_fill out b' w1"
      note pf = packet_fill [OF "1.prems" op]
      have lb: "length b' = 48 + n" using assms(4,5) n by (simp add: b'_def length_frag_packet tk [symmetric])
      have w2: "sent (wout w2) = sent (wout w) @ [b']" "ok (wout w2)" using pf(5) [OF lb] by (simp_all add: w2_def)
      have w2': "wtrace w2 = wtrace w" "wmapper w2 = wmapper w" using pf by (simp_all add: w2_def out_fill_def)
      have b': "copy_at 48 (take n d) (copy_at 40 ?f (copy_at 0 (hdr6 tc (word_of_nat (8 + n)) protoFrag hl src dst) b)) = b'"
        using copy_three [of "hdr6 tc (word_of_nat (8 + n)) protoFrag hl src dst" 40 ?f 8 b "take n d"] assms(4,5) n pf(1)
        by (simp add: b'_def frag_packet_def wl fl_def mr tk min_def n_def)
      have "fragments4to6 out (hdr6 tc len protoFrag hl src dst) ([nh, 0, x, y] @ word4 ident) mf k d off w
          = fragments4to6 out (hdr6 tc (word_of_nat (8 + n)) protoFrag hl src dst) ?f mf k (drop n d) (off + n) w2"
        unfolding step op prod.case option.case hdr6_fields b' w2_def ..
      moreover have "length (drop n d) < length d" using n by simp
      note ih = "1.IH" [rule_format, OF this w2(2), of "word_of_nat (8 + n)" "hi8 fl" "lo8 fl" "off + n"]
      moreover have "chunks (nat k) mf d off = (off, length d > nat k \<or> mf, take (nat k) d) # chunks (nat k) mf (drop (nat k) d) (off + nat k)"
        using False assms(2) by (subst chunks.simps) simp
      moreover have "chunks (nat k) mf (drop n d) (off + n) = chunks (nat k) mf (drop (nat k) d) (off + nat k)"
        by (cases "nat k \<le> length d") (auto simp: n_def min_def chunks.simps)
      ultimately show ?thesis using w2 w2' by (simp add: b'_def)
    qed
  qed
qed

end

end
