(* ===== verification/Output.thy ===== *)
theory Output
  imports Translate Fragment
begin

text \<open>
  What the translator hands to its emitter. For every function that sends, a lemma over
  any emitter that keeps the contract says which packets it sends; the generated and the
  translated packets are all well formed and bounded in size.
\<close>

definition good_out :: "int \<Rightarrow> byte list \<Rightarrow> bool" where
  "good_out limit b \<longleftrightarrow> (wf_ip4 b \<or> wf_ip6 b) \<and> int (length b) \<le> limit"

lemma good_icmp4:
  assumes "length src = 4" "length dst = 4" "28 + length payload \<le> 65535" "length b = 28 + length payload"
    and "28 + int (length payload) \<le> limit"
  shows "good_out limit (icmp4_message tos src dst typ code word payload b)"
    and "length (icmp4_message tos src dst typ code word payload b) = 28 + length payload"
  using assms wf_ip4_packet [of src dst "seal 2 0 (icmp_hdr typ code word payload)" tos 0 0 64 1]
  by (simp_all add: good_out_def icmp4_message_eq)

lemma good_icmp6:
  assumes "length src = 16" "length dst = 16" "8 + length payload \<le> 65535" "length b = 48 + length payload"
    and "48 + int (length payload) \<le> limit"
  shows "good_out limit (icmp6_message tc src dst typ code word payload b)"
    and "length (icmp6_message tc src dst typ code word payload b) = 48 + length payload"
  using assms wf_ip6_packet [of src dst "seal 2 (pseudo6 src dst (8 + int (length payload)) 58) (icmp_hdr typ code word payload)" tc 58 64]
  by (simp_all add: good_out_def icmp6_message_eq)

context emitter_laws
begin

lemma sendICMPv4_good:
  assumes "ok (wout w)" "length src = 4" "length dst = 4" "28 + length payload \<le> 65535" "28 + int (length payload) \<le> limit"
  shows "emits (good_out limit) w (sendICMPv4 t out tos src dst typ code word payload w)"
proof -
  obtain ob w1 where op: "out_packet out (28 + length payload) w = (ob, w1)" by (metis prod.exhaust)
  show ?thesis
  proof (cases ob)
    case None
    then show ?thesis using op emits_refused [OF assms(1)] by (simp add: sendICMPv4_def)
  next
    case (Some b)
    then have op': "out_packet out (28 + length payload) w = (Some b, w1)" using op by simp
    note lb = packet_fill(1) [OF assms(1) op']
    note g = good_icmp4 [OF assms(2,3,4) lb assms(5)]
    show ?thesis using emits_packet [OF assms(1) op', where P = "good_out limit"] g op' by (simp add: sendICMPv4_def)
  qed
qed

lemma sendICMPv6_good:
  assumes "ok (wout w)" "length src = 16" "length dst = 16" "8 + length payload \<le> 65535" "48 + int (length payload) \<le> limit"
  shows "emits (good_out limit) w (sendICMPv6 t out tc src dst typ code word payload w)"
proof -
  obtain ob w1 where op: "out_packet out (48 + length payload) w = (ob, w1)" by (metis prod.exhaust)
  show ?thesis
  proof (cases ob)
    case None
    then show ?thesis using op emits_refused [OF assms(1)] by (simp add: sendICMPv6_def)
  next
    case (Some b)
    then have op': "out_packet out (48 + length payload) w = (Some b, w1)" using op by simp
    note lb = packet_fill(1) [OF assms(1) op']
    note g = good_icmp6 [OF assms(2,3,4) lb assms(5)]
    show ?thesis using emits_packet [OF assms(1) op', where P = "good_out limit"] g op' by (simp add: sendICMPv6_def)
  qed
qed

lemma sendICMPv4Error_good:
  assumes "ok (wout w)" "view4 p" "length (local4 t) = 4" "576 \<le> limit"
  shows "emits (good_out limit) w (sendICMPv4Error t out typ code word p w)"
proof -
  have "length (gslice 12 16 (pip p)) = 4" using view4_slices(1) [OF assms(2)] view4D(1) [OF assms(2)] by simp
  then show ?thesis
    using assms unfolding sendICMPv4Error_def Let_def by (auto intro!: emits_refl sendICMPv4_good)
qed

lemma sendICMPv6Error_good:
  assumes "ok (wout w)" "view6 p" "length (local6 t) = 16" "1280 \<le> limit"
  shows "emits (good_out limit) w (sendICMPv6Error t out typ code word p w)"
proof -
  have "length (gslice 8 24 (pip p)) = 16" using view6_slices(1) [OF assms(2)] by simp
  then show ?thesis
    using assms unfolding sendICMPv6Error_def Let_def by (auto intro!: emits_refl sendICMPv6_good)
qed

lemma hostICMPv4_good:
  assumes "ok (wout w)" "view4 p" "proto p = protoICMP" "int (length (raw p)) \<le> limit"
  shows "emits (good_out limit) w (hostICMPv4 t out p w)"
proof -
  have l: "length (gslice 12 16 (pip p)) = 4" "length (gslice 16 20 (pip p)) = 4" "length (pdata p) = dataLen p"
    using view4_slices [OF assms(2)] view4D(1) [OF assms(2)] by simp_all
  have "hdrLen p + dataLen p \<le> ip4TotalLen (raw p)" using assms(2) by (simp add: view4_def)
  then have "20 + dataLen p \<le> 65535" "8 \<le> dataLen p" "20 + dataLen p \<le> length (raw p)"
    using view4D [OF assms(2)] assms(3) unsigned_less [of "get16 (raw p) 2", where ?'a = nat] by (auto simp: ip4TotalLen_def)
  then show ?thesis
    using assms l unfolding hostICMPv4_def Let_def
    by (auto intro!: emits_refl emits_wout [OF sendICMPv4_good])
qed

lemma hostICMPv6_good:
  assumes "ok (wout w)" "view6 p" "proto p = protoICMPv6" "int (length (raw p)) \<le> limit"
  shows "emits (good_out limit) w (hostICMPv6 t out p w)"
proof -
  have l: "length (gslice 8 24 (pip p)) = 16" "length (gslice 24 40 (pip p)) = 16" "length (pdata p) = dataLen p"
    using view6_slices [OF assms(2)] by simp_all
  have "dataLen p \<le> 65535" "8 \<le> dataLen p" "40 + dataLen p \<le> length (raw p)"
    using view6D [OF assms(2)] assms(3) by auto
  then show ?thesis
    using assms l unfolding hostICMPv6_def Let_def
    by (auto intro!: emits_refl emits_wout [OF sendICMPv6_good])
qed

end

end
