(* ===== verification/Forward.thy ===== *)
theory Forward
  imports Output
begin

text \<open>
  The data packets: for a packet whose addresses map and whose payload can be rewritten,
  the exact list of packets \<^verbatim>\<open>xlate4to6Data\<close> and \<^verbatim>\<open>xlate6to4Data\<close> send.
\<close>

subsection \<open>What a translated data packet becomes\<close>

definition frag_limit :: "'m Translator \<Rightarrow> int" where
  "frag_limit t = min (OfflinkMTU (cfg t)) (MTU (cfg t)) - 40"

definition frag_size :: "'m Translator \<Rightarrow> int" where
  "frag_size t = (frag_limit t - 8) div 8 * 8"

definition unfragmented4 :: "pkt \<Rightarrow> bool" where
  "unfragmented4 p \<longleftrightarrow> ip4FlagsOff (pip p) AND 0x3fff = 0"

definition too_big4 :: "'m Translator \<Rightarrow> pkt \<Rightarrow> bool" where
  "too_big4 t p \<longleftrightarrow> unfragmented4 p \<and> ip4FlagsOff (pip p) AND ip4FlagDF \<noteq> 0 \<and> MTU (cfg t) - 20 < int (hdrLen p + dataLen p)"

definition plain4 :: "'m Translator \<Rightarrow> pkt \<Rightarrow> bool" where
  "plain4 t p \<longleftrightarrow> unfragmented4 p \<and> (ip4FlagsOff (pip p) AND ip4FlagDF \<noteq> 0 \<or> int (dataLen p) \<le> frag_limit t)"

text \<open>The IPv6 header the packet \<open>p\<close> gets, and the packets sent for the rewritten payload of \<open>p'\<close>.\<close>

definition out_header4 :: "pkt \<Rightarrow> byte list \<Rightarrow> byte list \<Rightarrow> byte list" where
  "out_header4 p src6 dst6 = hdr6 (pip p ! 1) (word_of_nat (dataLen p)) (proto4to6 (proto p)) (pip p ! 8 - 1) src6 dst6"

definition outs4 :: "'m Translator \<Rightarrow> pkt \<Rightarrow> pkt \<Rightarrow> byte list \<Rightarrow> byte list \<Rightarrow> byte list list" where
  "outs4 t p p' src6 dst6 =
     (if plain4 t p then [out_header4 p src6 dst6 @ pdata p']
      else map (frag_packet (pip p ! 1) (pip p ! 8 - 1) src6 dst6 (proto4to6 (proto p)) (ucast (ip4Ident (pip p))))
             (chunks (nat (frag_size t)) (ip4FlagsOff (pip p) AND ip4FlagMF \<noteq> 0) (pdata p')
                (unat (ip4FlagsOff (pip p) AND ip4OffMask) * 8)))"

lemma frag_size_bounds:
  assumes "1280 \<le> MTU (cfg t)" "1280 \<le> OfflinkMTU (cfg t)" "MTU (cfg t) \<le> 65535"
  shows "0 < frag_size t" "48 + nat (frag_size t) \<le> 65535" "48 + frag_size t \<le> MTU (cfg t)" "8 dvd nat (frag_size t)"
    "48 + frag_size t \<le> OfflinkMTU (cfg t)"
proof -
  have "1240 \<le> frag_limit t" "frag_limit t \<le> MTU (cfg t) - 40" "frag_limit t \<le> OfflinkMTU (cfg t) - 40"
    using assms by (auto simp: frag_limit_def)
  moreover have "frag_limit t - 8 - 7 \<le> frag_size t" "frag_size t \<le> frag_limit t - 8" unfolding frag_size_def by linarith+
  ultimately show "0 < frag_size t" "48 + nat (frag_size t) \<le> 65535" "48 + frag_size t \<le> MTU (cfg t)"
     "48 + frag_size t \<le> OfflinkMTU (cfg t)" using assms by auto
  have "frag_size t = 8 * ((frag_limit t - 8) div 8)" by (simp add: frag_size_def)
  then show "8 dvd nat (frag_size t)" by (simp add: nat_mult_distrib)
qed

definition out_header6 :: "pkt \<Rightarrow> u16 \<Rightarrow> u16 \<Rightarrow> byte list \<Rightarrow> byte list \<Rightarrow> byte list" where
  "out_header6 p ident fo src4 dst4 =
     hdr4 (ucast (drop_bit 20 (ip6VerTcFl (pip p)))) (word_of_nat (20 + dataLen p)) ident fo (pip p ! 7 - 1)
       (proto6to4 (proto p)) src4 dst4"

lemma fields6to4_world:
  "fields6to4 p n w = (ident, fo, w') \<Longrightarrow> wout w' = wout w \<and> wtrace w' = wtrace w \<and> wmapper w' = wmapper w"
  by (auto simp: fields6to4_def randomIdent_def Let_def split: if_splits)

context emitter_laws
begin

lemma xlate4to6Data_sends:
  assumes w: "ok (wout w)" and v: "view4 p"
    and mtu: "1280 \<le> MTU (cfg t)" "1280 \<le> OfflinkMTU (cfg t)" "MTU (cfg t) \<le> 65535"
    and m1: "map4to6 t (gslice 16 20 (pip p)) w = (Inr dst6, w1)"
    and m2: "map4to6 t (gslice 12 16 (pip p)) w1 = (Inr src6, w2)"
    and big: "\<not> too_big4 t p" and pl: "payload4to6 t p (out_header4 p src6 dst6) = (ReasonNone, p')"
  shows "\<exists>w'. xlate4to6Data t out p w = Some w' \<and> ok (wout w') \<and> sent (wout w') = sent (wout w) @ outs4 t p p' src6 dst6
     \<and> wtrace w' = wtrace w2 @ [Translated 4 (int (hdrLen p + dataLen p))] \<and> wmapper w' = wmapper w2"
proof -
  have l: "length src6 = 16" "length dst6 = 16" using map4to6_length [OF m1] map4to6_length [OF m2] by simp_all
  have w2: "wout w2 = wout w" using wout_map4to6 [OF m1] wout_map4to6 [OF m2] by simp
  then have ok2: "ok (wout w2)" using w by simp
  note k = payload4to6_keeps [OF pl] and vd = view4D [OF v]
  have ld: "length (pdata p') = dataLen p" using k vd by (simp add: pdata_def)
  have pip': "pip p' = pip p" using pl v by (rule pip_payload4to6)
  note fs = frag_size_bounds [OF mtu]
  have fl: "(if OfflinkMTU (cfg t) > MTU (cfg t) then MTU (cfg t) else OfflinkMTU (cfg t)) - int 40 = frag_limit t"
    by (simp add: frag_limit_def)
  have h: "(header4to6 p (replicate 40 0) (int (dataLen p)) src6 dst6)[7 := header4to6 p (replicate 40 0) (int (dataLen p)) src6 dst6 ! 7 - 1]
      = out_header4 p src6 dst6"
    using l by (simp add: header4to6_eq out_header4_def)
  have nb: "(ip4FlagsOff (pip p) AND (0x1fff OR 0x2000) = 0 \<and> ip4FlagsOff (pip p) AND 0x4000 \<noteq> 0
      \<and> MTU (cfg t) - 20 < int (hdrLen p + dataLen p)) = False"
    using big by (simp add: too_big4_def unfragmented4_def)
  have np: "(ip4FlagsOff (pip p) AND (0x1fff OR 0x2000) = 0 \<and> (ip4FlagsOff (pip p) AND 0x4000 \<noteq> 0 \<or> int (dataLen p) \<le> frag_limit t))
      = plain4 t p"
    by (simp add: plain4_def unfragmented4_def)
  show ?thesis
  proof (cases "plain4 t p")
    case True
    have "20 \<le> hdrLen p" "dataLen p < 65536" using vd by simp_all
    then have n: "40 + dataLen p \<le> 65535"
      using True big mtu by (auto simp: plain4_def too_big4_def frag_limit_def)
    obtain b w3 where op: "out_packet out (40 + dataLen p) w2 = (Some b, w3)" using packet_accepted [OF ok2 n] by blast
    note pf = packet_fill [OF ok2 op]
    have c: "copy_at 40 (pdata p') (copy_at 0 (out_header4 p src6 dst6) b) = out_header4 p src6 dst6 @ pdata p'"
      using pf(1) ld l by (intro copy_two) (simp_all add: out_header4_def)
    have "length (out_header4 p src6 dst6 @ pdata p') = 40 + dataLen p" using ld l by (simp add: out_header4_def)
    note pf5 = pf(5) [OF this]
    have "xlate4to6Data t out p w
        = Some (obs_translated 4 (hdrLen p + dataLen p) (out_fill out (out_header4 p src6 dst6 @ pdata p') w3))"
      unfolding xlate4to6Data_def Let_def m1 m2 prod.case sum.case h fl nb np if_False pl
      using True op by (simp add: c k)
    then show ?thesis using pf5 pf(2,3) w2 True by (simp add: obs_translated_def out_fill_def outs4_def)
  next
    case False
    have r8: "replicate 8 (0 :: byte) = [0, 0, 0, 0, 0, 0, 0, 0]" by (simp add: numeral_eq_Suc)
    let ?f = "[proto4to6 (proto p), 0, 0, 0] @ word4 (ucast (ip4Ident (pip p)))"
    have fh: "put32 ((replicate 8 0)[0 := out_header4 p src6 dst6 ! 6]) 4 (ucast (ip4Ident (pip p'))) = ?f"
      by (simp add: out_header4_def put32_def word4_def pip' r8)
    have h6: "(out_header4 p src6 dst6)[6 := protoFrag]
        = hdr6 (pip p ! 1) (word_of_nat (dataLen p)) protoFrag (pip p ! 8 - 1) src6 dst6"
      by (simp add: out_header4_def)
    obtain w3 where f: "fragments4to6 out (hdr6 (pip p ! 1) (word_of_nat (dataLen p)) protoFrag (pip p ! 8 - 1) src6 dst6) ?f
        (ip4FlagsOff (pip p) AND ip4FlagMF \<noteq> 0) (frag_size t) (pdata p') (unat (ip4FlagsOff (pip p) AND ip4OffMask) * 8) w2
        = Some (True, w3)" "ok (wout w3)" "sent (wout w3) = sent (wout w2) @ outs4 t p p' src6 dst6"
        "wtrace w3 = wtrace w2" "wmapper w3 = wmapper w2"
      using fragments4to6_sends [OF ok2 fs(1,2) l, of "pip p ! 1" "word_of_nat (dataLen p)" "pip p ! 8 - 1" "proto4to6 (proto p)" 0 0
          "ucast (ip4Ident (pip p))" "ip4FlagsOff (pip p) AND ip4FlagMF \<noteq> 0" "pdata p'" "unat (ip4FlagsOff (pip p) AND ip4OffMask) * 8"]
      unfolding outs4_def if_not_P [OF False] by blast
    have "xlate4to6Data t out p w = Some (obs_translated 4 (hdrLen p + dataLen p) w3)"
      unfolding xlate4to6Data_def Let_def m1 m2 prod.case sum.case h fl nb np if_False pl fh h6
      using False f(1) by (simp add: k frag_size_def)
    then show ?thesis using f(2-) w2 by (simp add: obs_translated_def)
  qed
qed

lemma xlate6to4Data_sends:
  assumes w: "ok (wout w)" and v: "view6 p" and mtu: "MTU (cfg t) \<le> 65535"
    and m1: "map6to4 t (gslice 24 40 (pip p)) False w = (Inr dst4, w1)"
    and m2: "map6to4 t (gslice 8 24 (pip p)) True w1 = (Inr src4, w2)"
    and size: "int (40 + hdrLen p + dataLen p) \<le> MTU (cfg t)"
    and f: "fields6to4 p (int (dataLen p)) w2 = (ident, fo, w3)"
    and pl: "payload6to4 t p (out_header6 p ident fo src4 dst4) = (ReasonNone, p')"
  shows "ok (wout (xlate6to4Data t out p w))
     \<and> sent (wout (xlate6to4Data t out p w)) = sent (wout w) @ [seal 10 0 (out_header6 p ident fo src4 dst4) @ pdata p']
     \<and> wtrace (xlate6to4Data t out p w) = wtrace w2 @ [Translated 6 (int (40 + hdrLen p + dataLen p))]
     \<and> wmapper (xlate6to4Data t out p w) = wmapper w2"
proof -
  have l: "length src4 = 4" "length dst4 = 4" using map6to4_length [OF m1] map6to4_length [OF m2] by simp_all
  note fw = fields6to4_world [OF f] and k = payload6to4_keeps [OF pl] and vd = view6D [OF v]
  have w3: "wout w3 = wout w" using wout_map6to4 [OF m1] wout_map6to4 [OF m2] fw by simp
  then have ok3: "ok (wout w3)" using w by simp
  have ld: "length (pdata p') = dataLen p" using k vd by (simp add: pdata_def)
  have n: "20 + dataLen p \<le> 65535" using size mtu by simp
  obtain b w4 where op: "out_packet out (20 + dataLen p) w3 = (Some b, w4)" using packet_accepted [OF ok3 n] by blast
  note pf = packet_fill [OF ok3 op]
  let ?H = "seal 10 0 (out_header6 p ident fo src4 dst4)"
  have c: "copy_at 20 (pdata p') (copy_at 0 ?H b) = ?H @ pdata p'"
    using pf(1) ld l by (intro copy_two) (simp_all add: out_header6_def)
  have "length (?H @ pdata p') = 20 + dataLen p" using ld l by (simp add: out_header6_def)
  note pf5 = pf(5) [OF this]
  have h: "header6to4 p (replicate 20 0) (int (dataLen p)) src4 dst4 w2
      = (hdr4 (ucast (drop_bit 20 (ip6VerTcFl (pip p)))) (word_of_nat (20 + dataLen p)) ident fo (pip p ! 7) (proto6to4 (proto p)) src4 dst4, w3)"
    using l f by (subst header6to4_eq) simp_all
  have nb: "(int (40 + hdrLen p + dataLen p) > MTU (cfg t)) = False" using size by simp
  have "xlate6to4Data t out p w = obs_translated 6 (40 + hdrLen p + dataLen p) (out_fill out (?H @ pdata p') w4)"
    unfolding xlate6to4Data_def Let_def m1 m2 prod.case sum.case nb if_False h hdr4_fields out_header6_def [symmetric] pl
    using op by (simp add: k c seal_def [symmetric])
  then show ?thesis using pf5 pf(2,3) w3 fw by (simp add: obs_translated_def out_fill_def)
qed

end

end
