(* ===== verification/Safety.thy ===== *)
theory Safety
  imports Forward
begin

text \<open>
  The translator as a whole: it returns for every input, and everything it sends is a
  well-formed packet of bounded size.
\<close>

subsection \<open>Data packets\<close>

lemma plain4_size:
  assumes "view4 p" "plain4 t p" "\<not> too_big4 t p"
  shows "int (40 + dataLen p) \<le> MTU (cfg t)"
  using assms view4D(1) [OF assms(1)] by (auto simp: plain4_def too_big4_def frag_limit_def)

lemma outs4_good:
  assumes v: "view4 p" and mtu: "1280 \<le> MTU (cfg t)" "1280 \<le> OfflinkMTU (cfg t)" "MTU (cfg t) \<le> 65535"
    and big: "\<not> too_big4 t p" and l: "length src6 = 16" "length dst6 = 16" and ld: "length (pdata p') = dataLen p"
    and b: "b \<in> set (outs4 t p p' src6 dst6)"
  shows "wf_ip6 b \<and> int (length b) \<le> MTU (cfg t)"
proof (cases "plain4 t p")
  case True
  then have "b = hdr6 (pip p ! 1) (word_of_nat (length (pdata p'))) (proto4to6 (proto p)) (pip p ! 8 - 1) src6 dst6 @ pdata p'"
    using b ld by (simp add: outs4_def out_header4_def)
  moreover have "int (40 + dataLen p) \<le> MTU (cfg t)" using plain4_size [OF v True big] .
  ultimately show ?thesis using wf_ip6_packet [OF l, of "pdata p'"] mtu ld l by simp
next
  case False
  define off where "off = unat (ip4FlagsOff (pip p) AND ip4OffMask) * 8"
  define cs where "cs = chunks (nat (frag_size t)) (ip4FlagsOff (pip p) AND ip4FlagMF \<noteq> 0) (pdata p') off"
  note fs = frag_size_bounds [OF mtu]
  from b False obtain i where i: "i < length cs"
    and be: "b = frag_packet (pip p ! 1) (pip p ! 8 - 1) src6 dst6 (proto4to6 (proto p)) (ucast (ip4Ident (pip p))) (cs ! i)"
    by (auto simp: outs4_def cs_def off_def in_set_conv_nth)
  obtain o' mr d where c: "cs ! i = (o', mr, d)" and d: "length d \<le> nat (frag_size t)"
    using nth_chunks [OF i [unfolded cs_def], folded cs_def] by auto
  have "length d \<le> 65535 - 48" using d fs by simp
  then have "wf_ip6 b" unfolding be c frag_packet_def prod.case
    using wf_ip6_packet [OF l, of "[proto4to6 (proto p), 0, hi8 (frag_flags o' mr), lo8 (frag_flags o' mr)] @ word4 (ucast (ip4Ident (pip p))) @ d"
        "pip p ! 1" protoFrag "pip p ! 8 - 1"] by (simp add: word4_def)
  moreover have "length b = 48 + length d" unfolding be c using l by (rule length_frag_packet)
  ultimately show ?thesis using d fs by simp
qed

context emitter_laws
begin

lemma xlate4to6Data_good:
  assumes w: "ok (wout w)" and v: "view4 p" and l4: "length (local4 t) = 4"
    and mtu: "1280 \<le> MTU (cfg t)" "1280 \<le> OfflinkMTU (cfg t)" "MTU (cfg t) \<le> 65535" and lim: "MTU (cfg t) \<le> limit"
  shows "\<exists>w'. xlate4to6Data t out p w = Some w' \<and> emits (good_out limit) w w'"
proof -
  have err: "emits (good_out limit) w (sendICMPv4Error t out a c x p w1)" if "wout w1 = wout w" for a c x w1
    using that w v l4 mtu lim by (intro emits_wout [OF sendICMPv4Error_good]) simp_all
  have obs: "emits (good_out limit) w w1" if "wout w1 = wout w" for w1
    using that w by (intro emits_wout [OF emits_refl]) simp_all
  obtain d w1 where m1: "map4to6 t (gslice 16 20 (pip p)) w = (d, w1)" by (metis prod.exhaust)
  note w1 = wout_map4to6 [OF m1]
  show ?thesis
  proof (cases d)
    case (Inl e)
    then show ?thesis using m1 w1 err obs by (simp add: xlate4to6Data_def Let_def)
  next
    case (Inr dst6)
    obtain s w2 where m2: "map4to6 t (gslice 12 16 (pip p)) w1 = (s, w2)" by (metis prod.exhaust)
    note w2 = wout_map4to6 [OF m2]
    show ?thesis
    proof (cases s)
      case (Inl e)
      then show ?thesis using m1 m2 Inr w1 w2 err obs by (simp add: xlate4to6Data_def Let_def)
    next
      case (Inr src6)
      have M: "map4to6 t (gslice 16 20 (pip p)) w = (Inr dst6, w1)" "map4to6 t (gslice 12 16 (pip p)) w1 = (Inr src6, w2)"
        using m1 m2 Inr \<open>d = Inr dst6\<close> by simp_all
      note l = map4to6_length [OF M(2)] map4to6_length [OF M(1)]
      obtain r p' where pl: "payload4to6 t p (out_header4 p src6 dst6) = (r, p')" by (metis prod.exhaust)
      have ld: "length (pdata p') = dataLen p" using payload4to6_keeps [OF pl] view4D [OF v] by (simp add: pdata_def)
      consider "too_big4 t p" | "\<not> too_big4 t p" "r \<noteq> ReasonNone" | "\<not> too_big4 t p" "r = ReasonNone" by blast
      then show ?thesis
      proof cases
        case 1
        then show ?thesis using M w1 w2 err by (simp add: xlate4to6Data_def Let_def too_big4_def unfragmented4_def)
      next
        case 2
        have "(header4to6 p (replicate 40 0) (int (dataLen p)) src6 dst6)[7 := header4to6 p (replicate 40 0) (int (dataLen p)) src6 dst6 ! 7 - 1]
            = out_header4 p src6 dst6" using l by (simp add: header4to6_eq out_header4_def)
        then have "xlate4to6Data t out p w = Some (obs_event (event p' KindDrop r) w2)"
          using 2 M pl unfolding xlate4to6Data_def Let_def too_big4_def unfragmented4_def by auto
        then show ?thesis using w1 w2 obs by simp
      next
        case 3
        note snd = xlate4to6Data_sends [OF w v mtu M 3(1) pl [unfolded 3(2)]]
        have "\<forall>b\<in>set (outs4 t p p' src6 dst6). good_out limit b"
          using outs4_good [OF v mtu 3(1) l ld] lim by (fastforce simp: good_out_def)
        then show ?thesis using snd unfolding emits_def by auto
      qed
    qed
  qed
qed

lemma xlate6to4Data_good:
  assumes w: "ok (wout w)" and v: "view6 p" and l6: "length (local6 t) = 16"
    and mtu: "1280 \<le> MTU (cfg t)" "MTU (cfg t) \<le> 65535" and lim: "MTU (cfg t) \<le> limit"
  shows "emits (good_out limit) w (xlate6to4Data t out p w)"
proof -
  have err: "emits (good_out limit) w (sendICMPv6Error t out a c x p w1)" if "wout w1 = wout w" for a c x w1
    using that w v l6 mtu lim by (intro emits_wout [OF sendICMPv6Error_good]) simp_all
  have obs: "emits (good_out limit) w w1" if "wout w1 = wout w" for w1
    using that w by (intro emits_wout [OF emits_refl]) simp_all
  obtain d w1 where m1: "map6to4 t (gslice 24 40 (pip p)) False w = (d, w1)" by (metis prod.exhaust)
  note w1 = wout_map6to4 [OF m1]
  show ?thesis
  proof (cases d)
    case (Inl e)
    then show ?thesis using m1 w1 err obs by (simp add: xlate6to4Data_def Let_def)
  next
    case (Inr dst4)
    obtain s w2 where m2: "map6to4 t (gslice 8 24 (pip p)) True w1 = (s, w2)" by (metis prod.exhaust)
    note w2 = wout_map6to4 [OF m2]
    show ?thesis
    proof (cases s)
      case (Inl e)
      then show ?thesis using m1 m2 Inr w1 w2 err obs by (simp add: xlate6to4Data_def Let_def)
    next
      case (Inr src4)
      have M: "map6to4 t (gslice 24 40 (pip p)) False w = (Inr dst4, w1)" "map6to4 t (gslice 8 24 (pip p)) True w1 = (Inr src4, w2)"
        using m1 m2 Inr \<open>d = Inr dst4\<close> by simp_all
      note l = map6to4_length [OF M(2)] map6to4_length [OF M(1)]
      obtain ident fo w3 where f: "fields6to4 p (int (dataLen p)) w2 = (ident, fo, w3)" by (metis prod.exhaust)
      obtain r p' where pl: "payload6to4 t p (out_header6 p ident fo src4 dst4) = (r, p')" by (metis prod.exhaust)
      have ld: "length (pdata p') = dataLen p" using payload6to4_keeps [OF pl] view6D [OF v] by (simp add: pdata_def)
      have h: "header6to4 p (replicate 20 0) (int (dataLen p)) src4 dst4 w2
        = (hdr4 (ucast (drop_bit 20 (ip6VerTcFl (pip p)))) (word_of_nat (20 + dataLen p)) ident fo (pip p ! 7) (proto6to4 (proto p)) src4 dst4, w3)"
        using l f by (subst header6to4_eq) simp_all
      have w3: "wout w3 = wout w" using fields6to4_world [OF f] w1 w2 by simp
      consider "int (40 + hdrLen p + dataLen p) > MTU (cfg t)" | "int (40 + hdrLen p + dataLen p) \<le> MTU (cfg t)" "r \<noteq> ReasonNone"
        | "int (40 + hdrLen p + dataLen p) \<le> MTU (cfg t)" "r = ReasonNone" by linarith
      then show ?thesis
      proof cases
        case 1
        then show ?thesis using M w1 w2 err by (simp add: xlate6to4Data_def Let_def)
      next
        case 2
        then have nb: "(int (40 + hdrLen p + dataLen p) > MTU (cfg t)) = False" by simp
        have "xlate6to4Data t out p w = obs_event (event p' KindDrop r) w3"
          unfolding xlate6to4Data_def Let_def M prod.case sum.case nb if_False h hdr4_fields out_header6_def [symmetric] pl
          using 2 by simp
        then show ?thesis using w3 obs by simp
      next
        case 3
        note snd = xlate6to4Data_sends [OF w v mtu(2) M 3(1) f pl [unfolded 3(2)]]
        have "20 + length (pdata p') \<le> 65535" using 3(1) mtu ld by simp
        from wf_ip4_packet [OF l this]
        have "good_out limit (seal 10 0 (out_header6 p ident fo src4 dst4) @ pdata p')"
          using 3(1) lim ld l by (simp add: good_out_def out_header6_def)
        then show ?thesis using snd unfolding emits_def by auto
      qed
    qed
  qed
qed

end

subsection \<open>ICMP errors\<close>

lemma embedded4_view:
  assumes "embedded4 p = Inr em"
  obtains em0 where "view4 em0" "em = em0\<lparr>dataLen := min (dataLen em0) 1192\<rparr>" "em0 = snd (parseIPv4 (new_pkt (raw em0)))"
    "proto em0 = protoICMP \<longrightarrow> picmp em0 ! 0 = 8"
proof -
  define b where "b = drop 8 (pdata p)"
  define n where "n = (if picmp p ! 0 = 3 \<or> picmp p ! 0 = 11 \<or> picmp p ! 0 = 12
                   then unat (drop_bit 14 (icmpWord (picmp p)) AND 0x3fc) else 0)"
  define x where "x = (if n \<noteq> 0 then take n b else b)"
  obtain r em0 where e: "parseIPv4 (new_pkt x) = (r, em0)" by (metis prod.exhaust)
  have "r = ReasonNone" "em = em0\<lparr>dataLen := min (dataLen em0) 1192\<rparr>" "proto em0 = protoICMP \<longrightarrow> picmp em0 ! 0 = 8"
    using assms e unfolding embedded4_def Let_def n_def [symmetric] b_def [symmetric] x_def [symmetric]
    by (auto split: if_splits simp: min_def)
  moreover from e this have "view4 em0" "raw em0 = x" using parseIPv4_view4 by auto
  ultimately show ?thesis using e by (intro that [of em0]) simp_all
qed

lemma embedded6_view:
  assumes "embedded6 p = Inr em"
  obtains em0 where "view6 em0" "em = em0\<lparr>dataLen := min (dataLen em0) 528\<rparr>" "proto em0 = protoICMPv6 \<longrightarrow> picmp em0 ! 0 = 128"
proof -
  define b where "b = drop 8 (pdata p)"
  define n where "n = (if picmp p ! 0 = 1 \<or> picmp p ! 0 = 3
                   then unat (drop_bit 21 (icmpWord (picmp p)) AND 0x7f8) else 0)"
  define x where "x = (if n \<noteq> 0 then take n b else b)"
  obtain r sp si em0 where e: "parseIPv6 (new_pkt x) = ((r, sp, si), em0)" by (metis prod.exhaust)
  have "r = ReasonNone" "em = em0\<lparr>dataLen := min (dataLen em0) 528\<rparr>" "proto em0 = protoICMPv6 \<longrightarrow> picmp em0 ! 0 = 128"
    using assms e unfolding embedded6_def Let_def n_def [symmetric] b_def [symmetric] x_def [symmetric]
    by (auto split: if_splits simp: min_def)
  moreover from e this have "view6 em0" using parseIPv6_view6 [OF e] by simp
  ultimately show ?thesis by (intro that [of em0]) simp_all
qed

context emitter_laws
begin

lemma icmpError6_emit:
  assumes w: "ok (wout w)" and l: "length src6 = 16" "length dst6 = 16" "length inner = 40" "length (pdata em) = dataLen em"
    and em: "dataLen em \<le> 1192" and lim: "1280 \<le> limit"
  shows "emits (\<lambda>b. good_out limit b \<and> wf_ip6 b) w
    (case out_packet out (88 + dataLen em) w of (None, w) \<Rightarrow> w
     | (Some b, w) \<Rightarrow> obs_translated 4 k (out_fill out (icmpError6_packet p src6 dst6 o6 inner em b) w))"
proof -
  have n: "88 + dataLen em \<le> 65535" using em by simp
  obtain x w5 where op: "out_packet out (88 + dataLen em) w = (Some x, w5)" using packet_accepted [OF w n] by blast
  obtain o1 o2 o3 where o6: "o6 = (o1, o2, o3)" by (metis prod.exhaust)
  note pe = icmpError6_packet_eq [OF packet_fill(1) [OF w op] l, of p o1 o2 o3, folded o6]
  let ?d = "seal 2 (pseudo6 src6 dst6 (48 + int (dataLen em)) protoICMPv6) (icmp_hdr o1 o2 o3 (inner @ pdata em))"
  have d: "length ?d = 48 + dataLen em" "length ?d \<le> 65535" using l em by simp_all
  note wf = wf_ip6_packet [OF l(1,2) d(2), of "pip p ! 1" "proto4to6 (proto p)" "pip p ! 8 - 1", unfolded d(1), folded pe]
  have len: "length (icmpError6_packet p src6 dst6 o6 inner em x) = 88 + dataLen em" unfolding pe using d(1) l by simp
  then show ?thesis using emits_packet [OF w op len, of "\<lambda>b. good_out limit b \<and> wf_ip6 b"] wf em lim op by (simp add: good_out_def)
qed

lemma icmpError4_emit:
  assumes w: "ok (wout w)" and l: "length src4 = 4" "length dst4 = 4" "length inner = 20" "length (pdata em) = dataLen em"
    and em: "dataLen em \<le> 528" and lim: "576 \<le> limit"
  shows "emits (\<lambda>b. good_out limit b \<and> wf_ip4 b) w
    (case out_packet out (48 + dataLen em) w of (None, w) \<Rightarrow> w
     | (Some b, w) \<Rightarrow> (case icmpError4_packet p src4 dst4 o4 inner em b w of
          (b, w) \<Rightarrow> obs_translated 6 k (out_fill out b w)))"
proof -
  have n: "48 + dataLen em \<le> 65535" using em by simp
  obtain x w5 where op: "out_packet out (48 + dataLen em) w = (Some x, w5)" using packet_accepted [OF w n] by blast
  obtain o1 o2 o3 where o4: "o4 = (o1, o2, o3)" by (metis prod.exhaust)
  obtain ident fo w6 where f: "fields6to4 p (28 + int (dataLen em)) w5 = (ident, fo, w6)" by (metis prod.exhaust)
  note pe = icmpError4_packet_eq [OF packet_fill(1) [OF w op] l f, of o1 o2 o3, folded o4]
  let ?d = "seal 2 0 (icmp_hdr o1 o2 o3 (inner @ pdata em))"
  let ?b = "seal 10 0 (hdr4 (ucast (drop_bit 20 (ip6VerTcFl (pip p)))) (word_of_nat (48 + dataLen em)) ident fo (pip p ! 7 - 1)
         (proto6to4 (proto p)) src4 dst4) @ ?d"
  have d: "20 + length ?d = 48 + dataLen em" "20 + length ?d \<le> 65535" using l em by simp_all
  note wf = wf_ip4_packet [OF l(1,2) d(2), of "ucast (drop_bit 20 (ip6VerTcFl (pip p)))" ident fo "pip p ! 7 - 1" "proto6to4 (proto p)", unfolded d(1)]
  define B where "B = ?b"
  have len: "length B = 48 + dataLen em" using l by (simp add: B_def)
  have same: "emits P w (out_fill out B w6) = emits P w (out_fill out B w5)" for P
    using fields6to4_world [OF f] by (simp add: emits_def out_fill_def)
  show ?thesis
    using emits_packet [OF w op len, of "\<lambda>b. good_out limit b \<and> wf_ip4 b"] wf [folded B_def] len em lim op pe [folded B_def]
    by (simp add: good_out_def same)
qed

lemma xlate4to6ICMPError_good:
  assumes w: "ok (wout w)" and v: "view4 p" and l6: "length (local6 t) = 16" and lim: "1280 \<le> limit"
  shows "emits (\<lambda>b. good_out limit b \<and> wf_ip6 b) w (xlate4to6ICMPError t out p w)"
proof -
  let ?P = "\<lambda>b. good_out limit b \<and> wf_ip6 b"
  have obs: "emits ?P w w1" if "wout w1 = wout w" for w1
    using that w by (intro emits_wout [OF emits_refl]) simp_all
  show ?thesis
  proof (cases "embedded4 p")
    case (Inl r)
    then show ?thesis using obs by (simp add: xlate4to6ICMPError_def)
  next
    case em: (Inr em)
    obtain em0 where e0: "view4 em0" "em = em0\<lparr>dataLen := min (dataLen em0) 1192\<rparr>" using embedded4_view [OF em] by blast
    have le: "dataLen em \<le> 1192" "dataOff em + dataLen em \<le> length (raw em)" using e0 view4D [OF e0(1)] by auto
    obtain s1 w1 where m1: "map4to6 t (gslice 12 16 (pip em)) w = (s1, w1)" by (metis prod.exhaust)
    obtain s2 w2 where m2: "map4to6 t (gslice 16 20 (pip em)) w1 = (s2, w2)" by (metis prod.exhaust)
    have w2: "wout w2 = wout w" using wout_map4to6 [OF m1] wout_map4to6 [OF m2] by simp
    show ?thesis
    proof (cases "\<exists>a b. s1 = Inr a \<and> s2 = Inr b")
      case False
      then have "xlate4to6ICMPError t out p w = obs_event (event p KindDrop ReasonEmbeddedUnmappable) w2"
        using em m1 m2 by (auto simp: xlate4to6ICMPError_def split: sum.splits)
      then show ?thesis using obs w2 by simp
    next
      case True
      then obtain a b where s: "s1 = Inr a" "s2 = Inr b" by blast
      define inner where "inner = header4to6 em (replicate 40 0) (int (ip4TotalLen (pip em)) - int (hdrLen em)) a b"
      have "length a = 16" "length b = 16" using map4to6_length m1 m2 s by blast+
      then have li: "length inner = 40" unfolding inner_def by (simp add: header4to6_eq)
      obtain r em' where pl: "payload4to6 t em inner = (r, em')" by (metis prod.exhaust)
      note k = payload4to6_keeps [OF pl]
      obtain s3 w3 where m3: "map4to6 t (gslice 12 16 (pip p)) w2 = (s3, w3)" by (metis prod.exhaust)
      define src6 where "src6 = (case s3 of Inl _ \<Rightarrow> local6 t | Inr a \<Rightarrow> a)"
      define w3' where "w3' = (case s3 of Inl _ \<Rightarrow> obs_event (event p KindICMP ReasonSynthesisedSource) w3 | Inr a \<Rightarrow> w3)"
      have pair: "(case s3 of Inl _ \<Rightarrow> (local6 t, obs_event (event p KindICMP ReasonSynthesisedSource) w3) | Inr a \<Rightarrow> (a, w3)) = (src6, w3')"
        by (simp add: src6_def w3'_def split: sum.splits)
      have ls: "length src6 = 16" using map4to6_length m3 l6 by (auto simp: src6_def split: sum.splits)
      have w3: "wout w3' = wout w" using wout_map4to6 [OF m3] w2 by (auto simp: w3'_def split: sum.splits)
      obtain s4 w4 where m4: "map4to6 t (gslice 16 20 (pip p)) w3' = (s4, w4)" by (metis prod.exhaust)
      have w4: "wout w4 = wout w" using wout_map4to6 [OF m4] w3 by simp
      have eq: "xlate4to6ICMPError t out p w =
        (case icmpError4to6 t p em of Inl r \<Rightarrow> obs_event (event p KindDrop r) w2
         | Inr o6 \<Rightarrow> if r \<noteq> ReasonNone then obs_event (event p KindDrop ReasonEmbeddedUntranslatable) w2
           else case s4 of Inl _ \<Rightarrow> obs_event (event p KindDrop ReasonDestinationUnmappable) w4
             | Inr dst6 \<Rightarrow> case out_packet out (40 + 8 + 40 + dataLen em') w4 of (None, w) \<Rightarrow> w
               | (Some b, w) \<Rightarrow> obs_translated 4 (hdrLen p + dataLen p) (out_fill out (icmpError6_packet p src6 dst6 o6 inner em' b) w))"
        unfolding xlate4to6ICMPError_def em sum.case m1 m2 prod.case s Let_def inner_def [symmetric] pl m3 pair m4 ..
      show ?thesis
      proof (cases "icmpError4to6 t p em")
        case (Inl r1)
        then show ?thesis using eq obs w2 by simp
      next
        case (Inr o6)
        have "emits ?P w (xlate4to6ICMPError t out p w)" if r: "r = ReasonNone" and s4: "s4 = Inr dst6" for dst6
        proof -
          have "length dst6 = 16" using map4to6_length m4 s4 by blast
          moreover have "ok (wout w4)" using w w4 by simp
          moreover have "length (pdata em') = dataLen em'" "dataLen em' \<le> 1192" using k le by (simp_all add: pdata_def)
          ultimately show ?thesis
            using lim by (simp add: eq Inr r s4, intro emits_wout [OF icmpError6_emit [OF _ ls _ li] w4]) simp_all
        qed
        then show ?thesis using eq Inr obs w2 w4 by (cases s4; cases "r = ReasonNone") simp_all
      qed
    qed
  qed
qed

lemma xlate6to4ICMPError_good:
  assumes w: "ok (wout w)" and v: "view6 p" and l4: "length (local4 t) = 4" and lim: "576 \<le> limit"
  shows "emits (\<lambda>b. good_out limit b \<and> wf_ip4 b) w (xlate6to4ICMPError t out p w)"
proof -
  let ?P = "\<lambda>b. good_out limit b \<and> wf_ip4 b"
  have obs: "emits ?P w w1" if "wout w1 = wout w" for w1
    using that w by (intro emits_wout [OF emits_refl]) simp_all
  show ?thesis
  proof (cases "embedded6 p")
    case (Inl r)
    then show ?thesis using obs by (simp add: xlate6to4ICMPError_def)
  next
    case em: (Inr em)
    obtain em0 where e0: "view6 em0" "em = em0\<lparr>dataLen := min (dataLen em0) 528\<rparr>" using embedded6_view [OF em] by blast
    have le: "dataLen em \<le> 528" "dataOff em + dataLen em \<le> length (raw em)" using e0 view6D [OF e0(1)] by auto
    show ?thesis
    proof (cases "icmpError6to4 t p")
      case (Inl r1)
      then show ?thesis using em obs by (simp add: xlate6to4ICMPError_def)
    next
      case o4: (Inr o4)
      obtain s1 w1 where m1: "map6to4 t (gslice 8 24 (pip em)) False w = (s1, w1)" by (metis prod.exhaust)
      obtain s2 w2 where m2: "map6to4 t (gslice 24 40 (pip em)) False w1 = (s2, w2)" by (metis prod.exhaust)
      have w2: "wout w2 = wout w" using wout_map6to4 [OF m1] wout_map6to4 [OF m2] by simp
      show ?thesis
      proof (cases "\<exists>a b. s1 = Inr a \<and> s2 = Inr b")
        case False
        then have "xlate6to4ICMPError t out p w = obs_event (event p KindDrop ReasonEmbeddedUnmappable) w2"
          using em o4 m1 m2 by (auto simp: xlate6to4ICMPError_def split: sum.splits)
        then show ?thesis using obs w2 by simp
      next
        case True
        then obtain a b where s: "s1 = Inr a" "s2 = Inr b" by blast
        have la: "length a = 4" "length b = 4" using map6to4_length m1 m2 s by blast+
        obtain ident fo wh where f: "fields6to4 em (int (ip6PayloadLen (pip em)) - int (hdrLen em)) w2 = (ident, fo, wh)" by (metis prod.exhaust)
        obtain inner where h: "header6to4 em (replicate 20 0) (int (ip6PayloadLen (pip em)) - int (hdrLen em)) a b w2 = (inner, wh)"
          and li: "length inner = 20" using header6to4_eq [OF _ la f] la by simp
        have wh: "wout wh = wout w" using fields6to4_world [OF f] w2 by simp
        obtain r em' where pl: "payload6to4 t em inner = (r, em')" by (metis prod.exhaust)
        note k = payload6to4_keeps [OF pl]
        obtain s3 w3 where m3: "map6to4 t (gslice 8 24 (pip p)) False wh = (s3, w3)" by (metis prod.exhaust)
        define src4 where "src4 = (case s3 of Inl _ \<Rightarrow> local4 t | Inr a \<Rightarrow> a)"
        define w3' where "w3' = (case s3 of Inl _ \<Rightarrow> obs_event (event p KindICMP ReasonSynthesisedSource) w3 | Inr a \<Rightarrow> w3)"
        have pair: "(case s3 of Inl _ \<Rightarrow> (local4 t, obs_event (event p KindICMP ReasonSynthesisedSource) w3) | Inr a \<Rightarrow> (a, w3)) = (src4, w3')"
          by (simp add: src4_def w3'_def split: sum.splits)
        have ls: "length src4 = 4" using map6to4_length m3 l4 by (auto simp: src4_def split: sum.splits)
        have w3: "wout w3' = wout w" using wout_map6to4 [OF m3] wh by (auto simp: w3'_def split: sum.splits)
        obtain s4 w4 where m4: "map6to4 t (gslice 24 40 (pip p)) False w3' = (s4, w4)" by (metis prod.exhaust)
        have w4: "wout w4 = wout w" using wout_map6to4 [OF m4] w3 by simp
        have eq: "xlate6to4ICMPError t out p w =
          (if r \<noteq> ReasonNone then obs_event (event p KindDrop ReasonEmbeddedUntranslatable) wh
           else case s4 of Inl _ \<Rightarrow> obs_event (event p KindDrop ReasonDestinationUnmappable) w4
             | Inr dst4 \<Rightarrow> case out_packet out (20 + 8 + 20 + dataLen em') w4 of (None, w) \<Rightarrow> w
               | (Some b, w) \<Rightarrow> (case icmpError4_packet p src4 dst4 o4 (put16 inner 10 (checksum inner 0)) em' b w of
                    (b, w) \<Rightarrow> obs_translated 6 (40 + hdrLen p + dataLen p) (out_fill out b w)))"
          unfolding xlate6to4ICMPError_def em o4 sum.case m1 m2 prod.case s Let_def h pl m3 pair m4 ..
        have "emits ?P w (xlate6to4ICMPError t out p w)" if r: "r = ReasonNone" and s4: "s4 = Inr dst4" for dst4
        proof -
          have "length dst4 = 4" using map6to4_length m4 s4 by blast
          moreover have "ok (wout w4)" using w w4 by simp
          moreover have "length (pdata em') = dataLen em'" "dataLen em' \<le> 528" using k le by (simp_all add: pdata_def)
          ultimately show ?thesis
            using lim li by (simp add: eq r s4, intro emits_wout [OF icmpError4_emit [OF _ ls] w4]) simp_all
        qed
        then show ?thesis using eq obs wh w4 by (cases s4; cases "r = ReasonNone") simp_all
      qed
    qed
  qed
qed

end

subsection \<open>The handlers\<close>

context emitter_laws
begin

lemma handleIPv4_good:
  assumes w: "ok (wout w)" and l: "length (local4 t) = 4" "length (local6 t) = 16"
    and mtu: "1280 \<le> MTU (cfg t)" "1280 \<le> OfflinkMTU (cfg t)" "MTU (cfg t) \<le> 65535"
    and lim: "MTU (cfg t) \<le> limit" "int (length b) \<le> limit"
  shows "\<exists>w'. handleIPv4 t out b w = Some w' \<and> emits (good_out limit) w w'"
proof -
  obtain r p where p: "parseIPv4 (new_pkt b) = (r, p)" by (metis prod.exhaust)
  have obs: "emits (good_out limit) w w" using w by (rule emits_refl)
  show ?thesis
  proof (cases "r = ReasonNone")
    case False
    then show ?thesis using p obs by (simp add: handleIPv4_def)
  next
    case True
    then have v: "view4 p" and b: "raw p = b" using parseIPv4_view4 p by auto
    have err: "emits (good_out limit) w (sendICMPv4Error t out a c x p (obs_event e w))" for a c x e
      using w v l mtu lim by (intro emits_wout [OF sendICMPv4Error_good]) simp_all
    have host: "proto p = protoICMP \<Longrightarrow> emits (good_out limit) w (hostICMPv4 t out p w)"
      using w v b lim by (intro hostICMPv4_good) simp_all
    have icmp: "emits (good_out limit) w (xlate4to6ICMPError t out p w)"
      using emits_mono [OF xlate4to6ICMPError_good [OF w v l(2), of limit]] mtu lim by simp
    note data = xlate4to6Data_good [OF w v l(1) mtu lim(1)]
    show ?thesis using p True obs err host icmp data by (simp add: handleIPv4_def)
  qed
qed

lemma handleIPv6_good:
  assumes w: "ok (wout w)" and l: "length (local4 t) = 4" "length (local6 t) = 16"
    and mtu: "1280 \<le> MTU (cfg t)" "MTU (cfg t) \<le> 65535"
    and lim: "MTU (cfg t) \<le> limit" "int (length b) \<le> limit"
  shows "emits (good_out limit) w (handleIPv6 t out b w)"
proof -
  obtain r sp si p where p: "parseIPv6 (new_pkt b) = ((r, sp, si), p)" by (metis prod.exhaust)
  have obs: "emits (good_out limit) w w" using w by (rule emits_refl)
  show ?thesis
  proof (cases "r \<in> {ReasonNone, ReasonRoutingHeaderSegmentsLeft}")
    case False
    then show ?thesis using p obs by (simp add: handleIPv6_def)
  next
    case True
    then have v: "view6 p" and b: "raw p = b" using parseIPv6_view6 p by blast+
    have err: "emits (good_out limit) w (sendICMPv6Error t out a c x p (obs_event e w))" for a c x e
      using w v l mtu lim by (intro emits_wout [OF sendICMPv6Error_good]) simp_all
    have host: "proto p = protoICMPv6 \<Longrightarrow> emits (good_out limit) w (hostICMPv6 t out p w)"
      using w v b lim by (intro hostICMPv6_good) simp_all
    have icmp: "emits (good_out limit) w (xlate6to4ICMPError t out p w)"
      using emits_mono [OF xlate6to4ICMPError_good [OF w v l(1), of limit]] mtu lim by simp
    note data = xlate6to4Data_good [OF w v l(2) mtu lim(1)]
    show ?thesis using p obs err host icmp data by (simp add: handleIPv6_def)
  qed
qed

lemma Translate_good:
  assumes w: "ok (wout w)" and l: "length (local4 t) = 4" "length (local6 t) = 16"
    and mtu: "1280 \<le> MTU (cfg t)" "1280 \<le> OfflinkMTU (cfg t)" "MTU (cfg t) \<le> 65535"
    and lim: "MTU (cfg t) \<le> limit" "int (length b) \<le> limit"
  shows "\<exists>w'. Translate t b out w = Some w' \<and> emits (good_out limit) w w'"
  using handleIPv4_good [OF assms] handleIPv6_good [OF w l mtu(1,3) lim] emits_refl [OF w]
  by (simp add: Translate_def)

text \<open>An ICMP error is translated or dropped, never answered.\<close>

lemma icmp4_error_not_answered:
  assumes w: "ok (wout w)" and l: "length (local6 t) = 16"
    and p: "parseIPv4 (new_pkt b) = (ReasonNone, p)" "proto p = protoICMP" "picmp p ! 0 \<noteq> 8" "picmp p ! 0 \<noteq> 0"
  shows "\<exists>w'. handleIPv4 t out b w = Some w' \<and> emits wf_ip6 w w'"
proof -
  have v: "view4 p" using parseIPv4_view4 p(1) by blast
  have "emits wf_ip6 w (xlate4to6ICMPError t out p w)"
    using emits_mono [OF xlate4to6ICMPError_good [OF w v l, of 1280]] by simp
  then show ?thesis using p emits_refl [OF w]
    by (simp add: handleIPv4_def hostICMPv4_def sendICMPv4Error_def Let_def)
qed

lemma icmp6_error_not_answered:
  assumes w: "ok (wout w)" and l: "length (local4 t) = 4"
    and p: "parseIPv6 (new_pkt b) = ((r, sp, si), p)" "r \<in> {ReasonNone, ReasonRoutingHeaderSegmentsLeft}"
      "proto p = protoICMPv6" "picmp p ! 0 \<noteq> 128" "picmp p ! 0 \<noteq> 129"
  shows "emits wf_ip4 w (handleIPv6 t out b w)"
proof -
  have v: "view6 p" using parseIPv6_view6 [OF p(1,2)] by blast
  have "emits wf_ip4 w (xlate6to4ICMPError t out p w)"
    using emits_mono [OF xlate6to4ICMPError_good [OF w v l, of 576]] by simp
  then show ?thesis using p emits_refl [OF w]
    by (simp add: handleIPv6_def hostICMPv6_def sendICMPv6Error_def Let_def)
qed

end

subsection \<open>The translator returns\<close>

text \<open>For any emitter, whatever it answers.\<close>

lemma fragments4to6_returns:
  assumes "0 < k"
  shows "fragments4to6 out h fh mf k d off w \<noteq> None"
proof (induction d arbitrary: h fh off w rule: length_induct)
  case (1 d)
  show ?case
  proof (cases "d = []")
    case True
    then show ?thesis by (simp add: fragments4to6.simps)
  next
    case False
    define n where "n = min (length d) (nat k)"
    have "length (drop n d) < length d" using False assms by (simp add: n_def)
    then show ?thesis
      using "1.IH" assms unfolding fragments4to6_step [OF False less_imp_le [OF assms]] n_def Let_def
      by (auto split: prod.splits option.splits)
  qed
qed

lemma xlate4to6Data_returns:
  assumes "1280 \<le> MTU (cfg t)" "1280 \<le> OfflinkMTU (cfg t)"
  shows "xlate4to6Data t out p w \<noteq> None"
proof -
  define k where "k = ((if OfflinkMTU (cfg t) > MTU (cfg t) then MTU (cfg t) else OfflinkMTU (cfg t)) - int 40 - int 8) div 8 * 8"
  have "0 < k" using assms unfolding k_def by (simp split: if_split) linarith
  then have f: "(fragments4to6 out h fh mf k d off w = None) = False" for h fh mf d off w
    using fragments4to6_returns by blast
  show ?thesis unfolding xlate4to6Data_def Let_def k_def [symmetric]
    by (simp add: f split: prod.splits sum.splits option.splits)
qed

lemma Translate_returns:
  assumes "1280 \<le> MTU (cfg t)" "1280 \<le> OfflinkMTU (cfg t)"
  shows "Translate t b out w \<noteq> None"
proof -
  have f: "\<exists>y. xlate4to6Data t out p w = Some y" for p using xlate4to6Data_returns [OF assms] by auto
  show ?thesis by (simp add: f Translate_def handleIPv4_def split: prod.splits)
qed

lemma New_simps [simp]:
  "MTU (cfg (New c m)) = MTU c" "1280 \<le> OfflinkMTU (cfg (New c m))" "UDPChecksum (cfg (New c m)) = UDPChecksum c"
  "LocalAddr4 (cfg (New c m)) = LocalAddr4 c" "local6 (New c m) = As16 (LocalAddr6 c)" "local4 (New c m) = As4 (LocalAddr4 c)"
  "mapper (New c m) = m"
  by (simp_all add: New_def Let_def)

subsection \<open>Accepted data packets\<close>

text \<open>The packets the handlers pass on to \<open>xlate4to6Data\<close> and \<open>xlate6to4Data\<close>.\<close>

definition accepted4 :: "'m Translator \<Rightarrow> pkt \<Rightarrow> bool" where
  "accepted4 t p \<longleftrightarrow> pip p ! 8 \<noteq> 0 \<and> pip p ! 8 \<noteq> 1 \<and> verify (pip p) 0 \<and> hdrLen p + dataLen p = ip4TotalLen (pip p)
     \<and> (proto p = protoICMP \<longrightarrow> verify (pdata p) 0 \<and> (picmp p ! 0 = 8 \<or> picmp p ! 0 = 0))
     \<and> gslice 16 20 (pip p) \<noteq> local4 t"

definition accepted6 :: "'m Translator \<Rightarrow> pkt \<Rightarrow> bool" where
  "accepted6 t p \<longleftrightarrow> pip p ! 7 \<noteq> 0 \<and> pip p ! 7 \<noteq> 1 \<and> hdrLen p + dataLen p = ip6PayloadLen (pip p)
     \<and> (proto p = protoICMPv6 \<longrightarrow>
          verify (pdata p) (pseudo6 (gslice 8 24 (pip p)) (gslice 24 40 (pip p)) (int (dataLen p)) protoICMPv6)
          \<and> (picmp p ! 0 = 128 \<or> picmp p ! 0 = 129))
     \<and> gslice 24 40 (pip p) \<noteq> local6 t"

lemma Translate_data4:
  assumes "parseIPv4 (new_pkt b) = (ReasonNone, p)" "accepted4 t p"
  shows "Translate t b out w = xlate4to6Data t out p w"
proof -
  have v: "view4 p" "raw p = b" using parseIPv4_view4 [OF assms(1)] by auto
  then have "b \<noteq> []" "drop_bit 4 (b ! 0) = 4" using view4D [OF v(1)] by (auto simp: view4_def family_def)
  moreover have "icmpOff p \<noteq> None \<longleftrightarrow> proto p = protoICMP" using v(1) by (auto simp: view4_def)
  ultimately show ?thesis using assms by (auto simp: Translate_def handleIPv4_def accepted4_def)
qed

lemma Translate_data6:
  assumes "parseIPv6 (new_pkt b) = ((ReasonNone, sp, si), p)" "accepted6 t p"
  shows "Translate t b out w = Some (xlate6to4Data t out p w)"
proof -
  have v: "view6 p" "raw p = b" using parseIPv6_view6 [OF assms(1)] by auto
  then have "b \<noteq> []" "drop_bit 4 (b ! 0) = 6" using view6D [OF v(1)] by (auto simp: view6_def family_def)
  moreover have "icmpOff p \<noteq> None \<longleftrightarrow> proto p = protoICMPv6" using v(1) by (auto simp: view6_def)
  ultimately show ?thesis using assms by (auto simp: Translate_def handleIPv6_def accepted6_def)
qed

end
