(* ===== verification/Engine.thy ===== *)
theory Engine
  imports Safety
begin

text \<open>
  \<^verbatim>\<open>src/internal/tundev/engine.go\<close>: the emitter that hands out output buffers
  from a free list. A buffer is its whole backing array (\<open>Offset + maxPacket\<close> bytes)
  with the length of the slice kept in \<open>out\<close>.
\<close>

abbreviation (input) Offset :: nat where "Offset \<equiv> 16"
abbreviation (input) maxPacket :: nat where "maxPacket \<equiv> 65535"

record emitter =
  eOut :: "(byte list \<times> nat) list"
  eFree :: "byte list list"

definition emitter_Packet :: "nat \<Rightarrow> emitter \<Rightarrow> byte list option \<times> emitter" where
  "emitter_Packet n m =
     (if n > maxPacket then (None, m)
      else
        let (buf, m) =
              (if eFree m \<noteq> [] then (last (eFree m), m\<lparr>eFree := butlast (eFree m)\<rparr>)
               else (replicate (Offset + maxPacket) 0, m))
        in (Some (gslice Offset (Offset + n) buf), m\<lparr>eOut := eOut m @ [(buf, Offset + n)]\<rparr>))"

text \<open>Writes through the slice the last call of \<^verbatim>\<open>Packet\<close> returned.\<close>

definition emitter_Fill :: "byte list \<Rightarrow> emitter \<Rightarrow> emitter" where
  "emitter_Fill b m =
     (if eOut m = [] then m
      else m\<lparr>eOut := butlast (eOut m) @ [(copy_at Offset b (fst (last (eOut m))), snd (last (eOut m)))]\<rparr>)"

definition recycle :: "emitter \<Rightarrow> emitter" where
  "recycle m = m\<lparr>eFree := eFree m @ map fst (eOut m), eOut := []\<rparr>"

definition tun_emitter :: "emitter Emitter" where
  "tun_emitter = \<lparr>emPacket = emitter_Packet, emFill = emitter_Fill\<rparr>"

text \<open>The packets of the next write, and the invariant of the free list.\<close>

definition em_sent :: "emitter \<Rightarrow> byte list list" where
  "em_sent m = map (\<lambda>(buf, l). gslice Offset l buf) (eOut m)"

definition em_ok :: "emitter \<Rightarrow> bool" where
  "em_ok m \<longleftrightarrow> list_all (\<lambda>b. length b = Offset + maxPacket) (eFree m)
     \<and> list_all (\<lambda>(b, l). length b = Offset + maxPacket \<and> Offset \<le> l \<and> l \<le> Offset + maxPacket) (eOut m)"

lemma em_ok_Packet:
  assumes "em_ok m" "emitter_Packet n m = (Some b, m')"
  shows "length b = n \<and> em_sent m' = em_sent m @ [b] \<and> em_ok m'"
proof -
  have n: "n \<le> 65535" using assms(2) by (auto simp: emitter_Packet_def split: if_splits)
  show ?thesis
  proof (cases "eFree m = []")
    case True
    then show ?thesis using assms n by (auto simp: emitter_Packet_def em_ok_def em_sent_def Let_def)
  next
    case False
    then obtain fs f where "eFree m = fs @ [f]" by (metis rev_exhaust)
    then show ?thesis using assms n by (auto simp: emitter_Packet_def em_ok_def em_sent_def Let_def)
  qed
qed

lemma em_ok_Fill:
  assumes "em_ok m" "em_sent m = ps @ [b]" "length b' = length b"
  shows "em_sent (emitter_Fill b' m) = ps @ [b'] \<and> em_ok (emitter_Fill b' m)"
proof -
  from assms(2) obtain os buf l where o: "eOut m = os @ [(buf, l)]"
    by (cases "eOut m" rule: rev_cases) (auto simp: em_sent_def)
  then have l: "length buf = 65551" "16 \<le> l" "l \<le> 65551" using assms(1) by (auto simp: em_ok_def)
  then have "length b' = l - 16" using assms(2,3) o by (auto simp: em_sent_def)
  then have "gslice 16 l (copy_at 16 b' buf) = b'" using l by (simp add: gslice_def copy_at_def)
  then show ?thesis using assms(1,2) o l by (auto simp: emitter_Fill_def em_sent_def em_ok_def)
qed

interpretation tun: emitter_laws tun_emitter em_sent em_ok
proof
  fix m n b m'
  assume "em_ok m" "emPacket tun_emitter n m = (Some b, m')"
  then show "length b = n \<and> em_sent m' = em_sent m @ [b] \<and> em_ok m'" by (simp add: tun_emitter_def em_ok_Packet)
next
  fix m n m'
  assume "em_ok m" "emPacket tun_emitter n m = (None, m')"
  then show "65535 < n \<and> em_sent m' = em_sent m \<and> em_ok m'"
    by (auto simp: tun_emitter_def emitter_Packet_def Let_def split: if_splits prod.splits)
next
  fix m ps b b'
  assume "em_ok m" "em_sent m = ps @ [b]" "length (b' :: byte list) = length b"
  then show "em_sent (emFill tun_emitter b' m) = ps @ [b'] \<and> em_ok (emFill tun_emitter b' m)"
    by (simp add: tun_emitter_def em_ok_Fill)
qed

lemma em_ok_recycle: "em_ok m \<Longrightarrow> em_ok (recycle m) \<and> em_sent (recycle m) = []"
  by (auto simp: em_ok_def em_sent_def recycle_def list_all_iff)

end
