(* ===== verification/Delivery.thy ===== *)
theory Delivery
  imports Engine
begin

text \<open>
  The properties of \<^verbatim>\<open>Translator.Translate\<close> as a whole, with the emitter of the packet
  loop: what is sent for a valid packet, that the call returns, that everything sent is a
  well-formed packet of bounded size, and that ICMP errors are not answered.
\<close>

subsection \<open>The packets sent\<close>

lemma payload4to6_accepts:
  assumes "proto p = protoTCP \<longrightarrow> 20 \<le> dataLen p" "proto p = protoUDP \<longrightarrow> 8 \<le> dataLen p \<and> get16 (pdata p) 6 \<noteq> 0"
  obtains p' where "payload4to6 t p h = (ReasonNone, p')"
proof -
  have "fst (payload4to6 t p h) = ReasonNone" using assms by (auto simp: payload4to6_def Let_def)
  then show ?thesis using that [of "snd (payload4to6 t p h)"] by (metis prod.collapse)
qed

lemma payload6to4_accepts:
  assumes "first6 p \<and> proto p = protoTCP \<longrightarrow> 20 \<le> dataLen p"
    and "first6 p \<and> proto p = protoUDP \<longrightarrow> 8 \<le> dataLen p \<and> get16 (pdata p) 6 \<noteq> 0"
  obtains p' where "payload6to4 t p h = (ReasonNone, p')"
proof -
  have "fst (payload6to4 t p h) = ReasonNone" using assms by (auto simp: payload6to4_def first6_def Let_def)
  then show ?thesis using that [of "snd (payload6to4 t p h)"] by (metis prod.collapse)
qed

lemma view4_family:
  assumes "view4 p"
  shows "raw p \<noteq> [] \<and> drop_bit 4 (raw p ! 0) = 4"
  using assms view4D [OF assms] by (auto simp: view4_def family_def)

lemma view6_family:
  assumes "view6 p"
  shows "raw p \<noteq> [] \<and> drop_bit 4 (raw p ! 0) = 6"
  using assms view6D [OF assms] by (auto simp: view6_def family_def)

lemma view4_addrs:
  assumes "view4 p"
  shows "gslice 12 16 (pip p) = gslice 12 16 (raw p)" "gslice 16 20 (pip p) = gslice 16 20 (raw p)" "pip p ! 8 = raw p ! 8"
    "ip4FlagsOff (pip p) = ip4FlagsOff (raw p)" "ip4Ident (pip p) = ip4Ident (raw p)" "ip4TotalLen (pip p) = ip4TotalLen (raw p)"
    "pip p ! 1 = raw p ! 1"
  using view4_slices(3) [OF assms] view4D(1) [OF assms]
  by (auto simp: gslice_def drop_take min_def ip4FlagsOff_def ip4Ident_def ip4TotalLen_def get16_take)

lemma view6_addrs:
  assumes "view6 p"
  shows "gslice 8 24 (pip p) = gslice 8 24 (raw p)" "gslice 24 40 (pip p) = gslice 24 40 (raw p)" "pip p ! 7 = raw p ! 7"
    "ip6PayloadLen (pip p) = ip6PayloadLen (raw p)"
  using view6_slices(3) [OF assms]
  by (auto simp: gslice_def drop_take min_def ip6PayloadLen_def get16_take)

lemma hdr6_packet:
  fixes src dst d :: "byte list" and tc nh hl :: byte and len :: u16
  assumes "length src = 16" "length dst = 16"
  defines "q \<equiv> hdr6 tc len nh hl src dst @ d"
  shows "gslice 8 24 q = src" "gslice 24 40 q = dst" "q ! 6 = nh" "q ! 7 = hl" "drop 40 q = d"
  using assms by (simp_all add: slice_simps nth_append)

lemma hdr4_packet:
  fixes src dst d :: "byte list" and tos ttl pr :: byte and len ident fo :: u16
  assumes "length src = 4" "length dst = 4"
  defines "q \<equiv> seal 10 0 (hdr4 tos len ident fo ttl pr src dst) @ d"
  shows "gslice 12 16 q = src" "gslice 16 20 q = dst" "q ! 8 = ttl" "q ! 9 = pr" "drop 20 q = d"
    "get16 q 4 = ident" "get16 q 6 = fo"
proof -
  define H where "H = hdr4 tos len ident fo ttl pr src dst"
  have l: "length H = 20" using assms by (simp add: H_def)
  have g: "gslice i j (seal 10 0 H) = gslice i j H" if "12 \<le> i" for i j
    using that by (simp add: gslice_def seal_def put16_def)
  have "gslice 12 16 (seal 10 0 H) = src" "gslice 16 20 (seal 10 0 H) = dst" using g assms by (simp_all add: H_def)
  then show "gslice 12 16 q = src" "gslice 16 20 q = dst" using l by (simp_all add: q_def H_def [symmetric] slice_simps)
  show "q ! 8 = ttl" "q ! 9 = pr" "get16 q 4 = ident" "get16 q 6 = fo"
    by (simp_all add: q_def seal_def put16_def hdr4_def nth_append get16_def be16_hi_lo)
  show "drop 20 q = d" using l by (simp add: q_def H_def [symmetric])
qed

lemma echo_not_zero:
  assumes v: "view6 p" and r: "first6 p" "proto p = protoICMPv6" "payload6to4 t p h = (ReasonNone, p')"
    and nz: "picmp p ! 0 \<noteq> 128 \<Longrightarrow> picmp p ! 1 \<noteq> 0 \<or> (\<exists>x\<in>set (drop 4 (pdata p)). x \<noteq> 0)"
  shows "\<exists>x\<in>set (pdata p'). x \<noteq> 0"
proof -
  have io: "icmpOff p = Some (dataOff p)" "8 \<le> dataLen p" using view6D(5) [OF v r(2)] by simp_all
  obtain u ck where p': "pdata p' = put16 ((pdata p)[0 := u]) 2 ck" "picmp p ! 0 = 128 \<longrightarrow> u = 8"
    using payload6to4_icmp(2) [OF r] io by (auto simp: pdata_put_icmp pdata_set_icmpType)
  have ld: "length (pdata p) = dataLen p" using view6_slices [OF v] by simp
  show ?thesis
  proof (cases "picmp p ! 0 = 128")
    case True
    then have "pdata p' ! 0 = 8" "0 < length (pdata p')" using p' ld io by (simp_all add: put16_def)
    then show ?thesis using nth_mem [of 0 "pdata p'"] by (intro bexI [of _ "pdata p' ! 0"]) simp_all
  next
    case False
    have "drop 4 (pdata p') = drop 4 (pdata p)" using p' by (simp add: put16_def)
    moreover have "pdata p' ! 1 = picmp p ! 1" "pdata p' ! 1 \<in> set (pdata p')"
      using p' ld io picmp_pdata [OF io] nth_mem [of 1 "pdata p'"] by (simp_all add: put16_def)
    ultimately show ?thesis using nz [OF False] by (metis in_set_dropD)
  qed
qed

text \<open>
  The one message whose translated checksum is wrong: an echo reply with code, identifier,
  sequence number and data all zero. Its ICMPv4 checksum should be all ones, and is zero.
\<close>

definition zero_reply6 :: "pkt \<Rightarrow> bool" where
  "zero_reply6 p \<longleftrightarrow> proto p = protoICMPv6 \<and> picmp p ! 0 = 129 \<and> picmp p ! 1 = 0 \<and> list_all (\<lambda>x. x = 0) (drop 4 (pdata p))"

lemma be_sum_zeros: "list_all (\<lambda>x. x = 0) b \<Longrightarrow> be_sum b = 0"
  using be_sum_pos [of b] by (auto simp: list_all_iff)

lemma be_sum_icmp:
  assumes "4 \<le> length d" "list_all (\<lambda>x. x = 0) (drop 4 d)"
  shows "be_sum d = 256 * unat (d ! 0) + unat (d ! 1) + unat (get16 d 2)"
  using be_sum_drop2 [of 0 d] be_sum_drop2 [of 2 d] be_sum_zeros [OF assms(2)] assms(1) by (simp add: unat_get16 eval_nat_numeral del: add_2_eq_Suc')

lemma zero_reply_unverified:
  assumes v: "view6 p" "first6 p" and run: "payload6to4 t p h = (ReasonNone, p')" and z: "zero_reply6 p"
    and tot: "ip6PayloadLen (pip p) = hdrLen p + dataLen p"
    and ok: "verify (pdata p) (pseudo6 (gslice 8 24 (pip p)) (gslice 24 40 (pip p)) (int (dataLen p)) protoICMPv6)"
  shows "\<not> verify (pdata p') 0"
proof -
  note ld = view6_slices [OF v(1)]
  have ic: "proto p = protoICMPv6" "picmp p ! 0 = 129" "picmp p ! 1 = 0" "list_all (\<lambda>x. x = 0) (drop 4 (pdata p))"
    using z by (simp_all add: zero_reply6_def)
  have io: "icmpOff p = Some (dataOff p)" "8 \<le> dataLen p" using view6D(5) [OF v(1) ic(1)] by simp_all
  have pi: "picmp p = take 8 (pdata p)" using io by (rule picmp_pdata)
  define ps where "ps = pseudo6 (gslice 8 24 (pip p)) (gslice 24 40 (pip p)) (int (dataLen p)) protoICMPv6"
  define x :: u64 where "x = ucast (NOT (get16 (pdata p) 2)) + ucast (NOT (fold_acc ps)) + ucast (NOT (0x8100 :: u16))"
  define ck where "ck = NOT (fold_acc x)"
  have p': "pdata p' = put16 ((pdata p)[0 := 0]) 2 ck"
    using payload6to4_icmp(2) [OF v(2) ic(1) run] tot io ic(2)
    by (simp add: pi get16_take pdata_put_icmp pdata_set_icmpType ck_def x_def ps_def)
  have "(unat ck + (0 + 256 * unat (0 :: byte))) mod 65535 = (unat (get16 (pdata p) 2) + (unat ps + 256 * unat (129 :: byte))) mod 65535"
    unfolding ck_def x_def by (rule icmp6to4_ck) simp_all
  then have "unat ck mod 65535 = (unat (get16 (pdata p) 2) + (unat ps + 33024)) mod 65535" by simp
  moreover have dl: "dataLen p < 65536" using view6D [OF v(1)] by simp
  moreover have "unat ps < 1099511627776" unfolding ps_def using ld dl by (intro pseudo6_slices) simp_all
  with dl have "ck_range (pdata p) ps" using ld by (simp add: ck_range_def)
  then have "(unat ps + be_sum (pdata p)) mod 65535 = 0" using ok by (simp add: verify_iff ps_def)
  moreover have "be_sum (pdata p) = 256 * 129 + unat (get16 (pdata p) 2)" using be_sum_icmp [OF _ ic(4)] ic io ld pi by simp
  ultimately have "unat ck mod 65535 = 0" by (simp add: ac_simps)
  moreover have "0 < unat x" unfolding x_def by (simp add: unat_u64_add unat_not_u16)
  then have "unat ck < 65535" by (simp add: ck_def unat_not_u16 unat_fold_acc oc_val_def)
  ultimately have "ck = 0" by (simp add: unat_eq_zero)
  moreover have "be_sum (pdata p') = unat ck" unfolding p' using io ld ic pi by (subst be_sum_icmp) (simp_all add: put16_def get16_def be16_hi_lo)
  moreover have "ck_range (pdata p') 0" using ld dl by (simp add: p' ck_range_def)
  ultimately show ?thesis by (simp add: verify_iff)
qed

lemma frag_flag_bits:
  fixes x :: u16
  shows "drop_bit 3 x AND 0x4000 = 0" "drop_bit 3 x AND 0x2000 = 0" "drop_bit 3 x AND 0x1fff = drop_bit 3 x"
    "(drop_bit 3 x OR 0x2000) AND 0x4000 = 0" "(drop_bit 3 x OR 0x2000) AND 0x2000 = 0x2000"
    "(drop_bit 3 x OR 0x2000) AND 0x1fff = drop_bit 3 x"
proof -
  have n: "(0x4000 :: u16) = 2 ^ 14" "(0x2000 :: u16) = 2 ^ 13" "(0x1fff :: u16) = mask 13" by (simp_all add: mask_eq_exp_minus_1)
  have bn: "bit (0x4000 :: u16) i \<longleftrightarrow> i = 14" "bit (0x2000 :: u16) i \<longleftrightarrow> i = 13" "bit (0x1fff :: u16) i \<longleftrightarrow> i < 13" for i
    by (simp_all only: n bit_exp_iff bit_mask_iff) (auto simp: possible_bit_def)
  have t: "bit (drop_bit 3 x) i \<Longrightarrow> i < 13" for i using bit_imp_le_length [of x "3 + i"] by (simp add: bit_drop_bit_eq)
  note b = bit_and_iff bit_or_iff bn bit_0_eq bot_apply
  show "drop_bit 3 x AND 0x4000 = 0" "drop_bit 3 x AND 0x2000 = 0" "drop_bit 3 x AND 0x1fff = drop_bit 3 x"
    by (rule bit_word_eqI, simp only: b, use t in fastforce)+
  show "(drop_bit 3 x OR 0x2000) AND 0x4000 = 0" "(drop_bit 3 x OR 0x2000) AND 0x1fff = drop_bit 3 x"
    by (rule bit_word_eqI, simp only: b, use t in fastforce)+
  show "(drop_bit 3 x OR 0x2000) AND 0x2000 = 0x2000" by (rule bit_word_eqI) (simp only: b, blast)
qed
lemma fields6to4_meaning:
  assumes "fields6to4 p (int (dataLen p)) w = (ident, fo, w')"
  shows "if fragOff p = None then fo AND 0x3fff = 0 \<and> (fo AND ip4FlagDF \<noteq> 0 \<longleftrightarrow> 1280 < hdrLen p + dataLen p)
    else ident = ucast (fragIdent (pfrag p)) \<and> fo AND ip4FlagDF = 0 \<and> fo AND ip4OffMask = drop_bit 3 (fragOffFlags (pfrag p))
      \<and> (fo AND ip4FlagMF \<noteq> 0 \<longleftrightarrow> fragOffFlags (pfrag p) AND ip6FragMF \<noteq> 0)"
proof (cases "fragOff p = None")
  case True
  then show ?thesis using assms by (auto simp: fields6to4_def split: if_split_asm)
next
  case False
  show ?thesis using assms False frag_flag_bits [of "fragOffFlags (pfrag p)"] by (auto simp: fields6to4_def Let_def split: if_split_asm)
qed

lemma payload6to4_checksum:
  assumes v: "view6 p" and run: "payload6to4 t p h = (ReasonNone, p')" and a: "accepted6 t p" and h: "length h = 20"
    and udp: "first6 p \<and> proto p = protoUDP \<longrightarrow> 8 \<le> dataLen p \<and> get16 (pdata p) 6 \<noteq> 0"
    and sum: "first6 p \<longrightarrow> transport_ok6 (gslice 8 24 (pip p)) (gslice 24 40 (pip p)) (proto p) (pdata p)"
  shows "if first6 p then transport_ok4 (gslice 12 16 h) (gslice 16 20 h) (proto6to4 (proto p)) (pdata p') \<longleftrightarrow> \<not> zero_reply6 p
    else pdata p' = pdata p"
proof (cases "first6 p")
  case True
  have tot: "ip6PayloadLen (pip p) = hdrLen p + dataLen p" "proto p = protoICMPv6 \<Longrightarrow> picmp p ! 0 = 128 \<or> picmp p ! 0 = 129"
    using a by (simp_all add: accepted6_def)
  note ld = view6_slices [OF v]
  show ?thesis
  proof (cases "zero_reply6 p")
    case z: True
    then have i: "proto p = protoICMPv6" by (simp add: zero_reply6_def)
    then have "\<not> verify (pdata p') 0" using zero_reply_unverified [OF v True run z tot(1)] a by (simp add: accepted6_def)
    then show ?thesis using True z i by (simp add: transport_ok4_def proto6to4_def)
  next
    case False
    have "\<exists>x\<in>set (pdata p' @ []). x \<noteq> 0" if i: "proto p = protoICMPv6"
      using echo_not_zero [OF v True i run] False tot(2) i by (auto simp: zero_reply6_def list_all_iff)
    then show ?thesis using payload6to4_ok [OF v h True run, of "[]"] tot udp sum True False ld view6D [OF v] by simp
  qed
qed (use run in \<open>auto simp: payload6to4_def first6_def Let_def split: if_splits\<close>)

lemma length_chunk_prefix:
  assumes "i \<le> length (chunks k mf d off)" "i < length (chunks k mf d off) \<or> i * k \<le> length d"
  shows "length (concat (map (snd \<circ> snd) (take i (chunks k mf d off)))) = i * k"
  using assms
proof (induction i)
  case (Suc i)
  then have "i < length (chunks k mf d off)" by simp
  note n = nth_chunks [OF this]
  have "(Suc i) * k \<le> length d"
    using Suc.prems nth_chunks [of "Suc i" k mf d off] by auto
  then show ?case using Suc n by (simp add: take_Suc_conv_app_nth)
qed simp

text \<open>
  The fragments of a payload, as packets: the payload is the concatenation of theirs, each
  is at the offset where the previous ones end, and only the last one may end the datagram.
\<close>

lemma fragments_reassemble:
  fixes tc hl nh :: byte and ident :: u32 and mf :: bool
  assumes l: "length src = 16" "length dst = 16" and k: "0 < k" "8 dvd k" "48 + k \<le> 65535"
    and off: "8 dvd off" "off + length d \<le> 65535"
  defines "ps \<equiv> map (frag_packet tc hl src dst nh ident) (chunks k mf d off)"
  shows "concat (map (drop 48) ps) = d" "i < length ps \<Longrightarrow> let q = ps ! i in
      wf_ip6 q \<and> length q \<le> 48 + k \<and> gslice 8 24 q = src \<and> gslice 24 40 q = dst
      \<and> q ! 6 = protoFrag \<and> q ! 7 = hl \<and> q ! 40 = nh \<and> get32 q 44 = ident
      \<and> unat (get16 q 42 AND ip6FragMask) = off + length (concat (map (drop 48) (take i ps)))
      \<and> (get16 q 42 AND ip6FragMF \<noteq> 0 \<longleftrightarrow> Suc i < length ps \<or> mf)"
proof -
  let ?c = "chunks k mf d off"
  have wl: "length (word4 ident) = 4" by (simp add: word4_def)
  have dr: "drop 48 (frag_packet tc hl src dst nh ident c) = snd (snd c)" for c
    using l wl by (cases c) (simp add: frag_packet_def)
  have mp: "map (drop 48) (take i ps) = map (snd \<circ> snd) (take i ?c)" for i
    unfolding ps_def by (simp only: take_map [symmetric] map_map comp_def dr)
  have "map (drop 48) ps = map (snd \<circ> snd) ?c" unfolding ps_def by (simp only: map_map comp_def dr)
  then show "concat (map (drop 48) ps) = d" by (simp only: concat_chunks [OF k(1)])
  assume "i < length ps"
  have lps: "length ps = length ?c" by (simp add: ps_def)
  then have i: "i < length ?c" using \<open>i < length ps\<close> by simp
  note n = nth_chunks [OF i]
  define d' where "d' = take k (drop (i * k) d)"
  have q: "ps ! i = frag_packet tc hl src dst nh ident (off + i * k, Suc i < length ?c \<or> mf, d')"
    using n i by (simp add: ps_def d'_def)
  have ld: "length d' \<le> k" "i * k + length d' \<le> length d" using n by (auto simp: d'_def)
  then have o: "8 dvd off + i * k" "off + i * k + length d' \<le> 65535" "8 + length d' \<le> 65535" using off k by auto
  have "length (concat (map (drop 48) (take i ps))) = i * k" using length_chunk_prefix [of i k mf d off] i by (simp add: mp)
  then show "let q = ps ! i in
      wf_ip6 q \<and> length q \<le> 48 + k \<and> gslice 8 24 q = src \<and> gslice 24 40 q = dst
      \<and> q ! 6 = protoFrag \<and> q ! 7 = hl \<and> q ! 40 = nh \<and> get32 q 44 = ident
      \<and> unat (get16 q 42 AND ip6FragMask) = off + length (concat (map (drop 48) (take i ps)))
      \<and> (get16 q 42 AND ip6FragMF \<noteq> 0 \<longleftrightarrow> Suc i < length ps \<or> mf)"
    using frag_packet_fields [OF l o] length_frag_packet [OF l] ld(1) by (simp add: q lps Let_def)
qed

subsection \<open>An example translator\<close>

text \<open>A mapper for the well-known prefix, a configuration and some packets to run the translator on.\<close>

definition wkp_mapper :: "unit Mapper" where
  "wkp_mapper =
     \<lparr>MapIPv4ToIPv6 = \<lambda>a s. (case Embed (As16 (pAddr WellKnownPrefix)) 96 (As4 a) of Inl _ \<Rightarrow> Inl ErrDrop | Inr b \<Rightarrow> Inr (AddrFrom16 b), s),
      MapIPv6ToIPv4 = \<lambda>a allocate s. (case Extract (As16 a) 96 of Inl _ \<Rightarrow> Inl ErrDrop | Inr b \<Rightarrow> Inr (AddrFrom4 b), s)\<rparr>"

definition ex_cfg :: Config where
  "ex_cfg = \<lparr>LocalAddr4 = IPv4 0xc0000001, LocalAddr6 = IPv6 0xfd000000000000000000000000000001, MTU = 1500, OfflinkMTU = 1280, UDPChecksum = UDPChecksumDrop\<rparr>"

definition ex_world :: "(unit, emitter) world" where
  "ex_world = \<lparr>wmapper = (), wout = \<lparr>eOut = [], eFree = []\<rparr>, wtrace = [], wrand = \<lambda>_. 0\<rparr>"

definition ex_echo4 :: "byte list" where
  "ex_echo4 = [0x45, 0, 0, 28, 0, 0, 0, 0, 64, 1, 0x8e, 0xa5, 192, 0, 2, 1, 198, 51, 100, 7, 8, 0, 0xf7, 0xfd, 0, 1, 0, 1]"

definition ex_frag4 :: "byte list" where
  "ex_frag4 = [0x45, 0, 0, 28, 0x12, 0x34, 0, 1, 64, 17, 124, 96, 192, 0, 2, 1, 198, 51, 100, 7, 1, 2, 3, 4, 5, 6, 7, 8]"

definition ex_reply6 :: "byte list" where
  "ex_reply6 = [96, 0, 0, 0, 0, 8, 58, 64, 0, 100, 255, 155, 0, 0, 0, 0, 0, 0, 0, 0, 192, 0, 2, 1,
     0, 100, 255, 155, 0, 0, 0, 0, 0, 0, 0, 0, 198, 51, 100, 7, 129, 0, 146, 126, 0, 1, 0, 1]"

definition ex_unreach4 :: "byte list" where
  "ex_unreach4 = [0x45, 0, 0, 28, 0, 0, 0, 0, 64, 1, 0x8e, 0xa5, 192, 0, 2, 1, 198, 51, 100, 7, 3, 1, 0xfc, 0xfe, 0, 0, 0, 0]"

definition ex_unreach6 :: "byte list" where
  "ex_unreach6 = [96, 0, 0, 0, 0, 8, 58, 64, 0, 100, 255, 155, 0, 0, 0, 0, 0, 0, 0, 0, 192, 0, 2, 1,
     0, 100, 255, 155, 0, 0, 0, 0, 0, 0, 0, 0, 198, 51, 100, 7, 1, 0, 0, 0, 0, 0, 0, 0]"

lemma map6to4_wkp:
  "map6to4 (New c wkp_mapper) a al (w :: (unit, 'e) world) =
     (case Extract (As16 (AddrFrom16 (take 16 a))) 96 of Inl _ \<Rightarrow> Inl ErrDrop | Inr b \<Rightarrow> Inr (As4 (AddrFrom4 b)), w)"
  by (simp add: map6to4_def wkp_mapper_def AddrFrom4_def split: sum.splits)

lemma ex_simps:
  "em_ok (wout ex_world)" "em_sent (wout ex_world) = []" "wtrace ex_world = []" "MTU ex_cfg = 1500" "LocalAddr4 ex_cfg = IPv4 0xc0000001"
  by (simp_all add: ex_world_def em_ok_def em_sent_def ex_cfg_def)

lemma map4to6_wkp: 
  "map4to6 (New c wkp_mapper) a (w :: (unit, 'e) world) = (case Embed (As16 (pAddr WellKnownPrefix)) 96 (As4 (AddrFrom4 (take 4 a))) of Inl _ \<Rightarrow> Inl ErrDrop | Inr b \<Rightarrow> Inr (As16 (AddrFrom16 b)), w)"
  by (simp add: map4to6_def wkp_mapper_def AddrFrom16_def split: sum.splits)

subsection \<open>Properties\<close>

text \<open>
  Claim C1. A valid IPv4 packet (header checksum right, complete, TTL above 1, not addressed
  to the translator; an ICMP packet is an echo; TCP and UDP headers complete and the UDP checksum
  present) that is no fragment and fits the interface, and whose addresses map, comes out as exactly one IPv6 packet, and is counted once. That
  packet is well formed, carries the mapped addresses, the hop limit decremented and the
  translated protocol, and its transport checksum verifies if that of the IPv4 packet did.
\<close>

theorem translate4to6_delivers:
  assumes ok: "em_ok (wout w)" and mtu: "1280 \<le> MTU c" "MTU c \<le> 65535"
    and p: "parseIPv4 (new_pkt b) = (ReasonNone, p)" "accepted4 (New c m) p" "plain4 (New c m) p" "\<not> too_big4 (New c m) p"
    and m1: "map4to6 (New c m) (gslice 16 20 b) w = (Inr dst6, w1)"
    and m2: "map4to6 (New c m) (gslice 12 16 b) w1 = (Inr src6, w2)"
    and tcp: "proto p = protoTCP \<longrightarrow> 20 \<le> dataLen p"
    and udp: "proto p = protoUDP \<longrightarrow> 8 \<le> dataLen p \<and> get16 (pdata p) 6 \<noteq> 0"
    and sum: "transport_ok4 (gslice 12 16 b) (gslice 16 20 b) (proto p) (pdata p)"
  shows "\<exists>w' q. Translate (New c m) b tun_emitter w = Some w' \<and> em_sent (wout w') = em_sent (wout w) @ [q]
     \<and> wtrace w' = wtrace w2 @ [Translated 4 (int (ip4TotalLen b))]
     \<and> wf_ip6 q \<and> length q = 40 + dataLen p \<and> gslice 8 24 q = src6 \<and> gslice 24 40 q = dst6
     \<and> q ! 7 = b ! 8 - 1 \<and> q ! 6 = proto4to6 (proto p)
     \<and> transport_ok6 src6 dst6 (proto4to6 (proto p)) (drop 40 q)"
proof -
  have v: "view4 p" and b: "raw p = b" using parseIPv4_view4 [OF p(1)] by auto
  note va = view4_addrs [OF v, unfolded b]
  have l: "length src6 = 16" "length dst6 = 16" using map4to6_length [OF m1] map4to6_length [OF m2] by simp_all
  have m: "map4to6 (New c m) (gslice 16 20 (pip p)) w = (Inr dst6, w1)" "map4to6 (New c m) (gslice 12 16 (pip p)) w1 = (Inr src6, w2)"
    using m1 m2 va by simp_all
  obtain p' where pl: "payload4to6 (New c m) p (out_header4 p src6 dst6) = (ReasonNone, p')"
    using payload4to6_accepts [OF tcp udp] by blast
  have lp: "length (pdata p') = dataLen p" using payload4to6_keeps [OF pl] view4D [OF v] by (simp add: pdata_def)
  have mtu': "1280 \<le> MTU (cfg (New c m))" "MTU (cfg (New c m)) \<le> 65535" using mtu by simp_all
  obtain w' where w': "xlate4to6Data (New c m) tun_emitter p w = Some w'"
      "em_sent (wout w') = em_sent (wout w) @ outs4 (New c m) p p' src6 dst6"
      "wtrace w' = wtrace w2 @ [Translated 4 (int (hdrLen p + dataLen p))]"
    using tun.xlate4to6Data_sends [OF ok v mtu'(1) New_simps(2) mtu'(2) m p(4) pl] by blast
  have tot: "hdrLen p + dataLen p = ip4TotalLen b" using p(2) va by (simp add: accepted4_def)
  have first: "ip4FlagsOff (pip p) AND ip4OffMask = 0"
  proof -
    have "ip4FlagsOff (pip p) AND ip4OffMask = (ip4FlagsOff (pip p) AND 0x3fff) AND ip4OffMask" by (simp add: and.assoc)
    then show ?thesis using p(3) by (simp add: plain4_def unfragmented4_def)
  qed
  have ck: "transport_ok6 src6 dst6 (proto4to6 (proto p)) (pdata p' @ [])"
    using payload4to6_ok [OF v _ first pl, of "[]"] p(2) udp sum l va view4_slices [OF v] view4D [OF v]
    by (simp add: out_header4_def accepted4_def)
  define q where "q = out_header4 p src6 dst6 @ pdata p'"
  have "em_sent (wout w') = em_sent (wout w) @ [q]" using w'(2) p(3) by (simp add: outs4_def q_def)
  moreover have "wf_ip6 q" unfolding q_def out_header4_def lp [symmetric] using l view4D [OF v] lp by (intro wf_ip6_packet) simp_all
  moreover note hdr6_packet [OF l, of "pip p ! 1" "word_of_nat (dataLen p)" "proto4to6 (proto p)" "pip p ! 8 - 1" "pdata p'",
      folded out_header4_def, folded q_def]
  moreover have "length q = 40 + dataLen p" using l lp by (simp add: q_def out_header4_def)
  ultimately show ?thesis using w'(1,3) ck tot va unfolding Translate_data4 [OF p(1,2)]
    by (intro exI [of _ w'] exI [of _ q]) simp
qed

theorem translate4to6_delivers_witness:
  "\<exists>w' q. Translate (New ex_cfg wkp_mapper) ex_echo4 tun_emitter ex_world = Some w' \<and> em_sent (wout w') = [q]
     \<and> wtrace w' = [Translated 4 28] \<and> wf_ip6 q \<and> length q = 48
     \<and> gslice 8 24 q = [0, 0x64, 0xff, 0x9b, 0, 0, 0, 0, 0, 0, 0, 0, 192, 0, 2, 1]
     \<and> gslice 24 40 q = [0, 0x64, 0xff, 0x9b, 0, 0, 0, 0, 0, 0, 0, 0, 198, 51, 100, 7]
     \<and> q ! 7 = 63 \<and> q ! 6 = protoICMPv6
     \<and> transport_ok6 (gslice 8 24 q) (gslice 24 40 q) protoICMPv6 (drop 40 q)"
proof -
  define p where "p = snd (parseIPv4 (new_pkt ex_echo4))"
  have f: "fst (parseIPv4 (new_pkt ex_echo4)) = ReasonNone" by code_simp
  then have p: "parseIPv4 (new_pkt ex_echo4) = (ReasonNone, p)" by (simp add: p_def prod_eq_iff)
  have a: "accepted4 (New ex_cfg wkp_mapper) p" "plain4 (New ex_cfg wkp_mapper) p" "\<not> too_big4 (New ex_cfg wkp_mapper) p"
    unfolding p_def by code_simp+
  have d: "proto p = 1 \<and> dataLen p = 8" "transport_ok4 (gslice 12 16 ex_echo4) (gslice 16 20 ex_echo4) (proto p) (pdata p)"
    unfolding p_def by code_simp+
  have n: "ip4TotalLen ex_echo4 = 28" "ex_echo4 ! 8 = 64" by code_simp+
  have m: "map4to6 (New ex_cfg wkp_mapper) (gslice 16 20 ex_echo4) ex_world = (Inr [0, 0x64, 0xff, 0x9b, 0, 0, 0, 0, 0, 0, 0, 0, 198, 51, 100, 7], ex_world)"
    "map4to6 (New ex_cfg wkp_mapper) (gslice 12 16 ex_echo4) ex_world = (Inr [0, 0x64, 0xff, 0x9b, 0, 0, 0, 0, 0, 0, 0, 0, 192, 0, 2, 1], ex_world)"
    unfolding map4to6_wkp prod.inject by (intro conjI refl; code_simp)+
  show ?thesis
    using translate4to6_delivers [OF ex_simps(1) _ _ p a m _ _ d(2), unfolded ex_simps] d(1) ex_simps n by (auto simp: proto4to6_def)
qed


text \<open>
  Claim C2. The same from IPv6 to IPv4, for a valid packet (complete, hop limit above 1, not
  addressed to the translator; an ICMPv6 packet is an echo; TCP and UDP headers complete and the
  UDP checksum present) that is not larger than the MTU and whose addresses map. It comes out as
  exactly one IPv4 packet, and is counted once: well formed, header checksum included, with the
  mapped addresses, the TTL decremented and the translated protocol. Without a fragment header
  DF is set exactly when the IPv6 payload exceeds 1280 bytes; otherwise identification, offset
  and the more-fragments flag are those of the fragment header. The data of a fragment that is
  not the first is copied. In the other cases, if the transport checksum verified, it does so in
  the new packet too, with exactly one exception: an echo reply whose code, identifier, sequence
  number and data are all zero goes out with a checksum that does not verify.
\<close>

theorem translate6to4_delivers:
  assumes ok: "em_ok (wout w)" and mtu: "MTU c \<le> 65535"
    and p: "parseIPv6 (new_pkt b) = ((ReasonNone, sp, si), p)" "accepted6 (New c m) p"
    and size: "int (40 + ip6PayloadLen b) \<le> MTU c"
    and m1: "map6to4 (New c m) (gslice 24 40 b) False w = (Inr dst4, w1)"
    and m2: "map6to4 (New c m) (gslice 8 24 b) True w1 = (Inr src4, w2)"
    and tcp: "first6 p \<and> proto p = protoTCP \<longrightarrow> 20 \<le> dataLen p"
    and udp: "first6 p \<and> proto p = protoUDP \<longrightarrow> 8 \<le> dataLen p \<and> get16 (pdata p) 6 \<noteq> 0"
    and sum: "first6 p \<longrightarrow> transport_ok6 (gslice 8 24 b) (gslice 24 40 b) (proto p) (pdata p)"
  shows "\<exists>w' q. Translate (New c m) b tun_emitter w = Some w' \<and> em_sent (wout w') = em_sent (wout w) @ [q]
     \<and> wtrace w' = wtrace w2 @ [Translated 6 (int (40 + ip6PayloadLen b))]
     \<and> wf_ip4 q \<and> length q = 20 + dataLen p \<and> gslice 12 16 q = src4 \<and> gslice 16 20 q = dst4
     \<and> q ! 8 = b ! 7 - 1 \<and> q ! 9 = proto6to4 (proto p)
     \<and> (if fragOff p = None then get16 q 6 AND 0x3fff = 0 \<and> (get16 q 6 AND ip4FlagDF \<noteq> 0 \<longleftrightarrow> 1280 < ip6PayloadLen b)
        else get16 q 4 = ucast (fragIdent (pfrag p)) \<and> get16 q 6 AND ip4FlagDF = 0
          \<and> get16 q 6 AND ip4OffMask = drop_bit 3 (fragOffFlags (pfrag p))
          \<and> (get16 q 6 AND ip4FlagMF \<noteq> 0 \<longleftrightarrow> fragOffFlags (pfrag p) AND ip6FragMF \<noteq> 0))
     \<and> (if first6 p then transport_ok4 src4 dst4 (proto6to4 (proto p)) (drop 20 q) \<longleftrightarrow> \<not> zero_reply6 p
        else drop 20 q = pdata p)"
proof -
  have v: "view6 p" and b: "raw p = b" using parseIPv6_view6 [OF p(1)] by auto
  note va = view6_addrs [OF v, unfolded b]
  have l: "length src4 = 4" "length dst4 = 4" using map6to4_length [OF m1] map6to4_length [OF m2] by simp_all
  have m: "map6to4 (New c m) (gslice 24 40 (pip p)) False w = (Inr dst4, w1)" "map6to4 (New c m) (gslice 8 24 (pip p)) True w1 = (Inr src4, w2)"
    using m1 m2 va by simp_all
  obtain ident fo w3 where f: "fields6to4 p (int (dataLen p)) w2 = (ident, fo, w3)" by (metis prod.exhaust)
  obtain p' where pl: "payload6to4 (New c m) p (out_header6 p ident fo src4 dst4) = (ReasonNone, p')"
    using payload6to4_accepts [OF tcp udp] by blast
  have lp: "length (pdata p') = dataLen p" using payload6to4_keeps [OF pl] view6D [OF v] by (simp add: pdata_def)
  have tot: "hdrLen p + dataLen p = ip6PayloadLen b" using p(2) va by (simp add: accepted6_def)
  have mtu': "MTU (cfg (New c m)) \<le> 65535" "int (40 + hdrLen p + dataLen p) \<le> MTU (cfg (New c m))" using mtu size tot by simp_all
  note r = tun.xlate6to4Data_sends [OF ok v mtu'(1) m mtu'(2) f pl]
  define q where "q = seal 10 0 (out_header6 p ident fo src4 dst4) @ pdata p'"
  have "wf_ip4 q" unfolding q_def out_header6_def lp [symmetric] using l mtu' lp by (intro wf_ip4_packet) simp_all
  moreover note hdr4_packet [OF l, of "ucast (drop_bit 20 (ip6VerTcFl (pip p)))" "word_of_nat (20 + dataLen p)" ident fo
     "pip p ! 7 - 1" "proto6to4 (proto p)" "pdata p'", folded out_header6_def, folded q_def]
  moreover have "length q = 20 + dataLen p" using l lp by (simp add: q_def out_header6_def)
  moreover note fields6to4_meaning [OF f, unfolded tot]
  moreover have oh: "length (out_header6 p ident fo src4 dst4) = 20" "gslice 12 16 (out_header6 p ident fo src4 dst4) = src4"
    "gslice 16 20 (out_header6 p ident fo src4 dst4) = dst4" using l by (simp_all add: out_header6_def)
  note payload6to4_checksum [OF v pl p(2) oh(1) udp sum [folded va(1,2)], unfolded oh(2,3)]
  ultimately show ?thesis using r tot va unfolding Translate_data6 [OF p(1,2)]
    by (intro exI [of _ "xlate6to4Data (New c m) tun_emitter p w"] exI [of _ q]) (simp add: q_def [symmetric])
qed

definition ex_zero_reply6 :: "byte list" where
  "ex_zero_reply6 = [96, 0, 0, 0, 0, 8, 58, 64, 0, 100, 255, 155, 0, 0, 0, 0, 0, 0, 0, 0, 192, 0, 2, 1,
     0, 100, 255, 155, 0, 0, 0, 0, 0, 0, 0, 0, 198, 51, 100, 7, 129, 0, 146, 128, 0, 0, 0, 0]"

theorem translate6to4_delivers_witness:
  "(\<exists>w' q. Translate (New ex_cfg wkp_mapper) ex_reply6 tun_emitter ex_world = Some w' \<and> em_sent (wout w') = [q]
     \<and> wtrace w' = [Translated 6 48] \<and> wf_ip4 q \<and> length q = 28
     \<and> gslice 12 16 q = [192, 0, 2, 1] \<and> gslice 16 20 q = [198, 51, 100, 7] \<and> q ! 8 = 63 \<and> q ! 9 = protoICMP
     \<and> get16 q 6 AND ip4FlagDF = 0 \<and> transport_ok4 (gslice 12 16 q) (gslice 16 20 q) protoICMP (drop 20 q))
   \<and> (\<exists>w' q. Translate (New ex_cfg wkp_mapper) ex_zero_reply6 tun_emitter ex_world = Some w' \<and> em_sent (wout w') = [q]
     \<and> wf_ip4 q \<and> \<not> transport_ok4 (gslice 12 16 q) (gslice 16 20 q) protoICMP (drop 20 q))"
proof -
  have m: "map6to4 (New ex_cfg wkp_mapper) [0, 100, 255, 155, 0, 0, 0, 0, 0, 0, 0, 0, 198, 51, 100, 7] False ex_world = (Inr [198, 51, 100, 7], ex_world)"
    "map6to4 (New ex_cfg wkp_mapper) [0, 100, 255, 155, 0, 0, 0, 0, 0, 0, 0, 0, 192, 0, 2, 1] True ex_world = (Inr [192, 0, 2, 1], ex_world)"
    unfolding map6to4_wkp prod.inject by (intro conjI refl; code_simp)+
  have g: "gslice 24 40 ex_reply6 = [0, 100, 255, 155, 0, 0, 0, 0, 0, 0, 0, 0, 198, 51, 100, 7]"
    "gslice 8 24 ex_reply6 = [0, 100, 255, 155, 0, 0, 0, 0, 0, 0, 0, 0, 192, 0, 2, 1]"
    "gslice 24 40 ex_zero_reply6 = [0, 100, 255, 155, 0, 0, 0, 0, 0, 0, 0, 0, 198, 51, 100, 7]"
    "gslice 8 24 ex_zero_reply6 = [0, 100, 255, 155, 0, 0, 0, 0, 0, 0, 0, 0, 192, 0, 2, 1]" by code_simp+
  define p z where "p = snd (parseIPv6 (new_pkt ex_reply6))" and "z = snd (parseIPv6 (new_pkt ex_zero_reply6))"
  have f: "fst (parseIPv6 (new_pkt ex_reply6)) = (ReasonNone, 0, False)" "fst (parseIPv6 (new_pkt ex_zero_reply6)) = (ReasonNone, 0, False)"
    by code_simp+
  then have p: "parseIPv6 (new_pkt ex_reply6) = ((ReasonNone, 0, False), p)" and z: "parseIPv6 (new_pkt ex_zero_reply6) = ((ReasonNone, 0, False), z)"
    by (simp_all add: p_def z_def prod_eq_iff)
  have a: "accepted6 (New ex_cfg wkp_mapper) p" "first6 p \<and> \<not> zero_reply6 p" "accepted6 (New ex_cfg wkp_mapper) z" "first6 z \<and> zero_reply6 z"
    unfolding p_def z_def by code_simp+
  have d: "proto p = 58 \<and> dataLen p = 8 \<and> fragOff p = None" "proto z = 58 \<and> dataLen z = 8 \<and> fragOff z = None"
    "transport_ok6 (gslice 8 24 ex_reply6) (gslice 24 40 ex_reply6) (proto p) (pdata p)"
    "transport_ok6 (gslice 8 24 ex_zero_reply6) (gslice 24 40 ex_zero_reply6) (proto z) (pdata z)"
    unfolding p_def z_def by code_simp+
  have n: "ip6PayloadLen ex_reply6 = 8" "ex_reply6 ! 7 = 64" "ip6PayloadLen ex_zero_reply6 = 8" by code_simp+
  show ?thesis
    using translate6to4_delivers [OF ex_simps(1) _ p a(1) _ m [folded g(1,2)], unfolded ex_simps] a(2) d(1,3) n
      translate6to4_delivers [OF ex_simps(1) _ z a(3) _ m [folded g(3,4)], unfolded ex_simps] a(4) d(2,4)
    by (intro conjI) (auto simp: proto6to4_def)
qed

text \<open>
  Claim C3. An IPv4 packet that is a fragment, or that is too large for the network behind
  the interface and may be fragmented, and that is otherwise valid, with addresses that map and
  a payload that can be rewritten, comes out as IPv6 fragments. Put together their
  payloads are the rewritten payload; each fragment is well formed, no larger than the MTU,
  carries the mapped addresses and the identification of the IPv4 packet, starts where the
  previous one ends, and has the more-fragments flag unless it is the last one of the last.
\<close>

theorem translate4to6_fragments:
  assumes ok: "em_ok (wout w)" and mtu: "1280 \<le> MTU c" "MTU c \<le> 65535"
    and p: "parseIPv4 (new_pkt b) = (ReasonNone, p)" "accepted4 (New c m) p" "\<not> plain4 (New c m) p" "\<not> too_big4 (New c m) p"
    and off: "off = unat (ip4FlagsOff b AND ip4OffMask) * 8" "off + dataLen p \<le> 65535"
    and m1: "map4to6 (New c m) (gslice 16 20 b) w = (Inr dst6, w1)"
    and m2: "map4to6 (New c m) (gslice 12 16 b) w1 = (Inr src6, w2)"
    and pl: "payload4to6 (New c m) p (out_header4 p src6 dst6) = (ReasonNone, p')"
  shows "\<exists>w' ps. Translate (New c m) b tun_emitter w = Some w' \<and> em_sent (wout w') = em_sent (wout w) @ ps
     \<and> concat (map (drop 48) ps) = pdata p'
     \<and> (\<forall>i < length ps. let q = ps ! i in
          wf_ip6 q \<and> int (length q) \<le> MTU c \<and> gslice 8 24 q = src6 \<and> gslice 24 40 q = dst6
          \<and> q ! 6 = protoFrag \<and> q ! 7 = b ! 8 - 1 \<and> q ! 40 = proto4to6 (proto p) \<and> get32 q 44 = ucast (ip4Ident b)
          \<and> unat (get16 q 42 AND ip6FragMask) = off + length (concat (map (drop 48) (take i ps)))
          \<and> (get16 q 42 AND ip6FragMF \<noteq> 0 \<longleftrightarrow> Suc i < length ps \<or> ip4FlagsOff b AND ip4FlagMF \<noteq> 0))"
proof -
  have v: "view4 p" and b: "raw p = b" using parseIPv4_view4 [OF p(1)] by auto
  note va = view4_addrs [OF v, unfolded b]
  have l: "length src6 = 16" "length dst6 = 16" using map4to6_length [OF m1] map4to6_length [OF m2] by simp_all
  have m: "map4to6 (New c m) (gslice 16 20 (pip p)) w = (Inr dst6, w1)" "map4to6 (New c m) (gslice 12 16 (pip p)) w1 = (Inr src6, w2)"
    using m1 m2 va by simp_all
  have lp: "length (pdata p') = dataLen p" using payload4to6_keeps [OF pl] view4D [OF v] by (simp add: pdata_def)
  have mtu': "1280 \<le> MTU (cfg (New c m))" "MTU (cfg (New c m)) \<le> 65535" using mtu by simp_all
  note fs = frag_size_bounds [OF mtu'(1) New_simps(2) mtu'(2)]
  obtain w' where w': "xlate4to6Data (New c m) tun_emitter p w = Some w'"
      "em_sent (wout w') = em_sent (wout w) @ outs4 (New c m) p p' src6 dst6"
    using tun.xlate4to6Data_sends [OF ok v mtu'(1) New_simps(2) mtu'(2) m p(4) pl] by blast
  define k where "k = nat (frag_size (New c m))"
  have k: "0 < k" "8 dvd k" "48 + k \<le> 65535" "int (48 + k) \<le> MTU c" using fs by (simp_all add: k_def)
  have o: "8 dvd off" "off + length (pdata p') \<le> 65535" using off lp by simp_all
  define ps where "ps = map (frag_packet (pip p ! 1) (b ! 8 - 1) src6 dst6 (proto4to6 (proto p)) (ucast (ip4Ident b)))
    (chunks k (ip4FlagsOff b AND ip4FlagMF \<noteq> 0) (pdata p') off)"
  have ps: "outs4 (New c m) p p' src6 dst6 = ps" using p(3) va by (simp add: outs4_def ps_def k_def off)
  note fr = fragments_reassemble [OF l k(1-3) o, where tc = "pip p ! 1" and hl = "b ! 8 - 1" and nh = "proto4to6 (proto p)"
      and ident = "ucast (ip4Ident b)" and mf = "ip4FlagsOff b AND ip4FlagMF \<noteq> 0", folded ps_def]
  have sz: "n \<le> 48 + k \<Longrightarrow> int n \<le> MTU c" for n using k(4) by simp
  show ?thesis unfolding Translate_data4 [OF p(1,2)]
    using w' fr(1) fr(2) sz by (intro exI [of _ w'] exI [of _ ps]) (auto simp: ps Let_def)
qed

theorem translate4to6_fragments_witness:
  "\<exists>w' ps. Translate (New ex_cfg wkp_mapper) ex_frag4 tun_emitter ex_world = Some w' \<and> em_sent (wout w') = ps
     \<and> concat (map (drop 48) ps) = [1, 2, 3, 4, 5, 6, 7, 8] \<and> ps \<noteq> [] \<and> wf_ip6 (ps ! 0)
     \<and> unat (get16 (ps ! 0) 42 AND ip6FragMask) = 8 \<and> get32 (ps ! 0) 44 = 0x1234"
proof -
  define p where "p = snd (parseIPv4 (new_pkt ex_frag4))"
  have f: "fst (parseIPv4 (new_pkt ex_frag4)) = ReasonNone" by code_simp
  then have p: "parseIPv4 (new_pkt ex_frag4) = (ReasonNone, p)" by (simp add: p_def prod_eq_iff)
  have a: "accepted4 (New ex_cfg wkp_mapper) p" "\<not> plain4 (New ex_cfg wkp_mapper) p" "\<not> too_big4 (New ex_cfg wkp_mapper) p"
    unfolding p_def by code_simp+
  have d: "dataLen p = 8" "pdata p = [1, 2, 3, 4, 5, 6, 7, 8]" unfolding p_def by code_simp+
  have n: "8 = unat (ip4FlagsOff ex_frag4 AND ip4OffMask) * 8" "ucast (ip4Ident ex_frag4) = (0x1234 :: u32)" by code_simp+
  define src :: "byte list" where "src = [0, 0x64, 0xff, 0x9b, 0, 0, 0, 0, 0, 0, 0, 0, 192, 0, 2, 1]"
  define dst :: "byte list" where "dst = [0, 0x64, 0xff, 0x9b, 0, 0, 0, 0, 0, 0, 0, 0, 198, 51, 100, 7]"
  have m: "map4to6 (New ex_cfg wkp_mapper) (gslice 16 20 ex_frag4) ex_world = (Inr dst, ex_world)"
    "map4to6 (New ex_cfg wkp_mapper) (gslice 12 16 ex_frag4) ex_world = (Inr src, ex_world)"
    unfolding map4to6_wkp prod.inject src_def dst_def by (intro conjI refl; code_simp)+
  have "ip4FlagsOff (pip p) AND ip4OffMask \<noteq> 0" unfolding p_def by code_simp
  then have pl: "payload4to6 (New ex_cfg wkp_mapper) p (out_header4 p src dst) = (ReasonNone, p)"
    by (simp add: payload4to6_def)
  obtain w' ps where r: "Translate (New ex_cfg wkp_mapper) ex_frag4 tun_emitter ex_world = Some w'" "em_sent (wout w') = ps"
      "concat (map (drop 48) ps) = [1, 2, 3, 4, 5, 6, 7, 8]"
      "\<forall>i < length ps. wf_ip6 (ps ! i) \<and> unat (get16 (ps ! i) 42 AND ip6FragMask) = 8 + length (concat (map (drop 48) (take i ps)))
        \<and> get32 (ps ! i) 44 = 0x1234"
    using translate4to6_fragments [OF ex_simps(1) _ _ p a n(1) _ m pl, unfolded ex_simps n(2) Let_def d append_Nil] by force
  moreover have "ps \<noteq> []" using r(3) by auto
  ultimately show ?thesis using r(4) [rule_format, of 0] by auto
qed

text \<open>
  Claim C5. For every packet, mapper, emitter and state, \<^verbatim>\<open>Translate\<close> returns: no loop
  of the translator runs forever and no fragment is cut with a negative length.
\<close>

theorem translate_returns:
  assumes "1280 \<le> MTU c"
  shows "\<exists>w'. Translate (New c m) b out w = Some w'"
  using Translate_returns [of "New c m" b out w] assms by simp

theorem translate_returns_witness:
  "1280 \<le> MTU ex_cfg \<and> (\<exists>w'. Translate (New ex_cfg wkp_mapper) ex_echo4 tun_emitter ex_world = Some w')"
  using translate_returns [of ex_cfg] by (simp add: ex_simps)

text \<open>
  Claim C4. Whatever the packet, everything \<^verbatim>\<open>Translate\<close> sends (translated packets,
  fragments, ICMP errors, echo replies) is a well-formed IPv4 or IPv6 packet: its version
  and length fields are right, its IPv4 header checksum verifies, and it is no larger than
  the MTU or the packet it answers. The packets sent before are not touched.
\<close>

theorem translate_sends_well_formed:
  assumes "em_ok (wout w)" "Is4 (LocalAddr4 c)" "1280 \<le> MTU c" "MTU c \<le> 65535"
  shows "\<exists>w' ps. Translate (New c m) b tun_emitter w = Some w' \<and> em_ok (wout w') \<and> em_sent (wout w') = em_sent (wout w) @ ps
    \<and> list_all (good_out (max (MTU c) (int (length b)))) ps"
proof -
  obtain w' where "Translate (New c m) b tun_emitter w = Some w'" "tun.emits (good_out (max (MTU c) (int (length b)))) w w'"
    using tun.Translate_good [of w "New c m" "max (MTU c) (int (length b))" b] assms by (cases "LocalAddr4 c") auto
  then show ?thesis by (auto simp: tun.emits_def list_all_iff)
qed

theorem translate_sends_well_formed_witness:
  "em_ok (wout ex_world) \<and> (\<exists>w' ps. Translate (New ex_cfg wkp_mapper) [1, 2, 3] tun_emitter ex_world = Some w'
     \<and> em_ok (wout w') \<and> em_sent (wout w') = ps \<and> list_all (good_out 1500) ps)"
  using translate_sends_well_formed [of ex_world ex_cfg wkp_mapper "[1, 2, 3]"] by (simp add: ex_simps ex_cfg_def)

text \<open>
  Claim C6. An ICMPv4 error message is never answered: for an ICMPv4 packet that is no echo
  request or reply, whatever its contents, only IPv6 packets are sent, so no ICMPv4 error goes
  back to the sender.
\<close>

theorem icmpv4_error_not_answered:
  assumes "em_ok (wout w)" "parseIPv4 (new_pkt b) = (ReasonNone, p)" "proto p = protoICMP" "picmp p ! 0 \<notin> {0, 8}"
  shows "\<exists>w' ps. Translate (New c m) b tun_emitter w = Some w' \<and> em_sent (wout w') = em_sent (wout w) @ ps \<and> list_all wf_ip6 ps"
proof -
  have b: "b \<noteq> []" "drop_bit 4 (b ! 0) = 4" using parseIPv4_view4 [OF assms(2)] view4_family [of p] by simp_all
  obtain w' where "handleIPv4 (New c m) tun_emitter b w = Some w'" "tun.emits wf_ip6 w w'"
    using tun.icmp4_error_not_answered [of w "New c m" b p] assms by auto
  then show ?thesis using b by (auto simp: Translate_def tun.emits_def list_all_iff)
qed

theorem icmpv4_error_not_answered_witness:
  "\<exists>w' ps. Translate (New ex_cfg wkp_mapper) ex_unreach4 tun_emitter ex_world = Some w' \<and> em_sent (wout w') = ps \<and> list_all wf_ip6 ps"
proof -
  define p where "p = snd (parseIPv4 (new_pkt ex_unreach4))"
  have f: "fst (parseIPv4 (new_pkt ex_unreach4)) = ReasonNone" "proto p = protoICMP \<and> picmp p ! 0 = 3" unfolding p_def by code_simp+
  then have "parseIPv4 (new_pkt ex_unreach4) = (ReasonNone, p)" by (simp add: p_def prod_eq_iff)
  from icmpv4_error_not_answered [OF ex_simps(1) this, of ex_cfg wkp_mapper] show ?thesis using f(2) by (simp add: ex_simps)
qed

text \<open>
  Claim C7. Likewise an ICMPv6 error message is never answered: for an ICMPv6 packet that is
  no echo request or reply only IPv4 packets are sent.
\<close>

theorem icmpv6_error_not_answered:
  assumes "em_ok (wout w)" "Is4 (LocalAddr4 c)" "parseIPv6 (new_pkt b) = ((r, sp, si), p)"
    "r \<in> {ReasonNone, ReasonRoutingHeaderSegmentsLeft}" "proto p = protoICMPv6" "picmp p ! 0 \<notin> {128, 129}"
  shows "\<exists>w' ps. Translate (New c m) b tun_emitter w = Some w' \<and> em_sent (wout w') = em_sent (wout w) @ ps \<and> list_all wf_ip4 ps"
proof -
  have b: "b \<noteq> []" "drop_bit 4 (b ! 0) = 6" using parseIPv6_view6 [OF assms(3,4)] view6_family [of p] by simp_all
  have "tun.emits wf_ip4 w (handleIPv6 (New c m) tun_emitter b w)"
    using tun.icmp6_error_not_answered [of w "New c m" b r sp si p] assms by (cases "LocalAddr4 c") auto
  then show ?thesis using b by (auto simp: Translate_def tun.emits_def list_all_iff)
qed

theorem icmpv6_error_not_answered_witness:
  "\<exists>w' ps. Translate (New ex_cfg wkp_mapper) ex_unreach6 tun_emitter ex_world = Some w' \<and> em_sent (wout w') = ps \<and> list_all wf_ip4 ps"
proof -
  define p where "p = snd (parseIPv6 (new_pkt ex_unreach6))"
  have f: "fst (parseIPv6 (new_pkt ex_unreach6)) = (ReasonNone, 0, False)" "proto p = protoICMPv6 \<and> picmp p ! 0 = 1" unfolding p_def by code_simp+
  then have "parseIPv6 (new_pkt ex_unreach6) = ((ReasonNone, 0, False), p)" by (simp add: p_def prod_eq_iff)
  from icmpv6_error_not_answered [OF ex_simps(1) _ this, of ex_cfg wkp_mapper] show ?thesis using f(2)
    by (simp add: ex_simps)
qed

end
