(* ===== verification/Answers.thy ===== *)
theory Answers
  imports Delivery
begin

text \<open>
  The packets the translator sends on its own behalf: echo replies and ICMP errors, byte
  for byte, and when each is sent.
\<close>

subsection \<open>ICMP packets\<close>

definition icmp4_packet :: "byte \<Rightarrow> byte list \<Rightarrow> byte list \<Rightarrow> byte \<Rightarrow> byte \<Rightarrow> u32 \<Rightarrow> byte list \<Rightarrow> byte list" where
  "icmp4_packet tos src dst ty code word payload =
     seal 10 0 (hdr4 tos (word_of_nat (28 + length payload)) 0 0 64 protoICMP src dst)
       @ seal 2 0 (icmp_hdr ty code word payload)"

definition icmp6_packet :: "byte \<Rightarrow> byte list \<Rightarrow> byte list \<Rightarrow> byte \<Rightarrow> byte \<Rightarrow> u32 \<Rightarrow> byte list \<Rightarrow> byte list" where
  "icmp6_packet tc src dst ty code word payload =
     hdr6 tc (word_of_nat (8 + length payload)) protoICMPv6 64 src dst
       @ seal 2 (pseudo6 src dst (8 + int (length payload)) protoICMPv6) (icmp_hdr ty code word payload)"

text \<open>The error messages about a packet, and the packets no error is sent about.\<close>

definition icmp4_error :: "'m Translator \<Rightarrow> byte \<Rightarrow> byte \<Rightarrow> u32 \<Rightarrow> pkt \<Rightarrow> byte list" where
  "icmp4_error t ty code word p =
     icmp4_packet 0 (local4 t) (gslice 12 16 (raw p)) ty code word (take (min 548 (hdrLen p + dataLen p)) (raw p))"

definition icmp6_error :: "'m Translator \<Rightarrow> byte \<Rightarrow> byte \<Rightarrow> u32 \<Rightarrow> pkt \<Rightarrow> byte list" where
  "icmp6_error t ty code word p =
     icmp6_packet 0 (local6 t) (gslice 8 24 (raw p)) ty code word (take (min 1232 (40 + hdrLen p + dataLen p)) (raw p))"

definition answerable4 :: "pkt \<Rightarrow> bool" where
  "answerable4 p \<longleftrightarrow> (proto p = protoICMP \<longrightarrow> picmp p ! 0 = 8)"

definition answerable6 :: "pkt \<Rightarrow> bool" where
  "answerable6 p \<longleftrightarrow> (proto p = protoICMPv6 \<longrightarrow> picmp p ! 0 = 128)"

lemma word4_get32:
  assumes "i + 4 \<le> length b"
  shows "word4 (get32 b i) @ drop (i + 4) b = drop i b"
proof -
  have "drop i b = b ! i # b ! (i + 1) # b ! (i + 2) # b ! (i + 3) # drop (i + 4) b"
    using assms by (simp add: Cons_nth_drop_Suc [symmetric] numeral_eq_Suc)
  moreover have "word4 (get32 b i) = [b ! i, b ! (i + 1), b ! (i + 2), b ! (i + 3)]"
    unfolding word4_def get32_def by (simp; intro conjI; rule bit_eqI; auto simp: bit_simps dest: bit_imp_le_length)
  ultimately show ?thesis by simp
qed

lemma get32_take: "i + 4 \<le> n \<Longrightarrow> get32 (take n b) i = get32 b i"
  by (simp add: get32_def)

lemma get32_drop: "i \<le> length b \<Longrightarrow> get32 b i = get32 (drop i b) 0"
  by (simp add: get32_def)

lemma int_unat_word_of_int: "1280 \<le> n \<Longrightarrow> n \<le> 65535 \<Longrightarrow> int (unat (word_of_int (n - 20) :: u32)) = n - 20"
  "1280 \<le> n \<Longrightarrow> n \<le> 65535 \<Longrightarrow> int (unat (word_of_int n :: u32)) = n"
  by (simp_all only: int_nat_eq unsigned_of_int take_bit_int_eq_self) (simp_all add: take_bit_int_eq_self)

lemma icmp_message:
  assumes "unat extra < 1099511627776" "8 + length payload \<le> 65535"
  shows "verify (seal 2 extra (icmp_hdr ty code word payload)) extra"
    "seal 2 extra (icmp_hdr ty code word payload) ! 0 = ty" "seal 2 extra (icmp_hdr ty code word payload) ! 1 = code"
    "drop 4 (seal 2 extra (icmp_hdr ty code word payload)) = word4 word @ payload"
proof -
  have "ck_range (icmp_hdr ty code word payload) extra" using assms by (simp add: ck_range_def)
  then show "verify (seal 2 extra (icmp_hdr ty code word payload)) extra"
    unfolding seal_def by (intro verify_put_checksum) (simp_all add: icmp_hdr_def get16_def)
qed (simp_all add: seal_def put16_def icmp_hdr_def word4_def)

lemma icmp4_packet_ok:
  fixes tos ty code :: byte and word :: u32
  assumes l: "length src = 4" "length dst = 4" and n: "28 + length payload \<le> 65535"
  defines "q \<equiv> icmp4_packet tos src dst ty code word payload"
  shows "wf_ip4 q" "gslice 12 16 q = src" "gslice 16 20 q = dst" "q ! 9 = protoICMP"
    "verify (drop 20 q) 0" "q ! 20 = ty" "q ! 21 = code" "drop 24 q = word4 word @ payload"
proof -
  define d where "d = seal 2 0 (icmp_hdr ty code word payload)"
  have ld: "length d = 8 + length payload" by (simp add: d_def)
  have q: "q = seal 10 0 (hdr4 tos (word_of_nat (20 + length d)) 0 0 64 protoICMP src dst) @ d"
    unfolding ld by (simp add: q_def icmp4_packet_def d_def)
  note im = icmp_message [of 0 payload ty code word, folded d_def]
  show "wf_ip4 q" unfolding q using l n ld by (intro wf_ip4_packet) simp_all
  note hp = hdr4_packet [OF l, of tos "word_of_nat (20 + length d)" 0 0 64 protoICMP d, folded q]
  show "gslice 12 16 q = src" "gslice 16 20 q = dst" "q ! 9 = protoICMP" "verify (drop 20 q) 0" using hp im n by simp_all
  have lq: "20 + 1 < length q" using l ld by (simp add: q)
  then show "q ! 20 = ty" "q ! 21 = code" using nth_drop [of 20 q 0] nth_drop [of 20 q 1] hp(5) im n by simp_all
  have "drop 24 q = drop 4 (drop 20 q)" by simp
  then show "drop 24 q = word4 word @ payload" unfolding hp(5) using im n by simp
qed

lemma icmp6_packet_ok:
  fixes tc ty code :: byte and word :: u32
  assumes l: "length src = 16" "length dst = 16" and n: "48 + length payload \<le> 65535"
  defines "q \<equiv> icmp6_packet tc src dst ty code word payload"
  shows "wf_ip6 q" "gslice 8 24 q = src" "gslice 24 40 q = dst" "q ! 6 = protoICMPv6"
    "verify (drop 40 q) (pseudo6 src dst (int (length (drop 40 q))) protoICMPv6)" "q ! 40 = ty" "q ! 41 = code"
    "drop 44 q = word4 word @ payload"
proof -
  define e where "e = pseudo6 src dst (8 + int (length payload)) protoICMPv6"
  define d where "d = seal 2 e (icmp_hdr ty code word payload)"
  have ld: "length d = 8 + length payload" by (simp add: d_def)
  have q: "q = hdr6 tc (word_of_nat (length d)) protoICMPv6 64 src dst @ d"
    unfolding ld by (simp add: q_def icmp6_packet_def d_def e_def)
  have "unat e < 1099511627776" unfolding e_def using n by (intro pseudo6_spec) simp_all
  note im = icmp_message [OF this, of payload ty code word, folded d_def]
  show "wf_ip6 q" unfolding q using l n ld by (intro wf_ip6_packet) simp_all
  note hp = hdr6_packet [OF l, of tc "word_of_nat (length d)" protoICMPv6 64 d, folded q]
  show "gslice 8 24 q = src" "gslice 24 40 q = dst" "q ! 6 = protoICMPv6" using hp by simp_all
  have "e = pseudo6 src dst (int (length d)) protoICMPv6" by (simp add: e_def ld)
  then show "verify (drop 40 q) (pseudo6 src dst (int (length (drop 40 q))) protoICMPv6)" using hp(5) im(1) n by simp
  have lq: "40 + 1 < length q" using l ld by (simp add: q)
  then show "q ! 40 = ty" "q ! 41 = code" using nth_drop [of 40 q 0] nth_drop [of 40 q 1] hp(5) im n by simp_all
  have "drop 44 q = drop 4 (drop 40 q)" by simp
  then show "drop 44 q = word4 word @ payload" unfolding hp(5) using im n by simp
qed

context emitter_laws
begin

lemma sendICMPv4_sends:
  fixes t :: "'m Translator" and w :: "('m, 'e) world" and tos ty code :: byte and word :: u32
  assumes ok: "ok (wout w)" and l: "length src = 4" "length dst = 4" and n: "28 + length payload \<le> 65535"
  defines "w' \<equiv> sendICMPv4 t out tos src dst ty code word payload w"
  shows "sent (wout w') = sent (wout w) @ [icmp4_packet tos src dst ty code word payload] \<and> ok (wout w') \<and> wtrace w' = wtrace w"
proof -
  obtain b w1 where op: "out_packet out (28 + length payload) w = (Some b, w1)" using packet_accepted [OF ok n] by blast
  note pf = packet_fill [OF ok op]
  have m: "icmp4_message tos src dst ty code word payload b = icmp4_packet tos src dst ty code word payload"
    unfolding icmp4_packet_def using pf(1) l by (rule icmp4_message_eq)
  have "length (icmp4_packet tos src dst ty code word payload) = 28 + length payload"
    using l by (simp add: icmp4_packet_def)
  from pf(5) [OF this] show ?thesis using op m pf(3) by (simp add: w'_def sendICMPv4_def out_fill_def)
qed

lemma sendICMPv6_sends:
  fixes t :: "'m Translator" and w :: "('m, 'e) world" and tc ty code :: byte and word :: u32
  assumes ok: "ok (wout w)" and l: "length src = 16" "length dst = 16" and n: "48 + length payload \<le> 65535"
  defines "w' \<equiv> sendICMPv6 t out tc src dst ty code word payload w"
  shows "sent (wout w') = sent (wout w) @ [icmp6_packet tc src dst ty code word payload] \<and> ok (wout w') \<and> wtrace w' = wtrace w"
proof -
  obtain b w1 where op: "out_packet out (48 + length payload) w = (Some b, w1)" using packet_accepted [OF ok n] by blast
  note pf = packet_fill [OF ok op]
  have m: "icmp6_message tc src dst ty code word payload b = icmp6_packet tc src dst ty code word payload"
    unfolding icmp6_packet_def using pf(1) l by (rule icmp6_message_eq)
  have "length (icmp6_packet tc src dst ty code word payload) = 48 + length payload"
    using l by (simp add: icmp6_packet_def)
  from pf(5) [OF this] show ?thesis using op m pf(3) by (simp add: w'_def sendICMPv6_def out_fill_def)
qed

lemma sendICMPv4Error_sends:
  fixes t :: "'m Translator" and w :: "('m, 'e) world" and ty code :: byte and word :: u32
  assumes ok: "ok (wout w)" and v: "view4 p" "answerable4 p" and l: "length (local4 t) = 4"
  defines "w' \<equiv> sendICMPv4Error t out ty code word p w"
  shows "sent (wout w') = sent (wout w) @ [icmp4_error t ty code word p] \<and> ok (wout w') \<and> wtrace w' = wtrace w"
proof -
  have s: "gslice 12 16 (pip p) = gslice 12 16 (raw p)" "length (gslice 12 16 (raw p)) = 4"
    using view4_addrs [OF v(1)] view4D [OF v(1)] by simp_all
  define d where "d = take (min 548 (hdrLen p + dataLen p)) (raw p)"
  have m: "min 548 (hdrLen p + dataLen p) = (if hdrLen p + dataLen p > 548 then 548 else hdrLen p + dataLen p)" by simp
  have "length d \<le> 548" by (simp add: d_def)
  then have "28 + length d \<le> 65535" by simp
  note r = sendICMPv4_sends [OF ok l s(2) this, of t 0 ty code word]
  have "w' = sendICMPv4 t out 0 (local4 t) (gslice 12 16 (raw p)) ty code word d w"
    using v(2) unfolding d_def m by (auto simp: w'_def sendICMPv4Error_def answerable4_def s(1) Let_def)
  then show ?thesis using r by (simp add: icmp4_error_def d_def)
qed

lemma sendICMPv6Error_sends:
  fixes t :: "'m Translator" and w :: "('m, 'e) world" and ty code :: byte and word :: u32
  assumes ok: "ok (wout w)" and v: "view6 p" "answerable6 p" and l: "length (local6 t) = 16"
  defines "w' \<equiv> sendICMPv6Error t out ty code word p w"
  shows "sent (wout w') = sent (wout w) @ [icmp6_error t ty code word p] \<and> ok (wout w') \<and> wtrace w' = wtrace w"
proof -
  have s: "gslice 8 24 (pip p) = gslice 8 24 (raw p)" "length (gslice 8 24 (raw p)) = 16"
    using view6_addrs [OF v(1)] view6D [OF v(1)] by simp_all
  define d where "d = take (min 1232 (40 + hdrLen p + dataLen p)) (raw p)"
  have m: "min 1232 (40 + hdrLen p + dataLen p) = (if 40 + hdrLen p + dataLen p > 1232 then 1232 else 40 + hdrLen p + dataLen p)" by simp
  have "length d \<le> 1232" by (simp add: d_def)
  then have "48 + length d \<le> 65535" by simp
  note r = sendICMPv6_sends [OF ok l s(2) this, of t 0 ty code word]
  have "w' = sendICMPv6 t out 0 (local6 t) (gslice 8 24 (raw p)) ty code word d w"
    using v(2) unfolding d_def m by (auto simp: w'_def sendICMPv6Error_def answerable6_def s(1) Let_def)
  then show ?thesis using r by (simp add: icmp6_error_def d_def)
qed

end

lemma icmp4_error_ok:
  fixes t :: "'m Translator" and ty code :: byte and word :: u32
  assumes v: "view4 p" and l: "length (local4 t) = 4"
  defines "q \<equiv> icmp4_error t ty code word p"
  shows "wf_ip4 q \<and> gslice 12 16 q = local4 t \<and> gslice 16 20 q = gslice 12 16 (raw p) \<and> q ! 9 = protoICMP
    \<and> verify (drop 20 q) 0 \<and> q ! 20 = ty \<and> q ! 21 = code
    \<and> drop 24 q = word4 word @ take (min 548 (hdrLen p + dataLen p)) (raw p)"
proof -
  have s: "length (gslice 12 16 (raw p)) = 4" using view4D [OF v] by simp
  have n: "28 + length (take (min 548 (hdrLen p + dataLen p)) (raw p)) \<le> 65535" by simp
  show ?thesis unfolding q_def icmp4_error_def using icmp4_packet_ok [OF l s n] by simp
qed

lemma icmp6_error_ok:
  fixes t :: "'m Translator" and ty code :: byte and word :: u32
  assumes v: "view6 p" and l: "length (local6 t) = 16"
  defines "q \<equiv> icmp6_error t ty code word p"
  shows "wf_ip6 q \<and> gslice 8 24 q = local6 t \<and> gslice 24 40 q = gslice 8 24 (raw p) \<and> q ! 6 = protoICMPv6
    \<and> transport_ok6 (local6 t) (gslice 8 24 (raw p)) protoICMPv6 (drop 40 q) \<and> q ! 40 = ty \<and> q ! 41 = code
    \<and> drop 44 q = word4 word @ take (min 1232 (40 + hdrLen p + dataLen p)) (raw p)"
proof -
  have s: "length (gslice 8 24 (raw p)) = 16" using view6D [OF v] by simp
  have n: "48 + length (take (min 1232 (40 + hdrLen p + dataLen p)) (raw p)) \<le> 65535" by simp
  show ?thesis unfolding q_def icmp6_error_def transport_ok6_def using icmp6_packet_ok [OF l s n] by simp
qed

text \<open>A mapper that rejects every address.\<close>

definition reject_mapper :: "unit Mapper" where
  "reject_mapper = \<lparr>MapIPv4ToIPv6 = \<lambda>a s. (Inl ErrReject, s), MapIPv6ToIPv4 = \<lambda>a allocate s. (Inl ErrReject, s)\<rparr>"

text \<open>Two packets of more than 1280 bytes.\<close>

definition ex_big4_hdr :: "byte list" where
  "ex_big4_hdr = [69, 0, 5, 20, 0, 0, 64, 0, 64, 17, 73, 157, 192, 0, 2, 1, 198, 51, 100, 7]"

definition ex_big6_hdr :: "byte list" where
  "ex_big6_hdr = [96, 0, 0, 0, 5, 20, 17, 64, 0, 100, 255, 155, 0, 0, 0, 0, 0, 0, 0, 0, 192, 0, 2, 1,
     0, 100, 255, 155, 0, 0, 0, 0, 0, 0, 0, 0, 198, 51, 100, 7]"

definition ex_big4 :: "byte list" where
  "ex_big4 = ex_big4_hdr @ replicate 1280 0"

definition ex_big6 :: "byte list" where
  "ex_big6 = ex_big6_hdr @ replicate 1300 0"

lemma ex_big4_simps:
  "ip4TotalLen ex_big4 = 1300" "ip4FlagsOff ex_big4 = 0x4000" "ex_big4 ! 0 = 0x45" "ex_big4 ! 9 = 17" "length ex_big4 = 1300"
  "take 20 ex_big4 = ex_big4_hdr" "gslice 12 16 ex_big4 = [192, 0, 2, 1]" "gslice 16 20 ex_big4 = [198, 51, 100, 7]"
  by (simp_all add: ip4TotalLen_def ip4FlagsOff_def get16_def ex_big4_def ex_big4_hdr_def gslice_def)

lemma ex_big6_simps:
  "ip6PayloadLen ex_big6 = 1300" "ex_big6 ! 0 = 0x60" "ex_big6 ! 6 = 17" "length ex_big6 = 1340" "take 40 ex_big6 = ex_big6_hdr"
  "gslice 8 24 ex_big6 = [0, 100, 255, 155, 0, 0, 0, 0, 0, 0, 0, 0, 192, 0, 2, 1]"
  "gslice 24 40 ex_big6 = [0, 100, 255, 155, 0, 0, 0, 0, 0, 0, 0, 0, 198, 51, 100, 7]"
  by (simp_all add: ip6PayloadLen_def get16_def ex_big6_def ex_big6_hdr_def gslice_def)

lemma ex_big4_parse:
  "parseIPv4 (new_pkt ex_big4)
     = (ReasonNone, (new_pkt ex_big4)\<lparr>ipLen := Some 20, hdrLen := 20, dataOff := 20, dataLen := 1280, proto := 17\<rparr>)"
  by (simp add: parseIPv4_def new_pkt_def Let_def ex_big4_simps ClassifyIPv4_def)

lemma ex_big6_parse:
  "parseIPv6 (new_pkt ex_big6)
     = ((ReasonNone, 0, False), (new_pkt ex_big6)\<lparr>ipLen := Some 40, dataOff := 40, dataLen := 1300, proto := 17\<rparr>)"
  by (simp add: parseIPv6_def new_pkt_def Let_def ex_big6_simps ValidIPv6_def extHeaders.simps fragHeader_def finishIPv6_def)

lemma length_As4_Is4 [simp]: "Is4 a \<Longrightarrow> length (As4 a) = 4"
  by (cases a) simp_all

subsection \<open>Properties\<close>

text \<open>
  Claim C26. The translator answers pings of its own IPv4 address: a valid echo request sent
  to it gets exactly one packet back, an echo reply with the addresses exchanged, the same
  identifier, sequence number and data, and right header and ICMP checksums.
\<close>

theorem echo4_answered:
  assumes ok: "em_ok (wout w)" and p: "parseIPv4 (new_pkt b) = (ReasonNone, p)"
    and hdr: "b ! 8 \<noteq> 0" "verify (pip p) 0" "hdrLen p + dataLen p = ip4TotalLen b"
    and icmp: "proto p = protoICMP" "verify (pdata p) 0" "pdata p ! 0 = 8"
    and dst: "gslice 16 20 b = As4 (LocalAddr4 c)"
  shows "\<exists>w' q. Translate (New c m) b tun_emitter w = Some w' \<and> em_sent (wout w') = em_sent (wout w) @ [q]
    \<and> wtrace w' = wtrace w @ [Observed (event p KindSelf ReasonEchoRequest)]
    \<and> wf_ip4 q \<and> gslice 12 16 q = As4 (LocalAddr4 c) \<and> gslice 16 20 q = gslice 12 16 b \<and> q ! 9 = protoICMP
    \<and> verify (drop 20 q) 0 \<and> q ! 20 = 0 \<and> drop 24 q = drop 4 (pdata p)"
proof -
  have v: "view4 p" and b: "raw p = b" using parseIPv4_view4 [OF p] by simp_all
  note va = view4_addrs [OF v, unfolded b] and fam = view4_family [OF v, unfolded b]
  have io: "icmpOff p = Some (dataOff p)" "8 \<le> dataLen p" using view4D(6) [OF v icmp(1)] by simp_all
  have pi: "picmp p = take 8 (pdata p)" using io by (rule picmp_pdata)
  have l: "length (gslice 16 20 b) = 4" "length (gslice 12 16 b) = 4" using view4D [OF v] b by simp_all
  have ld: "length (pdata p) = dataLen p" using view4_slices [OF v] by simp
  have tl: "ip4TotalLen b < 65536" using unsigned_less [of "get16 b 2", where ?'a = nat] by (simp add: ip4TotalLen_def)
  let ?w = "obs_event (event p KindSelf ReasonEchoRequest) w"
  have e: "Translate (New c m) b tun_emitter w = Some (sendICMPv4 (New c m) tun_emitter (pip p ! 1)
      (gslice 16 20 b) (gslice 12 16 b) 0 (picmp p ! 1) (icmpWord (picmp p)) (drop 8 (pdata p)) ?w)"
    using fam p hdr icmp dst va io pi ld by (simp add: Translate_def handleIPv4_def hostICMPv4_def)
  have n: "28 + length (drop 8 (pdata p)) \<le> 65535" using ld hdr(3) tl view4D [OF v] by simp
  note r = tun.sendICMPv4_sends [OF _ l n, of ?w] 
  have "word4 (icmpWord (picmp p)) @ drop 8 (pdata p) = drop 4 (pdata p)"
    using word4_get32 [of 4 "pdata p"] io ld by (simp add: pi icmpWord_def get32_take)
  then show ?thesis unfolding e using r icmp4_packet_ok [OF l n] ok dst by (simp add: obs_event_def)
qed

theorem echo4_answered_witness:
  "\<exists>w' q. Translate (New (ex_cfg\<lparr>LocalAddr4 := IPv4 0xc6336407\<rparr>) wkp_mapper) ex_echo4 tun_emitter ex_world = Some w'
    \<and> em_sent (wout w') = [q] \<and> wf_ip4 q \<and> gslice 16 20 q = [192, 0, 2, 1] \<and> drop 24 q = [0, 1, 0, 1]"
proof -
  define p where "p = snd (parseIPv4 (new_pkt ex_echo4))"
  have f: "fst (parseIPv4 (new_pkt ex_echo4)) = ReasonNone" by code_simp
  then have p: "parseIPv4 (new_pkt ex_echo4) = (ReasonNone, p)" by (simp add: p_def prod_eq_iff)
  have h: "ex_echo4 ! 8 = 64" "verify (pip p) 0" "hdrLen p + dataLen p = ip4TotalLen ex_echo4" "proto p = protoICMP"
    "verify (pdata p) 0" "pdata p = [8, 0, 0xf7, 0xfd, 0, 1, 0, 1]" unfolding p_def by code_simp+
  have a: "gslice 16 20 ex_echo4 = As4 (LocalAddr4 (ex_cfg\<lparr>LocalAddr4 := IPv4 0xc6336407\<rparr>))" "gslice 12 16 ex_echo4 = [192, 0, 2, 1]" by code_simp+
  show ?thesis
    using echo4_answered [OF ex_simps(1) p _ h(2-5) _ a(1), of wkp_mapper] unfolding h(1,6) a(2) ex_simps by auto
qed

text \<open>
  Claim C27. A valid IPv4 packet whose destination does not map is not translated. When the
  mapper asks for a rejection, and the packet is no ICMP message other than an echo request,
  its sender gets exactly one ICMPv4 host-unreachable message (type 3, code 1), from the
  translator's address, quoting the packet, with right checksums; otherwise nothing is
  sent. Either way exactly one event is reported.
\<close>

theorem unmappable4_rejected:
  assumes ok: "em_ok (wout w)" and l4: "Is4 (LocalAddr4 c)"
    and p: "parseIPv4 (new_pkt b) = (ReasonNone, p)" "accepted4 (New c m) p"
    and un: "map4to6 (New c m) (gslice 16 20 b) w = (Inl err, w1)"
  shows "\<exists>w' ps. Translate (New c m) b tun_emitter w = Some w' \<and> em_sent (wout w') = em_sent (wout w) @ ps
    \<and> wtrace w' = wtrace w1 @ [Observed (event p (if err = ErrReject then KindReject else KindDrop) ReasonDestinationUnmappable)]
    \<and> (if err = ErrReject \<and> answerable4 p then
         \<exists>q. ps = [q] \<and> wf_ip4 q \<and> gslice 12 16 q = As4 (LocalAddr4 c) \<and> gslice 16 20 q = gslice 12 16 b
           \<and> q ! 9 = protoICMP \<and> verify (drop 20 q) 0 \<and> q ! 20 = 3 \<and> q ! 21 = 1
           \<and> drop 28 q = take (min 548 (ip4TotalLen b)) b
       else ps = [])"
proof -
  have v: "view4 p" and b: "raw p = b" using parseIPv4_view4 [OF p(1)] by simp_all
  note va = view4_addrs [OF v, unfolded b]
  have tot: "hdrLen p + dataLen p = ip4TotalLen b" using p(2) va by (simp add: accepted4_def)
  have un': "map4to6 (New c m) (gslice 16 20 (pip p)) w = (Inl err, w1)" using un va by simp
  have w1: "wout w1 = wout w" using wout_map4to6 [OF un] by simp
  let ?w = "obs_event (event p (if err = ErrReject then KindReject else KindDrop) ReasonDestinationUnmappable) w1"
  have e: "Translate (New c m) b tun_emitter w
      = Some (if err = ErrReject then sendICMPv4Error (New c m) tun_emitter 3 1 0 p ?w else ?w)"
    unfolding Translate_data4 [OF p] xlate4to6Data_def Let_def un' by simp
  have l: "length (local4 (New c m)) = 4" using l4 by simp
  have ok1: "em_ok (wout ?w)" using ok w1 by (simp add: obs_event_def)
  show ?thesis
  proof (cases "err = ErrReject \<and> answerable4 p")
    case True
    define q where "q = icmp4_error (New c m) 3 1 0 p"
    have "drop 28 q = drop 4 (drop 24 q)" by simp
    then have "drop 28 q = take (min 548 (ip4TotalLen b)) b"
      using icmp4_error_ok [OF v l, of 3 1 0, folded q_def] by (simp add: word4_def tot b)
    then show ?thesis
      using True tun.sendICMPv4Error_sends [OF ok1 v _ l, of 3 1 0] icmp4_error_ok [OF v l, of 3 1 0, folded q_def] w1
      unfolding e by (simp add: obs_event_def q_def [symmetric] b)
  next
    case False
    then show ?thesis unfolding e using w1 by (auto simp: obs_event_def sendICMPv4Error_def answerable4_def)
  qed
qed

theorem unmappable4_rejected_witness:
  "\<exists>w' q. Translate (New ex_cfg reject_mapper) ex_echo4 tun_emitter ex_world = Some w' \<and> em_sent (wout w') = [q]
    \<and> wf_ip4 q \<and> gslice 16 20 q = [192, 0, 2, 1] \<and> q ! 20 = 3 \<and> q ! 21 = 1 \<and> drop 28 q = ex_echo4"
proof -
  define p where "p = snd (parseIPv4 (new_pkt ex_echo4))"
  have f: "fst (parseIPv4 (new_pkt ex_echo4)) = ReasonNone" by code_simp
  then have p: "parseIPv4 (new_pkt ex_echo4) = (ReasonNone, p)" by (simp add: p_def prod_eq_iff)
  have a: "accepted4 (New ex_cfg reject_mapper) p" "answerable4 p" unfolding p_def by code_simp+
  have d: "gslice 12 16 ex_echo4 = [192, 0, 2, 1]" "ip4TotalLen ex_echo4 = 28" "length ex_echo4 = 28" by code_simp+
  have "map4to6 (New ex_cfg reject_mapper) (gslice 16 20 ex_echo4) ex_world = (Inl ErrReject, ex_world)"
    by (simp add: map4to6_def reject_mapper_def)
  from unmappable4_rejected [OF ex_simps(1) _ p a(1) this] show ?thesis
    using a(2) d unfolding ex_simps by auto
qed

text \<open>
  Claim C28. A valid IPv4 packet with DF set, no fragment, whose addresses map and that does not
  fit the interface once translated is not translated, and exactly one event is reported. Unless
  it is an ICMP message other than an echo request, its sender gets exactly one ICMPv4
  fragmentation-needed message (type 3, code 4) that quotes it and announces the MTU less the 20
  bytes the header grows by, so a packet of the announced size does fit. About the other ICMP
  messages, an echo reply say, no error may be sent, and nothing is.
\<close>

theorem too_big4_answered:
  assumes ok: "em_ok (wout w)" and c: "Is4 (LocalAddr4 c)" "1280 \<le> MTU c" "MTU c \<le> 65535"
    and p: "parseIPv4 (new_pkt b) = (ReasonNone, p)" "accepted4 (New c m) p" "too_big4 (New c m) p"
    and m1: "map4to6 (New c m) (gslice 16 20 b) w = (Inr dst6, w1)"
    and m2: "map4to6 (New c m) (gslice 12 16 b) w1 = (Inr src6, w2)"
  shows "\<exists>w' ps. Translate (New c m) b tun_emitter w = Some w' \<and> em_sent (wout w') = em_sent (wout w) @ ps
    \<and> wtrace w' = wtrace w2 @ [Observed (event p KindICMP ReasonPacketTooBig)]
    \<and> (if answerable4 p then
         \<exists>q. ps = [q] \<and> wf_ip4 q \<and> gslice 12 16 q = As4 (LocalAddr4 c) \<and> gslice 16 20 q = gslice 12 16 b \<and> q ! 9 = protoICMP
           \<and> verify (drop 20 q) 0 \<and> q ! 20 = 3 \<and> q ! 21 = 4 \<and> int (unat (get32 q 24)) = MTU c - 20
           \<and> drop 28 q = take (min 548 (ip4TotalLen b)) b
       else ps = [])"
proof -
  have v: "view4 p" and b: "raw p = b" using parseIPv4_view4 [OF p(1)] by simp_all
  note va = view4_addrs [OF v, unfolded b]
  have tot: "hdrLen p + dataLen p = ip4TotalLen b" using p(2) va by (simp add: accepted4_def)
  have m: "map4to6 (New c m) (gslice 16 20 (pip p)) w = (Inr dst6, w1)" "map4to6 (New c m) (gslice 12 16 (pip p)) w1 = (Inr src6, w2)"
    using m1 m2 va by simp_all
  have w2: "wout w2 = wout w" using wout_map4to6 [OF m1] wout_map4to6 [OF m2] by simp
  let ?w = "obs_event (event p KindICMP ReasonPacketTooBig) w2"
  define mtu :: u32 where "mtu = word_of_int (MTU c - 20)"
  have nb: "(ip4FlagsOff (pip p) AND (0x1fff OR 0x2000) = 0 \<and> ip4FlagsOff (pip p) AND 0x4000 \<noteq> 0
      \<and> MTU (cfg (New c m)) - 20 < int (hdrLen p + dataLen p)) = True"
    using p(3) by (simp add: too_big4_def unfragmented4_def)
  have e: "Translate (New c m) b tun_emitter w = Some (sendICMPv4Error (New c m) tun_emitter 3 4 mtu p ?w)"
    unfolding Translate_data4 [OF p(1,2)] xlate4to6Data_def Let_def m prod.case sum.case nb if_True mtu_def by simp
  have l: "length (local4 (New c m)) = 4" using c(1) by simp
  have ok2: "em_ok (wout ?w)" using ok w2 by (simp add: obs_event_def)
  define q where "q = icmp4_error (New c m) 3 4 mtu p"
  note ie = icmp4_error_ok [OF v l, of 3 4 mtu, folded q_def, unfolded tot b]
  have "drop 28 q = drop 4 (drop 24 q)" by simp
  then have d: "drop 28 q = take (min 548 (ip4TotalLen b)) b" using ie by (simp add: word4_def)
  have "length (gslice 12 16 b) = 4" using view4D [OF v] b by simp
  then have "24 \<le> length q" using l by (simp add: q_def icmp4_error_def icmp4_packet_def b)
  then have "get32 q 24 = get32 (drop 24 q) 0" by (rule get32_drop)
  also have "\<dots> = mtu" using ie get32_word4 [of "[]" mtu "take (min 548 (ip4TotalLen b)) b"] by simp
  finally have "int (unat (get32 q 24)) = MTU c - 20" using c(2,3) unfolding mtu_def by (simp only: int_unat_word_of_int)
  note mt = this
  show ?thesis
  proof (cases "answerable4 p")
    case True
    then show ?thesis unfolding e using tun.sendICMPv4Error_sends [OF ok2 v True l, of 3 4 mtu, folded q_def] ie d w2 mt
      by (simp add: obs_event_def)
  next
    case False
    then show ?thesis unfolding e using w2 by (auto simp: obs_event_def sendICMPv4Error_def answerable4_def)
  qed
qed

theorem too_big4_answered_witness:
  "\<exists>w' q. Translate (New (ex_cfg\<lparr>MTU := 1280\<rparr>) wkp_mapper) ex_big4 tun_emitter ex_world = Some w' \<and> em_sent (wout w') = [q]
    \<and> wf_ip4 q \<and> gslice 16 20 q = [192, 0, 2, 1] \<and> q ! 20 = 3 \<and> q ! 21 = 4 \<and> int (unat (get32 q 24)) = 1260"
proof -
  let ?c = "ex_cfg\<lparr>MTU := 1280\<rparr>"
  define p where "p = (new_pkt ex_big4)\<lparr>ipLen := Some 20, hdrLen := 20, dataOff := 20, dataLen := 1280, proto := 17\<rparr>"
  have p: "parseIPv4 (new_pkt ex_big4) = (ReasonNone, p)" unfolding p_def by (rule ex_big4_parse)
  have pip: "pip p = ex_big4_hdr" by (simp add: p_def pip_def new_pkt_def ex_big4_simps)
  have h: "verify ex_big4_hdr 0" "ip4TotalLen ex_big4_hdr = 1300" "ip4FlagsOff ex_big4_hdr = 0x4000" "ex_big4_hdr ! 8 = 64"
    "gslice 16 20 ex_big4_hdr = [198, 51, 100, 7]" "As4 (LocalAddr4 ex_cfg) = [192, 0, 0, 1]" by code_simp+
  have a: "accepted4 (New ?c wkp_mapper) p" "too_big4 (New ?c wkp_mapper) p" "answerable4 p"
    unfolding accepted4_def too_big4_def unfragmented4_def answerable4_def pip using h by (simp_all add: p_def new_pkt_def)
  have m: "map4to6 (New ?c wkp_mapper) (gslice 16 20 ex_big4) ex_world
      = (Inr [0, 0x64, 0xff, 0x9b, 0, 0, 0, 0, 0, 0, 0, 0, 198, 51, 100, 7], ex_world)"
    "map4to6 (New ?c wkp_mapper) (gslice 12 16 ex_big4) ex_world
      = (Inr [0, 0x64, 0xff, 0x9b, 0, 0, 0, 0, 0, 0, 0, 0, 192, 0, 2, 1], ex_world)"
    unfolding map4to6_wkp prod.inject ex_big4_simps by (intro conjI refl; code_simp)+
  show ?thesis using too_big4_answered [OF ex_simps(1) _ _ _ p a(1,2) m] a(3) unfolding ex_simps ex_big4_simps by (simp add: ex_cfg_def) auto
qed

text \<open>
  Claim C29. A valid IPv6 packet whose addresses map and that is larger than the interface's MTU is
  not translated, and exactly one event is reported. Unless it is an ICMPv6 message other than an
  echo request, its sender gets exactly one ICMPv6 Packet Too Big message (type 2), which quotes
  the start of the packet, announces the MTU, is no larger than the IPv6 minimum MTU and has a
  right checksum. About the other ICMPv6 messages, an echo reply say, nothing is sent.
\<close>

theorem too_big6_answered:
  assumes ok: "em_ok (wout w)" and c: "1280 \<le> MTU c" "MTU c \<le> 65535"
    and p: "parseIPv6 (new_pkt b) = ((ReasonNone, sp, si), p)" "accepted6 (New c m) p"
    and big: "MTU c < int (40 + ip6PayloadLen b)"
    and m1: "map6to4 (New c m) (gslice 24 40 b) False w = (Inr dst4, w1)"
    and m2: "map6to4 (New c m) (gslice 8 24 b) True w1 = (Inr src4, w2)"
  shows "\<exists>w' ps. Translate (New c m) b tun_emitter w = Some w' \<and> em_sent (wout w') = em_sent (wout w) @ ps
    \<and> wtrace w' = wtrace w2 @ [Observed (event p KindICMP ReasonPacketTooBig)]
    \<and> (if answerable6 p then
         \<exists>q. ps = [q] \<and> wf_ip6 q \<and> length q \<le> 1280 \<and> gslice 8 24 q = As16 (LocalAddr6 c) \<and> gslice 24 40 q = gslice 8 24 b
           \<and> q ! 6 = protoICMPv6 \<and> transport_ok6 (gslice 8 24 q) (gslice 24 40 q) protoICMPv6 (drop 40 q)
           \<and> q ! 40 = 2 \<and> q ! 41 = 0 \<and> int (unat (get32 q 44)) = MTU c
           \<and> drop 48 q = take (min 1232 (40 + ip6PayloadLen b)) b
       else ps = [])"
proof -
  have v: "view6 p" and b: "raw p = b" using parseIPv6_view6 [OF p(1)] by simp_all
  note va = view6_addrs [OF v, unfolded b]
  have tot: "hdrLen p + dataLen p = ip6PayloadLen b" using p(2) va by (simp add: accepted6_def)
  have m: "map6to4 (New c m) (gslice 24 40 (pip p)) False w = (Inr dst4, w1)" "map6to4 (New c m) (gslice 8 24 (pip p)) True w1 = (Inr src4, w2)"
    using m1 m2 va by simp_all
  have w2: "wout w2 = wout w" using wout_map6to4 [OF m1] wout_map6to4 [OF m2] by simp
  let ?w = "obs_event (event p KindICMP ReasonPacketTooBig) w2"
  define mtu :: u32 where "mtu = word_of_int (MTU c)"
  have nb: "(int (40 + hdrLen p + dataLen p) > MTU (cfg (New c m))) = True" using big tot by simp
  have e: "Translate (New c m) b tun_emitter w = Some (sendICMPv6Error (New c m) tun_emitter 2 0 mtu p ?w)"
    unfolding Translate_data6 [OF p(1,2)] xlate6to4Data_def Let_def m prod.case sum.case nb if_True mtu_def by simp
  have l: "length (local6 (New c m)) = 16" by simp
  have ok2: "em_ok (wout ?w)" using ok w2 by (simp add: obs_event_def)
  define q where "q = icmp6_error (New c m) 2 0 mtu p"
  note ie = icmp6_error_ok [OF v l, of 2 0 mtu, folded q_def, unfolded b]
  have n: "length (gslice 8 24 b) = 16" using view6D [OF v] b by simp
  then have lq: "length q \<le> 1280 \<and> 44 \<le> length q" by (simp add: q_def icmp6_error_def icmp6_packet_def b)
  have "get32 q 44 = get32 (drop 44 q) 0" using conjunct2 [OF lq] by (rule get32_drop)
  also have "\<dots> = mtu" using ie get32_word4 [of "[]" mtu] by simp
  finally have "int (unat (get32 q 44)) = MTU c" using c unfolding mtu_def by (simp only: int_unat_word_of_int)
  note mt = this
  have "drop 48 q = drop 4 (drop 44 q)" by simp
  then have d: "drop 48 q = take (min 1232 (40 + ip6PayloadLen b)) b" using ie by (simp add: word4_def tot add.assoc)
  show ?thesis
  proof (cases "answerable6 p")
    case True
    then show ?thesis unfolding e using tun.sendICMPv6Error_sends [OF ok2 v True l, of 2 0 mtu, folded q_def] ie lq d w2 mt
      by (simp add: obs_event_def)
  next
    case False
    then show ?thesis unfolding e using w2 by (auto simp: obs_event_def sendICMPv6Error_def answerable6_def)
  qed
qed

theorem too_big6_answered_witness:
  "\<exists>w' q. Translate (New (ex_cfg\<lparr>MTU := 1280\<rparr>) wkp_mapper) ex_big6 tun_emitter ex_world = Some w' \<and> em_sent (wout w') = [q]
    \<and> wf_ip6 q \<and> q ! 40 = 2 \<and> q ! 41 = 0 \<and> int (unat (get32 q 44)) = 1280"
proof -
  let ?c = "ex_cfg\<lparr>MTU := 1280\<rparr>"
  define p where "p = (new_pkt ex_big6)\<lparr>ipLen := Some 40, dataOff := 40, dataLen := 1300, proto := 17\<rparr>"
  have p: "parseIPv6 (new_pkt ex_big6) = ((ReasonNone, 0, False), p)" unfolding p_def by (rule ex_big6_parse)
  have pip: "pip p = ex_big6_hdr" by (simp add: p_def pip_def new_pkt_def ex_big6_simps)
  have h: "ip6PayloadLen ex_big6_hdr = 1300" "ex_big6_hdr ! 7 = 64" "gslice 24 40 ex_big6_hdr ! 0 \<noteq> As16 (LocalAddr6 ex_cfg) ! 0"
    by code_simp+
  have a: "accepted6 (New ?c wkp_mapper) p" "answerable6 p"
    unfolding accepted6_def answerable6_def pip using h by (auto simp: p_def new_pkt_def)
  have m: "map6to4 (New ?c wkp_mapper) (gslice 24 40 ex_big6) False ex_world = (Inr [198, 51, 100, 7], ex_world)"
    "map6to4 (New ?c wkp_mapper) (gslice 8 24 ex_big6) True ex_world = (Inr [192, 0, 2, 1], ex_world)"
    unfolding map6to4_wkp prod.inject ex_big6_simps by (intro conjI refl; code_simp)+
  show ?thesis using too_big6_answered [OF ex_simps(1) _ _ p a(1) _ m] a(2) unfolding ex_simps ex_big6_simps by (simp add: ex_cfg_def) auto
qed

end
