(* ===== verification/EngineRun.thy ===== *)
theory EngineRun
  imports Delivery
begin

text \<open>
  The engine of \<^verbatim>\<open>src/internal/tundev/engine.go\<close>: its counters and the loop that reads a
  batch of packets, translates them and writes the results; and the in-memory device of
  \<^verbatim>\<open>fake.go\<close>.

  A device is a record of functions on the state behind it, together with what the loop
  reads from its surroundings at each pass: whether the context was cancelled
  (\<open>devCtx\<close>) and the translator that \<^verbatim>\<open>SetTranslator\<close> stored last (\<open>devTr\<close>). A read that
  blocks for ever is \<open>None\<close>. The counters are 64 bits wide and wrap around. Log lines and
  the pause after a failed read are left out.
\<close>

subsection \<open>Devices\<close>

datatype dev_error = ErrClosed | ErrDevice nat

record ('d, 'm) Device =
  devBatch :: "'d \<Rightarrow> int"
  devRead :: "nat \<Rightarrow> 'd \<Rightarrow> ((dev_error + byte list list) \<times> 'd) option"
  devWrite :: "byte list list \<Rightarrow> 'd \<Rightarrow> dev_error option \<times> 'd"
  devClose :: "'d \<Rightarrow> 'd"
  devCtx :: "'d \<Rightarrow> bool"
  devTr :: "'d \<Rightarrow> 'm Translator"

subsection \<open>The engine\<close>

record Stats =
  PacketsIn :: u64
  PacketsOut :: u64
  BytesIn :: u64
  BytesOut :: u64
  ReadErrors :: u64
  WriteErrors :: u64

record ('d, 'm) Engine =
  enDev :: 'd
  enWorld :: "('m, emitter) world"
  packetsIn :: u64
  packetsOut :: u64
  bytesIn :: u64
  bytesOut :: u64
  readErrors :: u64
  writeErrors :: u64

definition NewEngine :: "'d \<Rightarrow> ('m, emitter) world \<Rightarrow> ('d, 'm) Engine" where
  "NewEngine d w =
     \<lparr>enDev = d, enWorld = w, packetsIn = 0, packetsOut = 0, bytesIn = 0, bytesOut = 0, readErrors = 0, writeErrors = 0\<rparr>"

definition Engine_Stats :: "('d, 'm) Engine \<Rightarrow> Stats" where
  "Engine_Stats e =
     \<lparr>PacketsIn = packetsIn e, PacketsOut = packetsOut e, BytesIn = bytesIn e, BytesOut = bytesOut e,
      ReadErrors = readErrors e, WriteErrors = writeErrors e\<rparr>"

text \<open>The packets of a batch, one after the other.\<close>

fun translate_batch :: "'m Translator \<Rightarrow> byte list list \<Rightarrow> ('d, 'm) Engine \<Rightarrow> ('d, 'm) Engine option" where
  "translate_batch tr [] e = Some e"
| "translate_batch tr (pkt # pkts) e =
     (let e = e\<lparr>packetsIn := packetsIn e + 1\<rparr>;
          e = e\<lparr>bytesIn := bytesIn e + word_of_nat (length pkt)\<rparr>
      in case Translate tr pkt tun_emitter (enWorld e) of
           None \<Rightarrow> None
         | Some w \<Rightarrow> translate_batch tr pkts (e\<lparr>enWorld := w\<rparr>))"

definition recycle_out :: "('d, 'm) Engine \<Rightarrow> ('d, 'm) Engine" where
  "recycle_out e = e\<lparr>enWorld := (enWorld e)\<lparr>wout := recycle (wout (enWorld e))\<rparr>\<rparr>"

text \<open>What \<^verbatim>\<open>Run\<close> returns: the error of the context, or that of the device.\<close>

datatype run_result = CtxErr bool | DevErr dev_error

text \<open>One pass of the loop: it returns, goes on with the number of consecutive errors, or hangs.\<close>

definition Run_pass :: "('d, 'm) Device \<Rightarrow> nat \<Rightarrow> nat \<Rightarrow> ('d, 'm) Engine
    \<Rightarrow> (run_result \<times> ('d, 'm) Engine + nat \<times> ('d, 'm) Engine) option" where
  "Run_pass dev batch consecutiveErrors e =
     (case devRead dev batch (enDev e) of
        None \<Rightarrow> None
      | Some (Inl err, d) \<Rightarrow>
          let e = e\<lparr>enDev := d\<rparr> in
          if err = ErrClosed \<or> devCtx dev d then Some (Inl (CtxErr (devCtx dev d), e))
          else
            let e = e\<lparr>readErrors := readErrors e + 1\<rparr>;
                consecutiveErrors = consecutiveErrors + 1
            in if consecutiveErrors > 10 then Some (Inl (DevErr err, e)) else Some (Inr (consecutiveErrors, e))
      | Some (Inr pkts, d) \<Rightarrow>
          case translate_batch (devTr dev d) pkts (e\<lparr>enDev := d\<rparr>) of
            None \<Rightarrow> None
          | Some e \<Rightarrow>
              if eOut (wout (enWorld e)) = [] then Some (Inr (0, e))
              else
                let outBytes = foldl (\<lambda>n b. n + word_of_nat (snd b - Offset)) 0 (eOut (wout (enWorld e))) in
                case devWrite dev (em_sent (wout (enWorld e))) (enDev e) of
                  (Some err, d) \<Rightarrow>
                    let e = e\<lparr>enDev := d\<rparr> in
                    if err = ErrClosed then Some (Inl (CtxErr (devCtx dev d), recycle_out e))
                    else Some (Inr (0, recycle_out (e\<lparr>writeErrors := writeErrors e + 1\<rparr>)))
                | (None, d) \<Rightarrow>
                    let e = e\<lparr>enDev := d\<rparr>;
                        e = e\<lparr>packetsOut := packetsOut e + word_of_nat (length (eOut (wout (enWorld e))))\<rparr>;
                        e = e\<lparr>bytesOut := bytesOut e + outBytes\<rparr>
                    in Some (Inr (0, recycle_out e)))"

partial_function (option) Run_loop :: "('d, 'm) Device \<Rightarrow> nat \<Rightarrow> nat \<Rightarrow> ('d, 'm) Engine \<Rightarrow> (run_result \<times> ('d, 'm) Engine) option" where
  "Run_loop dev batch n e =
     (case Run_pass dev batch n e of
        None \<Rightarrow> None
      | Some (Inl r) \<Rightarrow> Some r
      | Some (Inr s) \<Rightarrow> Run_loop dev batch (fst s) (snd s))"

definition Run :: "('d, 'm) Device \<Rightarrow> ('d, 'm) Engine \<Rightarrow> (run_result \<times> ('d, 'm) Engine) option" where
  "Run dev e =
     (let batch = devBatch dev (enDev e);
          batch = (if batch < 1 then 1 else batch);
          e = e\<lparr>enWorld := (enWorld e)\<lparr>wout := \<lparr>eOut = [], eFree = []\<rparr>\<rparr>\<rparr>
      in case Run_loop dev (nat batch) 0 e of
           None \<Rightarrow> None
         | Some (r, e) \<Rightarrow> Some (r, e\<lparr>enDev := devClose dev (enDev e)\<rparr>))"

subsection \<open>The in-memory device\<close>

record FakeDevice =
  fIn :: "byte list list"
  fOut :: "byte list list"
  fClosed :: bool
  fBatch :: int
  fMtu :: int

definition NewFakeDevice :: "int \<Rightarrow> int \<Rightarrow> FakeDevice" where
  "NewFakeDevice batch mtu = \<lparr>fIn = [], fOut = [], fClosed = False, fBatch = batch, fMtu = mtu\<rparr>"

definition Inject :: "byte list \<Rightarrow> FakeDevice \<Rightarrow> FakeDevice" where
  "Inject pkt d = d\<lparr>fIn := fIn d @ [pkt]\<rparr>"

definition fake_Close :: "FakeDevice \<Rightarrow> FakeDevice" where
  "fake_Close d = d\<lparr>fClosed := True\<rparr>"

text \<open>
  \<open>closing\<close> is the choice of \<^verbatim>\<open>select\<close> when the device is closed and a packet waits. A
  packet longer than the buffer is cut by \<^verbatim>\<open>copy\<close>; \<open>n\<close> is the number of buffers, at least one.
\<close>

definition fake_Read :: "bool \<Rightarrow> nat \<Rightarrow> FakeDevice \<Rightarrow> ((dev_error + byte list list) \<times> FakeDevice) option" where
  "fake_Read closing n d =
     (if fClosed d \<and> (closing \<or> fIn d = []) then Some (Inl ErrClosed, d)
      else if fIn d = [] then None
      else
        Some (Inr (map (take maxPacket) (take n (fIn d))), d\<lparr>fIn := drop n (fIn d)\<rparr>))"

definition fake_Write :: "byte list list \<Rightarrow> FakeDevice \<Rightarrow> dev_error option \<times> FakeDevice" where
  "fake_Write bufs d = (if fClosed d then (Some ErrClosed, d) else (None, d\<lparr>fOut := fOut d @ bufs\<rparr>))"

subsection \<open>A pass of the loop\<close>

text \<open>What the loop has to do with a batch: \<open>Translate\<close> on each packet, in order, on the state the one before left.\<close>

fun translate_all :: "'m Translator \<Rightarrow> byte list list \<Rightarrow> ('m, emitter) world \<Rightarrow> ('m, emitter) world option" where
  "translate_all tr [] w = Some w"
| "translate_all tr (pkt # pkts) w = Option.bind (Translate tr pkt tun_emitter w) (translate_all tr pkts)"

lemma translate_batch_all:
  "translate_batch tr pkts e = map_option (\<lambda>w. e\<lparr>enWorld := w, packetsIn := packetsIn e + word_of_nat (length pkts),
     bytesIn := bytesIn e + word_of_nat (sum_list (map length pkts))\<rparr>) (translate_all tr pkts (enWorld e))"
  by (induction pkts arbitrary: e) (auto simp: Let_def add.assoc split: option.splits bind_splits)

lemma translate_all_good:
  assumes "em_ok (wout w)" "Is4 (LocalAddr4 c)" "1280 \<le> MTU c" "MTU c \<le> 65535" "\<forall>p \<in> set pkts. length p \<le> 65535"
  shows "\<exists>w' ps. translate_all (New c m) pkts w = Some w' \<and> em_ok (wout w') \<and> em_sent (wout w') = em_sent (wout w) @ ps
    \<and> list_all (good_out 65535) ps"
  using assms(1,5)
proof (induction pkts arbitrary: w)
  case (Cons p pkts)
  obtain w1 where w: "Translate (New c m) p tun_emitter w = Some w1" "tun.emits (good_out 65535) w w1"
    using tun.Translate_good [of w "New c m" 65535 p] Cons.prems assms(2-4) by (cases "LocalAddr4 c") auto
  then obtain ps where ps: "em_ok (wout w1)" "em_sent (wout w1) = em_sent (wout w) @ ps" "list_all (good_out 65535) ps"
    by (auto simp: tun.emits_def list_all_iff)
  then show ?case using Cons.IH [of w1] Cons.prems(2) w(1) by auto
qed simp

lemma out_lengths:
  assumes "em_ok m"
  shows "foldl (\<lambda>n b. n + word_of_nat (snd b - Offset)) 0 (eOut m) = (word_of_nat (sum_list (map length (em_sent m))) :: u64)"
proof -
  have f: "foldl (\<lambda>n b. n + word_of_nat (snd b - Offset)) k bs = k + (word_of_nat (sum_list (map length (map (\<lambda>(buf, l). gslice Offset l buf) bs))) :: u64)"
    if "list_all (\<lambda>(b, l). length b = Offset + maxPacket \<and> Offset \<le> l \<and> l \<le> Offset + maxPacket) bs" for bs k
    using that by (induction bs arbitrary: k) (auto simp: add.assoc)
  show ?thesis using f [of "eOut m" 0] assms by (simp add: em_ok_def em_sent_def)
qed

lemma em_sent_empty: "em_sent m = [] \<longleftrightarrow> eOut m = []" "length (em_sent m) = length (eOut m)"
  by (simp_all add: em_sent_def)

text \<open>
  Claim C23. A pass of the loop that has read a batch runs \<open>Translate\<close> on every packet of it in
  order, with the translator stored last, counts them and their bytes, and hands the device in one
  write exactly the packets these calls sent, in the order they were sent; without any there is no
  write. All of them are well formed and at most 65535 bytes long. The pass counts what was written
  only when the write succeeds, counts a failed write, ends the loop only when the device is
  closed, and leaves no packet behind for the next pass. The MTU is between 1280 and 65535, and at
  the start of the pass nothing is left to send.
\<close>

theorem engine_pass:
  assumes "em_ok (wout (enWorld e))" "em_sent (wout (enWorld e)) = []" "devRead dev batch (enDev e) = Some (Inr pkts, d)"
    and "devTr dev d = New c m" "Is4 (LocalAddr4 c)" "1280 \<le> MTU c" "MTU c \<le> 65535" "\<forall>p \<in> set pkts. length p \<le> 65535"
  shows "\<exists>w w' ps err d'. translate_all (New c m) pkts (enWorld e) = Some w \<and> ps = em_sent (wout w) \<and> list_all (good_out 65535) ps
    \<and> (if ps = [] then (None, d) else devWrite dev ps d) = (err, d')
    \<and> w' = (if ps = [] then w else w\<lparr>wout := recycle (wout w)\<rparr>) \<and> em_ok (wout w') \<and> em_sent (wout w') = []
    \<and> (let e' = e\<lparr>enDev := d', enWorld := w', packetsIn := packetsIn e + word_of_nat (length pkts),
                      bytesIn := bytesIn e + word_of_nat (sum_list (map length pkts))\<rparr>
       in Run_pass dev batch n e = Some
         (case err of
            None \<Rightarrow> Inr (0, e'\<lparr>packetsOut := packetsOut e + word_of_nat (length ps), bytesOut := bytesOut e + word_of_nat (sum_list (map length ps))\<rparr>)
          | Some ErrClosed \<Rightarrow> Inl (CtxErr (devCtx dev d'), e')
          | Some (ErrDevice _) \<Rightarrow> Inr (0, e'\<lparr>writeErrors := writeErrors e + 1\<rparr>)))"
proof -
  obtain w ps where t: "translate_all (New c m) pkts (enWorld e) = Some w" "em_ok (wout w)" "ps = em_sent (wout w)" "list_all (good_out 65535) ps"
    using translate_all_good [of "enWorld e" c pkts m] assms by auto
  let ?w = "w\<lparr>wout := recycle (wout w)\<rparr>"
  let ?e = "\<lambda>d w. e\<lparr>enDev := d, enWorld := w, packetsIn := packetsIn e + word_of_nat (length pkts),
        bytesIn := bytesIn e + word_of_nat (sum_list (map length pkts))\<rparr>"
  have tb: "translate_batch (New c m) pkts (e\<lparr>enDev := d\<rparr>) = Some (?e d w)" using t(1) by (simp add: translate_batch_all)
  have r: "em_ok (wout ?w)" "em_sent (wout ?w) = []" using em_ok_recycle [OF t(2)] by simp_all
  show ?thesis
  proof (cases "ps = []")
    case True
    then have "eOut (wout w) = []" using t(3) em_sent_empty(1) [of "wout w"] by simp
    then have "Run_pass dev batch n e = Some (Inr (0, ?e d w))" using assms(3,4) tb by (simp add: Run_pass_def)
    then show ?thesis using True t by (intro exI [of _ w] exI [of _ "[]"] exI [of _ None] exI [of _ d]) (simp add: Let_def)
  next
    case False
    then have ne: "eOut (wout w) \<noteq> []" using t(3) em_sent_empty(1) [of "wout w"] by simp
    obtain err d' where wr: "devWrite dev ps d = (err, d')" by (cases "devWrite dev ps d")
    have "Run_pass dev batch n e = Some
         (case err of
            None \<Rightarrow> Inr (0, (?e d' ?w)\<lparr>packetsOut := packetsOut e + word_of_nat (length ps), bytesOut := bytesOut e + word_of_nat (sum_list (map length ps))\<rparr>)
          | Some ErrClosed \<Rightarrow> Inl (CtxErr (devCtx dev d'), ?e d' ?w)
          | Some (ErrDevice _) \<Rightarrow> Inr (0, (?e d' ?w)\<lparr>writeErrors := writeErrors e + 1\<rparr>))"
      using assms(3,4) tb t(3) ne wr out_lengths [OF t(2)] em_sent_empty(2) [of "wout w"]
      by (cases e) (auto simp: Run_pass_def recycle_out_def Let_def split: option.splits dev_error.splits)
    then show ?thesis using False t r wr
      by (intro exI [of _ w] exI [of _ ?w] exI [of _ ps] exI [of _ err] exI [of _ d']) (simp add: Let_def split: option.splits dev_error.splits)
  qed
qed

definition fake_device :: "bool \<Rightarrow> 'm Translator \<Rightarrow> (FakeDevice, 'm) Device" where
  "fake_device closing tr =
     \<lparr>devBatch = fBatch, devRead = fake_Read closing, devWrite = fake_Write, devClose = fake_Close, devCtx = fClosed, devTr = \<lambda>_. tr\<rparr>"

definition ex_engine :: "(FakeDevice, unit) Engine" where
  "ex_engine = NewEngine (Inject ex_echo4 (NewFakeDevice 1 1500)) ex_world"

theorem engine_pass_witness:
  "\<exists>w e'. Translate (New ex_cfg wkp_mapper) ex_echo4 tun_emitter ex_world = Some w
     \<and> Run_pass (fake_device False (New ex_cfg wkp_mapper)) 1 3 ex_engine = Some (Inr (0, e')) \<and> packetsIn e' = 1 \<and> bytesIn e' = 28
     \<and> fOut (enDev e') = em_sent (wout w) \<and> packetsOut e' = word_of_nat (length (em_sent (wout w)))"
proof -
  let ?dev = "fake_device False (New ex_cfg wkp_mapper)" and ?d = "NewFakeDevice 1 1500"
  have "length ex_echo4 = 28" by (simp add: ex_echo4_def)
  then have rd: "devRead ?dev 1 (enDev ex_engine) = Some (Inr [ex_echo4], ?d)"
    by (simp add: fake_device_def fake_Read_def ex_engine_def NewEngine_def Inject_def NewFakeDevice_def)
  have e: "enWorld ex_engine = ex_world" "packetsIn ex_engine = 0" "bytesIn ex_engine = 0" "packetsOut ex_engine = 0"
    by (simp_all add: ex_engine_def NewEngine_def)
  have wr: "devWrite ?dev ps ?d = (None, ?d\<lparr>fOut := ps\<rparr>)" for ps by (simp add: fake_device_def fake_Write_def NewFakeDevice_def)
  have d0: "fOut ?d = []" by (simp add: NewFakeDevice_def)
  obtain w w' ps err d' where p: "translate_all (New ex_cfg wkp_mapper) [ex_echo4] ex_world = Some w" "ps = em_sent (wout w)"
      "(if ps = [] then (None, ?d) else devWrite ?dev ps ?d) = (err, d')"
      "Run_pass ?dev 1 3 ex_engine = Some
         (let e' = ex_engine\<lparr>enDev := d', enWorld := w', packetsIn := 1, bytesIn := 28\<rparr>
          in case err of
            None \<Rightarrow> Inr (0, e'\<lparr>packetsOut := packetsOut ex_engine + word_of_nat (length ps), bytesOut := bytesOut ex_engine + word_of_nat (sum_list (map length ps))\<rparr>)
          | Some ErrClosed \<Rightarrow> Inl (CtxErr (devCtx ?dev d'), e')
          | Some (ErrDevice _) \<Rightarrow> Inr (0, e'\<lparr>writeErrors := writeErrors ex_engine + 1\<rparr>))"
    using engine_pass [of ex_engine ?dev 1 "[ex_echo4]" ?d ex_cfg wkp_mapper 3] rd e \<open>length ex_echo4 = 28\<close>
    by (auto simp: ex_simps ex_cfg_def fake_device_def Let_def)
  have "err = None" "fOut d' = ps" using p(3) wr d0 by (auto split: if_splits)
  then show ?thesis using p(1,2,4) e(4) by (auto simp: Let_def split: bind_splits)
qed

subsection \<open>Failing reads\<close>

text \<open>The last error and the device after \<open>k\<close> reads that all fail, none because it is closed.\<close>

fun failing :: "('d, 'm) Device \<Rightarrow> nat \<Rightarrow> nat \<Rightarrow> 'd \<Rightarrow> (dev_error \<times> 'd) option" where
  "failing dev batch 0 d = None"
| "failing dev batch (Suc k) d =
     (case devRead dev batch d of
        Some (Inl (ErrDevice i), d') \<Rightarrow>
          if devCtx dev d' then None else if k = 0 then Some (ErrDevice i, d') else failing dev batch k d'
      | _ \<Rightarrow> None)"

lemma failing_ends:
  assumes "failing dev batch k (enDev e) = Some (err, d')" "n + k = 11"
  shows "Run_loop dev batch n e = Some (DevErr err, e\<lparr>enDev := d', readErrors := readErrors e + word_of_nat k\<rparr>)"
  using assms
proof (induction k arbitrary: e n)
  case (Suc k)
  obtain i d where r: "devRead dev batch (enDev e) = Some (Inl (ErrDevice i), d)" "\<not> devCtx dev d"
      "(if k = 0 then Some (ErrDevice i, d) else failing dev batch k d) = Some (err, d')"
    using Suc.prems(1) by (auto split: option.splits sum.splits prod.splits dev_error.splits if_splits)
  let ?e = "e\<lparr>enDev := d, readErrors := readErrors e + 1\<rparr>"
  show ?case
  proof (cases "k = 0")
    case True
    then have "Run_pass dev batch n e = Some (Inl (DevErr err, e\<lparr>enDev := d', readErrors := readErrors e + 1\<rparr>))"
      using r Suc.prems(2) by (auto simp: Run_pass_def Let_def)
    then show ?thesis using True by (simp add: Run_loop.simps)
  next
    case False
    then have "Run_pass dev batch n e = Some (Inr (n + 1, ?e))" using r Suc.prems(2) by (simp add: Run_pass_def Let_def)
    moreover have "Run_loop dev batch (n + 1) ?e = Some (DevErr err, ?e\<lparr>enDev := d', readErrors := readErrors ?e + word_of_nat k\<rparr>)"
      using Suc.IH [of ?e "n + 1"] r(3) False Suc.prems(2) by simp
    ultimately show ?thesis by (subst Run_loop.simps) (simp add: add.assoc)
  qed
qed simp

text \<open>
  Claim C24. When the first eleven reads fail, none because the device is closed or the context
  cancelled, \<^verbatim>\<open>Run\<close> ends: it returns the error of the eleventh, has
  counted all of them, and has closed the device.
\<close>

theorem failing_device_ends_run:
  assumes "failing dev (nat (max 1 (devBatch dev (enDev e)))) 11 (enDev e) = Some (err, d')"
  shows "\<exists>e'. Run dev e = Some (DevErr err, e') \<and> enDev e' = devClose dev d' \<and> readErrors e' = readErrors e + 11 \<and> packetsIn e' = packetsIn e"
proof -
  let ?e = "e\<lparr>enWorld := (enWorld e)\<lparr>wout := \<lparr>eOut = [], eFree = []\<rparr>\<rparr>\<rparr>"
  have "(if devBatch dev (enDev e) < 1 then 1 else devBatch dev (enDev e)) = max 1 (devBatch dev (enDev e))" by (simp add: max_def)
  then show ?thesis using failing_ends [of dev "nat (max 1 (devBatch dev (enDev e)))" 11 ?e err d' 0] assms by (simp add: Run_def Let_def)
qed

theorem failing_device_ends_run_witness:
  "\<exists>e'. Run \<lparr>devBatch = \<lambda>_. 0, devRead = \<lambda>_ d. Some (Inl (ErrDevice d), d + 1), devWrite = \<lambda>_ d. (None, d), devClose = \<lambda>d. d,
       devCtx = \<lambda>_. False, devTr = \<lambda>_. New ex_cfg wkp_mapper\<rparr> (NewEngine 0 ex_world) = Some (DevErr (ErrDevice 10), e') \<and> enDev e' = 11"
proof -
  let ?dev = "\<lparr>devBatch = \<lambda>_. 0, devRead = \<lambda>_ d. Some (Inl (ErrDevice d), d + 1), devWrite = \<lambda>_ d. (None, d), devClose = \<lambda>d. d,
       devCtx = \<lambda>_. False, devTr = \<lambda>_. New ex_cfg wkp_mapper\<rparr>"
  have "failing ?dev (nat (max 1 (devBatch ?dev (0 :: nat)))) 11 0 = Some (ErrDevice 10, 11)" by (simp add: eval_nat_numeral)
  then show ?thesis using failing_device_ends_run [of ?dev "NewEngine 0 ex_world"] by (simp add: NewEngine_def) blast
qed

end
