(* ===== verification/Pool.thy ===== *)
theory Pool
  imports Netutil Events "HOL-Library.AList"
begin

text \<open>
  \<^verbatim>\<open>src/internal/addrmap/pool.go\<close>: the pool that hands out IPv4 addresses to IPv6 hosts.

  The \<open>dynHost\<close> records are shared by three Go maps, so they live in a heap \<open>hosts\<close> and the
  maps hold references into it. The maps the code iterates over are association lists;
  the order of an iteration, which the Go run time leaves open, is an argument \<open>it\<close> of the
  operations that iterate, a permutation of the list. \<open>clock\<close> is the sequence of Unix
  times \<^verbatim>\<open>now\<close> will return, and an observer is a function on the trace of its calls.
  Leases are durations in nanoseconds. Each definition is what runs under the pool's lock.
\<close>

subsection \<open>State\<close>

abbreviation (input) Second :: int where "Second \<equiv> 1000000000"
abbreviation (input) DefaultMinLease :: int where "DefaultMinLease \<equiv> 7440 * Second"
abbreviation (input) DefaultMaxLease :: int where "DefaultMaxLease \<equiv> 14 * 24 * 3600 * Second"

record dynHost =
  hV4 :: Addr
  hV6 :: Addr
  hOff :: u32
  lastUse :: int
  hDormant :: bool

type_synonym observer = "obs \<Rightarrow> obs list \<Rightarrow> obs list"
type_synonym iter = "(Addr \<times> nat) list \<Rightarrow> (Addr \<times> nat) list"

record Pool =
  pPrefix :: Prefix
  pBase :: u32
  pMax :: u32
  minLease :: int
  maxLease :: int
  pObs :: observer
  clock :: "nat \<Rightarrow> int"
  reserved :: "Addr \<Rightarrow> bool"
  used :: "u64 list"
  by4 :: "u32 \<rightharpoonup> nat"
  mapped :: "(Addr \<times> nat) list"
  dormant :: "(Addr \<times> nat) list"
  dirty :: bool
  hosts :: "dynHost list"
  pTrace :: "obs list"

record PoolOptions =
  oMinLease :: int
  oMaxLease :: int
  oObserver :: "observer option"
  oNow :: "(nat \<Rightarrow> int) option"

datatype pool_error =
    NotIPv4Prefix Prefix | HostBitsSet Prefix | PrefixLenRange Prefix | ReservedAddress Prefix

definition nop_observer :: observer where
  "nop_observer c t = t"

subsection \<open>Construction and settings\<close>

text \<open>\<open>timeNow\<close> is the sequence of times the system clock will return.\<close>

definition NewPool :: "(nat \<Rightarrow> int) \<Rightarrow> Prefix \<Rightarrow> PoolOptions \<Rightarrow> pool_error + Pool" where
  "NewPool timeNow prefix opt =
     (if \<not> Is4 (pAddr prefix) then Inl (NotIPv4Prefix prefix)
      else if prefix \<noteq> Masked prefix then Inl (HostBitsSet prefix)
      else if pBits prefix < 8 \<or> pBits prefix > 31 then Inl (PrefixLenRange prefix)
      else if ClassifyIPv4 (As4 (pAddr prefix)) = IPv4Invalid then Inl (ReservedAddress prefix)
      else
        let a = As4 (pAddr prefix);
            mx = drop_bit (nat (pBits prefix)) (0xffffffff :: u32)
        in Inr
          \<lparr>pPrefix = prefix, pBase = get32 a 0, pMax = mx,
           minLease = (if oMinLease opt \<le> 0 then DefaultMinLease else oMinLease opt),
           maxLease = (if oMaxLease opt \<le> 0 then DefaultMaxLease else oMaxLease opt),
           pObs = (case oObserver opt of None \<Rightarrow> nop_observer | Some obs \<Rightarrow> obs),
           clock = (case oNow opt of None \<Rightarrow> timeNow | Some now \<Rightarrow> now),
           reserved = (\<lambda>_. False),
           used = (replicate ((unat mx + 1 + 63) div 64) 0)[0 := 1],
           by4 = Map.empty, mapped = [], dormant = [], dirty = False, hosts = [], pTrace = []\<rparr>)"

definition SetLeases :: "int \<Rightarrow> int \<Rightarrow> Pool \<Rightarrow> Pool" where
  "SetLeases mn mx p =
     p\<lparr>minLease := (if mn \<le> 0 then DefaultMinLease else mn), maxLease := (if mx \<le> 0 then DefaultMaxLease else mx)\<rparr>"

definition SetObserver :: "observer option \<Rightarrow> Pool \<Rightarrow> Pool" where
  "SetObserver obs p = p\<lparr>pObs := (case obs of None \<Rightarrow> nop_observer | Some obs \<Rightarrow> obs)\<rparr>"

subsection \<open>Primitives\<close>

definition addr :: "Pool \<Rightarrow> u32 \<Rightarrow> Addr" where
  "addr p off =
     (let v = pBase p OR off
      in AddrFrom4 [ucast (drop_bit 24 v), ucast (drop_bit 16 v), ucast (drop_bit 8 v), ucast v])"

definition isUsed :: "Pool \<Rightarrow> u32 \<Rightarrow> bool" where
  "isUsed p off \<longleftrightarrow> used p ! unat (off div 64) AND push_bit (unat (off mod 64)) 1 \<noteq> 0"

definition setUsed :: "u32 \<Rightarrow> Pool \<Rightarrow> Pool" where
  "setUsed off p = p\<lparr>used := (used p)[unat (off div 64) := used p ! unat (off div 64) OR push_bit (unat (off mod 64)) 1]\<rparr>"

definition clearUsed :: "u32 \<Rightarrow> Pool \<Rightarrow> Pool" where
  "clearUsed off p =
     p\<lparr>used := (used p)[unat (off div 64) := used p ! unat (off div 64) AND NOT (push_bit (unat (off mod 64)) 1)]\<rparr>"

definition tick :: "Pool \<Rightarrow> int \<times> Pool" where
  "tick p = (clock p 0, p\<lparr>clock := \<lambda>i. clock p (Suc i)\<rparr>)"

definition upd_host :: "nat \<Rightarrow> (dynHost \<Rightarrow> dynHost) \<Rightarrow> Pool \<Rightarrow> Pool" where
  "upd_host r f p = p\<lparr>hosts := (hosts p)[r := f (hosts p ! r)]\<rparr>"

definition observe :: "Event \<Rightarrow> Pool \<Rightarrow> Pool" where
  "observe e p = p\<lparr>pTrace := pObs p (Observed e) (pTrace p)\<rparr>"

definition Pool_event :: "Reason \<Rightarrow> nat \<Rightarrow> Pool \<Rightarrow> Pool" where
  "Pool_event reason r p =
     observe \<lparr>evKind = KindDynamic, evReason = reason, evFamily = 0, evProto = 0, evLength = 0,
              evSrc = hV4 (hosts p ! r), evDst = hV6 (hosts p ! r)\<rparr> p"

text \<open>The offset of an IPv4 address from the base of the pool.\<close>

definition offset4 :: "Pool \<Rightarrow> Addr \<Rightarrow> u32" where
  "offset4 p a = get32 (As4 a) 0 AND pMax p"

subsection \<open>Lookup and assignment\<close>

definition Pool_lookup4 :: "Addr \<Rightarrow> Pool \<Rightarrow> Addr option \<times> Pool" where
  "Pool_lookup4 a p =
     (case by4 p (offset4 p a) of
        None \<Rightarrow> (None, p)
      | Some r \<Rightarrow>
          if hDormant (hosts p ! r) then (None, p)
          else
            let (now, p) = tick p; p = upd_host r (\<lambda>d. d\<lparr>lastUse := now\<rparr>) p
            in (Some (hV6 (hosts p ! r)), p))"

definition activate :: "nat \<Rightarrow> int \<Rightarrow> Pool \<Rightarrow> Pool" where
  "activate r now p =
     (let p = p\<lparr>dormant := AList.delete (hV6 (hosts p ! r)) (dormant p)\<rparr>;
          p = upd_host r (\<lambda>d. d\<lparr>hDormant := False, lastUse := now\<rparr>) p
      in p\<lparr>mapped := AList.update (hV6 (hosts p ! r)) r (mapped p)\<rparr>)"

text \<open>
  The inner loop of the hash. The code runs it while bits of \<open>h\<close> lie above the host mask;
  each pass makes \<open>h\<close> smaller when the mask has at least one bit, as every pool's does
  (\<open>hash_fold_unfold\<close> below), and the test of that keeps the definition total.
\<close>

function hash_fold :: "u32 \<Rightarrow> nat \<Rightarrow> u32 \<Rightarrow> u32" where
  "hash_fold mx k h =
     (let h' = (h AND mx) + drop_bit k h
      in if h AND NOT mx \<noteq> 0 \<and> h' < h then hash_fold mx k h' else h)"
  by pat_completeness auto

termination
  by (relation "measure (\<lambda>(mx, k, h). unat h)") (auto simp: word_less_nat_alt Let_def)

declare hash_fold.simps [simp del]

definition hash :: "Pool \<Rightarrow> Addr \<Rightarrow> u32" where
  "hash p a =
     foldl (\<lambda>h i. hash_fold (pMax p) (nat (32 - pBits (pPrefix p))) (h + get32 (As16 a) i)) 0 [0, 4, 8, 12]"

text \<open>The search for a free offset: \<open>n\<close> passes are left, \<open>i\<close> is the loop variable.\<close>

fun search :: "Pool \<Rightarrow> u32 \<Rightarrow> nat \<Rightarrow> u32 \<Rightarrow> u32 option" where
  "search p h 0 i = None"
| "search p h (Suc n) i =
     (let off = (h + i) AND pMax p in
      if off = 0 \<or> isUsed p off then search p h n (i + 1)
      else if reserved p (addr p off) then search p h n (i + 1)
      else Some off)"

text \<open>The least recently used of some hosts, the first one met if several are.\<close>

definition oldest :: "Pool \<Rightarrow> (Addr \<times> nat) list \<Rightarrow> nat option" where
  "oldest p ds =
     foldl (\<lambda>o' (v6, r).
              case o' of None \<Rightarrow> Some r
              | Some q \<Rightarrow> if lastUse (hosts p ! r) < lastUse (hosts p ! q) then Some r else Some q) None ds"

text \<open>A new host in the heap, then its bit, its entry by offset, and its activation.\<close>

definition assign_new :: "Addr \<Rightarrow> u32 \<Rightarrow> int \<Rightarrow> Pool \<Rightarrow> Pool" where
  "assign_new a off now p =
     (let r = length (hosts p);
          p = p\<lparr>hosts := hosts p @ [\<lparr>hV4 = addr p off, hV6 = a, hOff = off, lastUse = 0, hDormant = False\<rparr>]\<rparr>;
          p = setUsed off p;
          p = p\<lparr>by4 := (by4 p)(off \<mapsto> r)\<rparr>;
          p = activate r now p;
          p = p\<lparr>dirty := True\<rparr>
      in Pool_event ReasonDynamicAssigned r p)"

definition steal :: "Addr \<Rightarrow> nat \<Rightarrow> int \<Rightarrow> Pool \<Rightarrow> Pool" where
  "steal a r now p =
     (let p = p\<lparr>dormant := AList.delete (hV6 (hosts p ! r)) (dormant p)\<rparr>;
          p = upd_host r (\<lambda>d. d\<lparr>hV6 := a\<rparr>) p;
          p = activate r now p;
          p = p\<lparr>dirty := True\<rparr>
      in Pool_event ReasonDynamicReassigned r p)"

definition assign_at :: "int \<Rightarrow> iter \<Rightarrow> Addr \<Rightarrow> Pool \<Rightarrow> Addr option \<times> Pool" where
  "assign_at now it a p =
     (case map_of (mapped p) a of
        Some r \<Rightarrow> (Some (hV4 (hosts p ! r)), upd_host r (\<lambda>d. d\<lparr>lastUse := now\<rparr>) p)
      | None \<Rightarrow>
      case map_of (dormant p) a of
        Some r \<Rightarrow>
          let p = activate r now p; p = Pool_event ReasonDynamicReactivated r p
          in (Some (hV4 (hosts p ! r)), p)
      | None \<Rightarrow>
      case search p (hash p a) (unat (pMax p) + 1) 0 of
        Some off \<Rightarrow> (Some (addr p off), assign_new a off now p)
      | None \<Rightarrow>
      case oldest p (it (dormant p)) of
        None \<Rightarrow>
          (None, observe \<lparr>evKind = KindDynamic, evReason = ReasonDynamicExhausted, evFamily = 0, evProto = 0,
                          evLength = 0, evSrc = NoAddr, evDst = a\<rparr> p)
      | Some r \<Rightarrow> let p = steal a r now p in (Some (hV4 (hosts p ! r)), p))"

definition assign :: "iter \<Rightarrow> Addr \<Rightarrow> Pool \<Rightarrow> Addr option \<times> Pool" where
  "assign it a p = (let (now, p) = tick p in assign_at now it a p)"

definition Pool_lookup6 :: "iter \<Rightarrow> Addr \<Rightarrow> bool \<Rightarrow> Pool \<Rightarrow> Addr option \<times> Pool" where
  "Pool_lookup6 it a allocate p =
     (case map_of (mapped p) a of
        Some r \<Rightarrow>
          let (now, p) = tick p; p = upd_host r (\<lambda>d. d\<lparr>lastUse := now\<rparr>) p
          in (Some (hV4 (hosts p ! r)), p)
      | None \<Rightarrow> if \<not> allocate then (None, p) else assign it a p)"

subsection \<open>Expiry\<close>

definition expire_mapped :: "int \<Rightarrow> int \<Rightarrow> Addr \<times> nat \<Rightarrow> Pool \<Rightarrow> Pool" where
  "expire_mapped mn now e p =
     (case e of (v6, r) \<Rightarrow>
      if lastUse (hosts p ! r) + mn < now then
        let p = p\<lparr>mapped := AList.delete v6 (mapped p)\<rparr>;
            p = upd_host r (\<lambda>d. d\<lparr>hDormant := True\<rparr>) p;
            p = p\<lparr>dormant := AList.update v6 r (dormant p)\<rparr>
        in Pool_event ReasonDynamicDormant r p
      else p)"

definition expire_dormant :: "int \<Rightarrow> int \<Rightarrow> Addr \<times> nat \<Rightarrow> Pool \<Rightarrow> Pool" where
  "expire_dormant mx now e p =
     (case e of (v6, r) \<Rightarrow>
      if lastUse (hosts p ! r) + mx < now then
        let p = p\<lparr>dormant := AList.delete v6 (dormant p)\<rparr>;
            p = p\<lparr>by4 := (by4 p)(hOff (hosts p ! r) := None)\<rparr>;
            p = clearUsed (hOff (hosts p ! r)) p;
            p = p\<lparr>dirty := True\<rparr>
        in Pool_event ReasonDynamicReleased r p
      else p)"

definition Maintain :: "iter \<Rightarrow> Pool \<Rightarrow> Pool" where
  "Maintain it p =
     (let (now, p) = tick p;
          mn = minLease p div Second;
          mx = maxLease p div Second;
          p = fold (expire_mapped mn now) (it (mapped p)) p
      in fold (expire_dormant mx now) (it (dormant p)) p)"

subsection \<open>Persistence\<close>

text \<open>
  A line of the file as \<^verbatim>\<open>read\<close> sees it: one it skips (empty, a comment, not three
  fields, a field that does not parse), or two addresses and a number.
\<close>

datatype line = Skipped | Fields Addr Addr int

definition Pool_write :: "iter \<Rightarrow> Pool \<Rightarrow> line list \<times> Pool" where
  "Pool_write it p =
     (let (now, p) = tick p;
          rs = map snd (it (mapped p)) @ map snd (it (dormant p));
          rs = sort_key (\<lambda>r. hOff (hosts p ! r)) rs
      in (replicate 5 Skipped @ map (\<lambda>r. Fields (hV4 (hosts p ! r)) (hV6 (hosts p ! r)) (lastUse (hosts p ! r))) rs, p))"

text \<open>
  \<^verbatim>\<open>Save\<close> on a file system where each of its four calls may fail; the file at the path
  is \<open>None\<close> when it does not exist. A failure before the rename leaves it alone.
\<close>

record io =
  ioOpen :: bool
  ioWrite :: bool
  ioClose :: bool
  ioRename :: bool

datatype save_error = OpenFailed | WriteFailed | CloseFailed | RenameFailed

definition Save :: "iter \<Rightarrow> io \<Rightarrow> line list option \<Rightarrow> Pool \<Rightarrow> save_error option \<times> line list option \<times> Pool" where
  "Save it s file p =
     (if \<not> ioOpen s then (Some OpenFailed, file, p)
      else
        let (content, p) = Pool_write it p;
            err = (if ioWrite s then None else Some WriteFailed);
            p = (if err = None then p\<lparr>dirty := False\<rparr> else p);
            err = (if \<not> ioClose s \<and> err = None then Some CloseFailed else err)
        in
        if err \<noteq> None then (err, file, p)
        else if \<not> ioRename s then (Some RenameFailed, file, p)
        else (None, Some content, p))"

text \<open>One line of \<^verbatim>\<open>read\<close>: the state is the pool, the hosts loaded so far and \<open>future\<close>.\<close>

definition read_line :: "int \<Rightarrow> line \<Rightarrow> Pool \<times> nat list \<times> bool \<Rightarrow> Pool \<times> nat list \<times> bool" where
  "read_line now l s =
     (case s of (p, loaded, future) \<Rightarrow>
      case l of
        Skipped \<Rightarrow> s
      | Fields v4 v6 lu \<Rightarrow>
          if lu \<le> 0 \<or> \<not> Is4 v4 \<or> \<not> Is6 v6 then s
          else if \<not> Contains (pPrefix p) v4 \<or> \<not> ValidIPv6 (As16 v6) then s
          else
            let off = offset4 p v4 in
            if off = 0 \<or> isUsed p off \<or> reserved p v4 then s
            else if map_of (dormant p) v6 \<noteq> None then s
            else if map_of (mapped p) v6 \<noteq> None then s
            else
              let r = length (hosts p);
                  p = p\<lparr>hosts := hosts p @ [\<lparr>hV4 = v4, hV6 = v6, hOff = off, lastUse = lu, hDormant = True\<rparr>]\<rparr>;
                  p = setUsed off p;
                  p = p\<lparr>by4 := (by4 p)(off \<mapsto> r)\<rparr>;
                  p = p\<lparr>dormant := AList.update v6 r (dormant p)\<rparr>
              in (p, loaded @ [r], future \<or> lu > now))"

definition read_settle :: "int \<Rightarrow> int \<Rightarrow> bool \<Rightarrow> nat \<Rightarrow> Pool \<Rightarrow> Pool" where
  "read_settle mn now future r p =
     (if future then upd_host r (\<lambda>d. d\<lparr>lastUse := now - mn\<rparr>) p
      else if lastUse (hosts p ! r) + mn \<ge> now then activate r (lastUse (hosts p ! r)) p
      else p)"

text \<open>\<open>scanErr\<close>: the scanner stopped on a read error. The result is the count and the error.\<close>

definition Pool_read :: "bool \<Rightarrow> line list \<Rightarrow> Pool \<Rightarrow> (nat \<times> bool) \<times> Pool" where
  "Pool_read scanErr ls p =
     (let (now, p) = tick p;
          mn = minLease p div Second;
          (p, loaded, future) = fold (read_line now) ls (p, [], False)
      in
      if scanErr then ((length loaded, True), p)
      else ((length loaded, False), fold (read_settle mn now future) loaded p))"

datatype load_file = NotExist | OpenError | Contents "line list" bool

definition Load :: "load_file \<Rightarrow> Pool \<Rightarrow> (nat \<times> bool) \<times> Pool" where
  "Load f p =
     (case f of NotExist \<Rightarrow> ((0, False), p) | OpenError \<Rightarrow> ((0, True), p) | Contents ls e \<Rightarrow> Pool_read e ls p)"

subsection \<open>Reporting\<close>

record Assignment =
  aIPv4 :: Addr
  aIPv6 :: Addr
  aLastUse :: int
  aDormant :: bool

fun addr_key :: "Addr \<Rightarrow> nat" where
  "addr_key NoAddr = 0"
| "addr_key (IPv4 w) = Suc (unat w)"
| "addr_key (IPv6 w) = Suc (2 ^ 32 + unat w)"

definition Assignments :: "iter \<Rightarrow> Pool \<Rightarrow> Assignment list" where
  "Assignments it p =
     sort_key (\<lambda>a. addr_key (aIPv4 a))
       (map (\<lambda>(_, r). let d = hosts p ! r in \<lparr>aIPv4 = hV4 d, aIPv6 = hV6 d, aLastUse = lastUse d, aDormant = False\<rparr>) (it (mapped p))
        @ map (\<lambda>(_, r). let d = hosts p ! r in \<lparr>aIPv4 = hV4 d, aIPv6 = hV6 d, aLastUse = lastUse d, aDormant = True\<rparr>) (it (dormant p)))"

definition Pool_Stats :: "Pool \<Rightarrow> nat \<times> nat \<times> nat" where
  "Pool_Stats p = (unat (pMax p), length (mapped p), length (dormant p))"

definition usedCount :: "Pool \<Rightarrow> int" where
  "usedCount p = sum_list (map (\<lambda>w. int (length (filter (bit w) [0..<64]))) (used p)) - 1"

end
