(* ===== verification/AddrMap.thy ===== *)
theory AddrMap
  imports Pool Xlate "HOL-Library.Product_Lexorder"
begin

text \<open>
  Model of \<^verbatim>\<open>src/internal/addrmap/table.go\<close>: the builder of a mapping table and the table.

  The pool behind a table changes as addresses are looked up, so the operations of the
  table return it updated; the other fields never change. A pointer to an entry is
  modelled by the entry: the code compares pointers with the entry of the prefix and that of
  the pool only, of which \<^verbatim>\<open>AddPrefix\<close> and \<^verbatim>\<open>SetPool\<close> admit one each, and to drop
  repetitions in \<^verbatim>\<open>Entries\<close>, where no two entries are equal (\<open>Build_entries_distinct\<close>).
  The two maps of hosts are association lists; the order in which Go iterates over them is
  an argument. The messages of the errors are constructors. The field \<^verbatim>\<open>err\<close> of the
  builder, which nothing uses, is left out; an entry for a pool without the pool, which no
  builder makes and which would be a nil dereference, maps to \<open>ErrDrop\<close>.
\<close>

subsection \<open>Entries and tables\<close>

datatype Kind = KindStatic | KindRFC6052 | KindDynamicPool | KindDynamicHost

fun EntryKind_String :: "Kind \<Rightarrow> string" where
  "EntryKind_String KindStatic = ''static''"
| "EntryKind_String KindRFC6052 = ''rfc6052''"
| "EntryKind_String KindDynamicPool = ''dynamic-pool''"
| "EntryKind_String KindDynamicHost = ''dynamic-host''"

record Entry =
  eKind :: Kind
  eV4 :: Prefix
  eV6 :: Prefix
  v4Only :: bool

record Table =
  tWkpfStrict :: bool
  tPrefix :: "Entry option"
  hosts4 :: "(Addr \<times> Entry) list"
  hosts6 :: "(Addr \<times> Entry) list"
  nets4 :: "Entry list"
  nets6 :: "Entry list"
  tPool :: "Pool option"
  poolEntry :: "Entry option"

datatype table_error =
    PrefixNotIPv6 Prefix | PrefixLength Prefix | PrefixHostBits Prefix | PrefixReserved Prefix
  | DuplicatePrefix Prefix
  | MapNotIPv4 Prefix | MapNotIPv6 Prefix | MapSizes Prefix Prefix | MapHostBits Prefix Prefix
  | MapReserved4 Prefix | MapReserved6 Prefix
  | SelfReserved Addr
  | DuplicatePool
  | AddressMappedTwice Addr | PrefixMappedTwice Prefix | PoolIsStatic Prefix | EntriesOverlap Entry Entry

text \<open>The errors that wrap \<^verbatim>\<open>ErrConflict\<close>.\<close>

fun ErrConflict :: "table_error \<Rightarrow> bool" where
  "ErrConflict (DuplicatePrefix _) = True"
| "ErrConflict DuplicatePool = True"
| "ErrConflict (AddressMappedTwice _) = True"
| "ErrConflict (PrefixMappedTwice _) = True"
| "ErrConflict (PoolIsStatic _) = True"
| "ErrConflict (EntriesOverlap _ _) = True"
| "ErrConflict _ = False"

subsection \<open>The builder\<close>

record Builder =
  bWkpfStrict :: bool
  bEntries :: "Entry list"
  bPool :: "Pool option"

definition NewBuilder :: "bool \<Rightarrow> Builder" where
  "NewBuilder strict = \<lparr>bWkpfStrict = strict, bEntries = [], bPool = None\<rparr>"

definition AddPrefix :: "Prefix \<Rightarrow> Builder \<Rightarrow> table_error + Builder" where
  "AddPrefix p b =
     (if \<not> Is6 (pAddr p) \<or> Is4In6 (pAddr p) then Inl (PrefixNotIPv6 p)
      else if \<not> ValidRFC6052PrefixLen (pBits p) then Inl (PrefixLength p)
      else if p \<noteq> Masked p then Inl (PrefixHostBits p)
      else if \<not> ValidIPv6 (As16 (pAddr p)) then Inl (PrefixReserved p)
      else if list_ex (\<lambda>e. eKind e = KindRFC6052) (bEntries b) then Inl (DuplicatePrefix p)
      else Inr (b\<lparr>bEntries := bEntries b @ [\<lparr>eKind = KindRFC6052, eV4 = PrefixFrom (IPv4 0) 0, eV6 = p, v4Only = False\<rparr>]\<rparr>))"

definition AddStatic :: "Prefix \<Rightarrow> Prefix \<Rightarrow> Builder \<Rightarrow> table_error + Builder" where
  "AddStatic v4 v6 b =
     (if \<not> Is4 (pAddr v4) then Inl (MapNotIPv4 v4)
      else if \<not> Is6 (pAddr v6) \<or> Is4In6 (pAddr v6) then Inl (MapNotIPv6 v6)
      else if 32 - pBits v4 \<noteq> 128 - pBits v6 then Inl (MapSizes v4 v6)
      else if v4 \<noteq> Masked v4 \<or> v6 \<noteq> Masked v6 then Inl (MapHostBits v4 v6)
      else if ClassifyIPv4 (As4 (pAddr v4)) = IPv4Invalid then Inl (MapReserved4 v4)
      else if \<not> ValidIPv6 (As16 (pAddr v6)) then Inl (MapReserved6 v6)
      else Inr (b\<lparr>bEntries := bEntries b @ [\<lparr>eKind = KindStatic, eV4 = v4, eV6 = v6, v4Only = False\<rparr>]\<rparr>))"

definition AddSelf :: "Addr \<Rightarrow> Addr \<Rightarrow> bool \<Rightarrow> Builder \<Rightarrow> table_error + Builder" where
  "AddSelf v4 v6 v6Derived b =
     (let p4 = PrefixFrom v4 32; p6 = PrefixFrom v6 128 in
      if \<not> v6Derived then AddStatic p4 p6 b
      else if \<not> Is4 v4 \<or> ClassifyIPv4 (As4 v4) = IPv4Invalid then Inl (SelfReserved v4)
      else Inr (b\<lparr>bEntries := bEntries b @ [\<lparr>eKind = KindStatic, eV4 = p4, eV6 = p6, v4Only = True\<rparr>]\<rparr>))"

definition SetPool :: "Pool \<Rightarrow> Builder \<Rightarrow> table_error + Builder" where
  "SetPool p b =
     (if bPool b \<noteq> None then Inl DuplicatePool
      else Inr (b\<lparr>bPool := Some p,
                  bEntries := bEntries b @ [\<lparr>eKind = KindDynamicPool, eV4 = pPrefix p, eV6 = NoPrefix, v4Only = False\<rparr>]\<rparr>))"

subsection \<open>Lookup\<close>

definition Table_lookup4 :: "Table \<Rightarrow> Addr \<Rightarrow> Entry option" where
  "Table_lookup4 t a =
     (case map_of (hosts4 t) a of
        Some e \<Rightarrow> Some e
      | None \<Rightarrow> find (\<lambda>e. Contains (eV4 e) a) (nets4 t))"

definition Table_lookup6 :: "Table \<Rightarrow> Addr \<Rightarrow> Entry option" where
  "Table_lookup6 t a =
     (case map_of (hosts6 t) a of
        Some e \<Rightarrow> Some e
      | None \<Rightarrow> find (\<lambda>e. Contains (eV6 e) a) (nets6 t))"

subsection \<open>Building\<close>

text \<open>The loop over the entries for the IPv4 side; the second component is \<open>v6s\<close>.\<close>

fun build4 :: "Entry list \<Rightarrow> Table \<times> Entry list \<Rightarrow> table_error + (Table \<times> Entry list)" where
  "build4 [] s = Inr s"
| "build4 (e # es) (t, v6s) =
     (case eKind e of
        KindRFC6052 \<Rightarrow> build4 es (t\<lparr>tPrefix := Some e, nets4 := nets4 t @ [e]\<rparr>, v6s @ [e])
      | KindDynamicPool \<Rightarrow> build4 es (t\<lparr>poolEntry := Some e, nets4 := nets4 t @ [e]\<rparr>, v6s)
      | KindStatic \<Rightarrow>
          let v6s' = (if v4Only e then v6s else v6s @ [e]) in
          if pBits (eV4 e) = 32 then
            if map_of (hosts4 t) (pAddr (eV4 e)) \<noteq> None then Inl (AddressMappedTwice (pAddr (eV4 e)))
            else build4 es (t\<lparr>hosts4 := AList.update (pAddr (eV4 e)) e (hosts4 t)\<rparr>, v6s')
          else if list_ex (\<lambda>o'. eKind o' \<noteq> KindDynamicPool \<and> eV4 o' = eV4 e) (nets4 t) then Inl (PrefixMappedTwice (eV4 e))
          else build4 es (t\<lparr>nets4 := nets4 t @ [e]\<rparr>, v6s')
      | KindDynamicHost \<Rightarrow> build4 es (t, v6s))"

text \<open>The loop for the IPv6 side; \<open>prev\<close> is \<open>v6s[:i]\<close>.\<close>

fun build6 :: "Entry list \<Rightarrow> Entry list \<Rightarrow> Table \<Rightarrow> table_error + Table" where
  "build6 prev [] t = Inr t"
| "build6 prev (e # es) t =
     (case find (\<lambda>o'. Overlaps (eV6 o') (eV6 e)) prev of
        Some o' \<Rightarrow> Inl (EntriesOverlap e o')
      | None \<Rightarrow>
          build6 (prev @ [e]) es
            (if eKind e = KindStatic \<and> pBits (eV6 e) = 128
             then t\<lparr>hosts6 := AList.update (pAddr (eV6 e)) e (hosts6 t)\<rparr>
             else t\<lparr>nets6 := nets6 t @ [e]\<rparr>))"

text \<open>An address is reserved in the pool when it does not lead to the pool.\<close>

definition Table_reserved :: "Table \<Rightarrow> Addr \<Rightarrow> bool" where
  "Table_reserved t a \<longleftrightarrow> Table_lookup4 t a \<noteq> poolEntry t"

definition Build :: "Builder \<Rightarrow> table_error + Table" where
  "Build b =
     (let t = \<lparr>tWkpfStrict = bWkpfStrict b, tPrefix = None, hosts4 = [], hosts6 = [], nets4 = [], nets6 = [],
               tPool = bPool b, poolEntry = None\<rparr>;
          entries = sort_key (\<lambda>e. - pBits (eV4 e)) (bEntries b)
      in
      case build4 entries (t, []) of
        Inl e \<Rightarrow> Inl e
      | Inr (t, v6s) \<Rightarrow>
      case (case poolEntry t of None \<Rightarrow> None
            | Some pe \<Rightarrow> find (\<lambda>o'. o' \<noteq> pe \<and> eKind o' = KindStatic \<and> eV4 o' = eV4 pe) (nets4 t)) of
        Some o' \<Rightarrow> Inl (PoolIsStatic (eV4 o'))
      | None \<Rightarrow>
      case build6 [] (sort_key (\<lambda>e. - pBits (eV6 e)) v6s) t of
        Inl e \<Rightarrow> Inl e
      | Inr t \<Rightarrow> Inr (t\<lparr>tPool := map_option (\<lambda>p. p\<lparr>reserved := Table_reserved t\<rparr>) (tPool t)\<rparr>))"

subsection \<open>Reporting\<close>

definition Table_Prefix :: "Table \<Rightarrow> Prefix \<times> bool" where
  "Table_Prefix t = (case tPrefix t of None \<Rightarrow> (NoPrefix, False) | Some e \<Rightarrow> (eV6 e, True))"

definition Table_Pool :: "Table \<Rightarrow> Pool option" where
  "Table_Pool t = tPool t"

fun kind_num :: "Kind \<Rightarrow> nat" where
  "kind_num KindStatic = 0"
| "kind_num KindRFC6052 = 1"
| "kind_num KindDynamicPool = 2"
| "kind_num KindDynamicHost = 3"

text \<open>
  \<open>it\<close> is the order of the iterations over the two maps; \<^verbatim>\<open>sort.Slice\<close> is not stable, so
  equal elements come out in the order some permutation \<open>pm\<close> gives them.
\<close>

definition Entries :: "((Addr \<times> Entry) list \<Rightarrow> (Addr \<times> Entry) list) \<Rightarrow> (Entry list \<Rightarrow> Entry list) \<Rightarrow> Table \<Rightarrow> Entry list" where
  "Entries it pm t =
     (let add = (\<lambda>e out. if e \<in> set out then out else out @ [e]);
          out = fold add (map snd (it (hosts4 t))) [];
          out = fold add (nets4 t) out;
          out = fold add (map snd (it (hosts6 t))) out;
          out = fold add (nets6 t) out
      in sort_key (\<lambda>e. (kind_num (eKind e), addr_key (pAddr (eV4 e)))) (pm out))"

subsection \<open>Mapping\<close>

text \<open>The host bits of an address, in the low bytes of the other family's prefix.\<close>

definition joinStatic6 :: "Entry \<Rightarrow> Addr \<Rightarrow> Addr" where
  "joinStatic6 e a =
     (if pBits (eV4 e) = 32 then pAddr (eV6 e)
      else
        let hostMask = drop_bit (nat (pBits (eV4 e))) (0xffffffff :: u32);
            host = get32 (As4 a) 0 AND hostMask;
            v6 = As16 (pAddr (eV6 e));
            v6 = v6[12 := v6 ! 12 OR ucast (drop_bit 24 host)];
            v6 = v6[13 := v6 ! 13 OR ucast (drop_bit 16 host)];
            v6 = v6[14 := v6 ! 14 OR ucast (drop_bit 8 host)];
            v6 = v6[15 := v6 ! 15 OR ucast host]
        in AddrFrom16 v6)"

definition joinStatic4 :: "Entry \<Rightarrow> Addr \<Rightarrow> Addr" where
  "joinStatic4 e a =
     (if pBits (eV6 e) = 128 then pAddr (eV4 e)
      else
        let hostMask = drop_bit (nat (pBits (eV4 e))) (0xffffffff :: u32);
            host = get32 (As16 a) 12 AND hostMask;
            v4 = As4 (pAddr (eV4 e));
            v4 = v4[0 := v4 ! 0 OR ucast (drop_bit 24 host)];
            v4 = v4[1 := v4 ! 1 OR ucast (drop_bit 16 host)];
            v4 = v4[2 := v4 ! 2 OR ucast (drop_bit 8 host)];
            v4 = v4[3 := v4 ! 3 OR ucast host]
        in AddrFrom4 v4)"

definition Table_embed :: "Table \<Rightarrow> Addr \<Rightarrow> Prefix \<Rightarrow> map_error + Addr" where
  "Table_embed t a prefix =
     (let a4 = As4 a in
      if ClassifyIPv4 a4 \<noteq> IPv4Valid then Inl ErrDrop
      else if tWkpfStrict t \<and> IsWellKnownPrefix prefix \<and> IsPrivateIPv4 a4 then Inl ErrReject
      else case Embed (As16 (pAddr prefix)) (pBits prefix) a4 of
             Inl _ \<Rightarrow> Inl ErrDrop
           | Inr out \<Rightarrow> Inr (AddrFrom16 out))"

definition Table_MapIPv4ToIPv6 :: "Addr \<Rightarrow> Table \<Rightarrow> (map_error + Addr) \<times> Table" where
  "Table_MapIPv4ToIPv6 a t =
     (case Table_lookup4 t a of
        None \<Rightarrow> (Inl ErrReject, t)
      | Some e \<Rightarrow>
      case eKind e of
        KindStatic \<Rightarrow> (Inr (joinStatic6 e a), t)
      | KindRFC6052 \<Rightarrow> (Table_embed t a (eV6 e), t)
      | KindDynamicPool \<Rightarrow>
          (case tPool t of
             None \<Rightarrow> (Inl ErrDrop, t)
           | Some p \<Rightarrow>
             case Pool_lookup4 a p of (r, p) \<Rightarrow>
             (case r of Some v6 \<Rightarrow> Inr v6 | None \<Rightarrow> Inl ErrReject, t\<lparr>tPool := Some p\<rparr>))
      | KindDynamicHost \<Rightarrow> (Inl ErrDrop, t))"

definition Table_MapIPv6ToIPv4 :: "iter \<Rightarrow> Addr \<Rightarrow> bool \<Rightarrow> Table \<Rightarrow> (map_error + Addr) \<times> Table" where
  "Table_MapIPv6ToIPv4 it a allocate t =
     (case Table_lookup6 t a of
        None \<Rightarrow>
          (case tPool t of
             None \<Rightarrow> (Inl ErrReject, t)
           | Some p \<Rightarrow>
             case Pool_lookup6 it a allocate p of (r, p) \<Rightarrow>
             (case r of Some v4 \<Rightarrow> Inr v4 | None \<Rightarrow> Inl ErrReject, t\<lparr>tPool := Some p\<rparr>))
      | Some e \<Rightarrow>
      case eKind e of
        KindStatic \<Rightarrow> (Inr (joinStatic4 e a), t)
      | KindRFC6052 \<Rightarrow>
          (case Extract (As16 a) (pBits (eV6 e)) of
             Inl _ \<Rightarrow> (Inl ErrDrop, t)
           | Inr v4b \<Rightarrow>
             if ClassifyIPv4 v4b \<noteq> IPv4Valid then (Inl ErrDrop, t)
             else if tWkpfStrict t \<and> IsWellKnownPrefix (eV6 e) \<and> IsPrivateIPv4 v4b then (Inl ErrReject, t)
             else
               let v4 = AddrFrom4 v4b in
               if Table_lookup4 t v4 \<noteq> Some e then (Inl ErrDrop, t) else (Inr v4, t))
      | _ \<Rightarrow> (Inl ErrDrop, t))"

definition Table_mapper :: "iter \<Rightarrow> Table Mapper" where
  "Table_mapper it = \<lparr>MapIPv4ToIPv6 = Table_MapIPv4ToIPv6, MapIPv6ToIPv4 = Table_MapIPv6ToIPv4 it\<rparr>"

end
