(* ===== verification/PoolInv.thy ===== *)
theory PoolInv
  imports Pool "HOL-Library.Multiset"
begin

text \<open>
  The invariant of the dynamic pool, and that every operation of \<^verbatim>\<open>pool.go\<close> keeps it.
\<close>

subsection \<open>The bitmap\<close>

lemma and_push_bit_neq_0: "(w :: u64) AND push_bit n 1 \<noteq> 0 \<longleftrightarrow> n < 64 \<and> bit w n"
proof
  assume "w AND push_bit n 1 \<noteq> 0"
  then obtain m where "bit (w AND push_bit n 1) m" by (metis bit_eqI bit_0_eq bot_apply bot_bool_def)
  then show "n < 64 \<and> bit w n" by (auto simp: bit_simps dest: bit_imp_le_length)
next
  assume "n < 64 \<and> bit w n"
  then have "bit (w AND push_bit n 1) n" by (simp add: bit_simps)
  then show "w AND push_bit n 1 \<noteq> 0" by auto
qed

lemma unat_div_mod64: "unat (off div 64 :: u32) = unat off div 64" "unat (off mod 64 :: u32) = unat off mod 64"
  by (simp_all add: unat_div_distrib unat_mod_distrib)

lemma isUsed_bit: "isUsed p off \<longleftrightarrow> bit (used p ! (unat off div 64)) (unat off mod 64)"
  unfolding isUsed_def unat_div_mod64 and_push_bit_neq_0 by simp

lemma off_eq_iff: "off = off' \<longleftrightarrow> unat off div 64 = unat off' div 64 \<and> unat off mod 64 = unat (off' :: u32) mod 64"
  by (metis div_mult_mod_eq word_unat_eq_iff)

lemma isUsed_setUsed:
  "unat off div 64 < length (used p) \<Longrightarrow> isUsed (setUsed off p) off' \<longleftrightarrow> off' = off \<or> isUsed p off'"
  by (auto simp: isUsed_bit setUsed_def unat_div_mod64 nth_list_update bit_simps off_eq_iff)

lemma isUsed_clearUsed:
  "unat off div 64 < length (used p) \<Longrightarrow> isUsed (clearUsed off p) off' \<longleftrightarrow> off' \<noteq> off \<and> isUsed p off'"
  by (auto simp: isUsed_bit clearUsed_def unat_div_mod64 nth_list_update bit_simps off_eq_iff)

lemma setUsed_simps [simp]:
  "pPrefix (setUsed off p) = pPrefix p" "pBase (setUsed off p) = pBase p" "pMax (setUsed off p) = pMax p"
  "by4 (setUsed off p) = by4 p" "mapped (setUsed off p) = mapped p" "dormant (setUsed off p) = dormant p"
  "hosts (setUsed off p) = hosts p" "length (used (setUsed off p)) = length (used p)" "reserved (setUsed off p) = reserved p"
  by (simp_all add: setUsed_def)

lemma clearUsed_simps [simp]:
  "pPrefix (clearUsed off p) = pPrefix p" "pBase (clearUsed off p) = pBase p" "pMax (clearUsed off p) = pMax p"
  "by4 (clearUsed off p) = by4 p" "mapped (clearUsed off p) = mapped p" "dormant (clearUsed off p) = dormant p"
  "hosts (clearUsed off p) = hosts p" "length (used (clearUsed off p)) = length (used p)" "reserved (clearUsed off p) = reserved p"
  by (simp_all add: clearUsed_def)

lemma isUsed_update [simp]:
  "isUsed (p\<lparr>mapped := m\<rparr>) = isUsed p" "isUsed (p\<lparr>dormant := m\<rparr>) = isUsed p" "isUsed (p\<lparr>by4 := b\<rparr>) = isUsed p"
  "isUsed (p\<lparr>hosts := hs\<rparr>) = isUsed p" "isUsed (p\<lparr>dirty := d\<rparr>) = isUsed p" "isUsed (p\<lparr>pTrace := tr\<rparr>) = isUsed p"
  "isUsed (p\<lparr>clock := c\<rparr>) = isUsed p" "isUsed (p\<lparr>reserved := rs\<rparr>) = isUsed p"
  "isUsed (p\<lparr>minLease := x\<rparr>) = isUsed p" "isUsed (p\<lparr>maxLease := x\<rparr>) = isUsed p" "isUsed (p\<lparr>pObs := ob\<rparr>) = isUsed p"
  by (rule ext; simp add: isUsed_def)+

subsection \<open>The invariant\<close>

text \<open>
  The host mask is \<open>k\<close> ones, \<open>1 \<le> k \<le> 24\<close>, and the base has none of its bits. A host is
  \<open>live\<close> while \<open>by4\<close> holds it under its offset. Every host in \<open>by4\<close> is live, with a nonzero
  offset of at most the mask and the address of that offset, and no two of them have the
  same IPv6 address. The bitmap marks offset zero and the offsets in \<open>by4\<close>; \<open>mapped\<close> and
  \<open>dormant\<close> hold the live hosts, by their flag, under their IPv6 address.
\<close>

definition geometry :: "Pool \<Rightarrow> bool" where
  "geometry p \<longleftrightarrow> 8 \<le> pBits (pPrefix p) \<and> pBits (pPrefix p) \<le> 31 \<and> pAddr (pPrefix p) = IPv4 (pBase p)
     \<and> pMax p = mask (nat (32 - pBits (pPrefix p))) \<and> pBase p AND pMax p = 0
     \<and> length (used p) = (unat (pMax p) + 64) div 64"

definition live :: "Pool \<Rightarrow> nat \<Rightarrow> bool" where
  "live p r \<longleftrightarrow> by4 p (hOff (hosts p ! r)) = Some r"

definition indexed :: "Pool \<Rightarrow> bool" where
  "indexed p \<longleftrightarrow>
     (\<forall>off r. by4 p off = Some r \<longrightarrow> r < length (hosts p) \<and> hOff (hosts p ! r) = off \<and> hV4 (hosts p ! r) = addr p off
        \<and> off \<noteq> 0 \<and> off \<le> pMax p)
     \<and> (\<forall>q r. live p q \<longrightarrow> live p r \<longrightarrow> hV6 (hosts p ! q) = hV6 (hosts p ! r) \<longrightarrow> q = r)"

definition marked :: "Pool \<Rightarrow> bool" where
  "marked p \<longleftrightarrow> (\<forall>off. off \<le> pMax p \<longrightarrow> (isUsed p off \<longleftrightarrow> off = 0 \<or> by4 p off \<noteq> None))"

definition listed :: "Pool \<Rightarrow> (Addr \<times> nat) list \<Rightarrow> bool \<Rightarrow> bool" where
  "listed p m fl \<longleftrightarrow> distinct (map fst m) \<and>
     (\<forall>a r. map_of m a = Some r \<longleftrightarrow> live p r \<and> hV6 (hosts p ! r) = a \<and> hDormant (hosts p ! r) = fl)"

definition pool_ok :: "Pool \<Rightarrow> bool" where
  "pool_ok p \<longleftrightarrow> geometry p \<and> marked p \<and> indexed p \<and> listed p (mapped p) False \<and> listed p (dormant p) True"

lemma addr_update [simp]:
  "addr (p\<lparr>mapped := m\<rparr>) = addr p" "addr (p\<lparr>dormant := m\<rparr>) = addr p" "addr (p\<lparr>by4 := b\<rparr>) = addr p"
  "addr (p\<lparr>hosts := hs\<rparr>) = addr p" "addr (p\<lparr>dirty := d\<rparr>) = addr p" "addr (p\<lparr>pTrace := tr\<rparr>) = addr p"
  "addr (p\<lparr>clock := c\<rparr>) = addr p" "addr (p\<lparr>reserved := rs\<rparr>) = addr p" "addr (setUsed off p) = addr p" "addr (clearUsed off p) = addr p"
  "addr (p\<lparr>minLease := x\<rparr>) = addr p" "addr (p\<lparr>maxLease := x\<rparr>) = addr p" "addr (p\<lparr>pObs := ob\<rparr>) = addr p"
  by (rule ext; simp add: addr_def setUsed_def clearUsed_def)+

lemmas pool_ok_defs = pool_ok_def geometry_def marked_def indexed_def listed_def live_def
lemmas alist_simps = update_conv' delete_conv' distinct_update distinct_delete

text \<open>What the invariant does not depend on.\<close>

lemma pool_ok_frame [simp]:
  "pool_ok (p\<lparr>clock := c\<rparr>) = pool_ok p" "pool_ok (p\<lparr>pTrace := tr\<rparr>) = pool_ok p" "pool_ok (p\<lparr>dirty := d\<rparr>) = pool_ok p"
  "pool_ok (p\<lparr>reserved := rs\<rparr>) = pool_ok p" "pool_ok (p\<lparr>minLease := x\<rparr>) = pool_ok p" "pool_ok (p\<lparr>maxLease := x\<rparr>) = pool_ok p"
  "pool_ok (p\<lparr>pObs := ob\<rparr>) = pool_ok p"
  by (simp_all add: pool_ok_defs)

lemma pool_ok_observe [simp]: "pool_ok (observe e p) = pool_ok p" "pool_ok (Pool_event rs r p) = pool_ok p"
  by (simp_all add: observe_def Pool_event_def)

lemma pool_ok_tick [simp]: "pool_ok (snd (tick p)) = pool_ok p"
  by (simp add: tick_def)

lemma nth_upd: "xs[i := x] ! j = (if j = i \<and> i < length xs then x else xs ! j)"
  by (cases "i < length xs") (auto simp: nth_list_update list_update_beyond)

lemma touch_fields [simp]:
  "hV6 (hs[r := (hs ! r)\<lparr>lastUse := n\<rparr>] ! q) = hV6 (hs ! q)" "hV4 (hs[r := (hs ! r)\<lparr>lastUse := n\<rparr>] ! q) = hV4 (hs ! q)"
  "hOff (hs[r := (hs ! r)\<lparr>lastUse := n\<rparr>] ! q) = hOff (hs ! q)"
  "hDormant (hs[r := (hs ! r)\<lparr>lastUse := n\<rparr>] ! q) = hDormant (hs ! q)"
  by (simp_all add: nth_upd)

lemma pool_ok_touch [simp]: "pool_ok (upd_host r (\<lambda>d. d\<lparr>lastUse := n\<rparr>) p) = pool_ok p"
  by (simp add: pool_ok_defs upd_host_def)

lemma geometry_cong:
  "pPrefix p' = pPrefix p \<Longrightarrow> pBase p' = pBase p \<Longrightarrow> pMax p' = pMax p \<Longrightarrow> length (used p') = length (used p) \<Longrightarrow> geometry p' = geometry p"
  by (simp only: geometry_def)

lemma pool_okD:
  assumes "pool_ok p"
  shows "by4 p off = Some r \<Longrightarrow> r < length (hosts p) \<and> hOff (hosts p ! r) = off \<and> hV4 (hosts p ! r) = addr p off \<and> off \<noteq> 0 \<and> off \<le> pMax p"
    "live p q \<Longrightarrow> live p r \<Longrightarrow> hV6 (hosts p ! q) = hV6 (hosts p ! r) \<Longrightarrow> q = r"
    "map_of (mapped p) a = Some r \<longleftrightarrow> live p r \<and> hV6 (hosts p ! r) = a \<and> \<not> hDormant (hosts p ! r)"
    "map_of (dormant p) a = Some r \<longleftrightarrow> live p r \<and> hV6 (hosts p ! r) = a \<and> hDormant (hosts p ! r)"
    "off \<le> pMax p \<Longrightarrow> isUsed p off \<longleftrightarrow> off = 0 \<or> by4 p off \<noteq> None"
  using assms unfolding pool_ok_def indexed_def marked_def listed_def by blast+

lemma live_index: "pool_ok p \<Longrightarrow> by4 p off = Some r \<longleftrightarrow> live p r \<and> hOff (hosts p ! r) = off"
  using pool_okD(1) [of p off r] by (auto simp: live_def)

lemma live_length: "pool_ok p \<Longrightarrow> live p r \<Longrightarrow> r < length (hosts p)"
  using pool_okD(1) by (auto simp: live_def)

lemma pool_ok_dom:
  assumes "pool_ok p"
  shows "geometry p" "distinct (map fst (mapped p))" "distinct (map fst (dormant p))" "unat (pMax p) div 64 < length (used p)"
proof -
  show g: "geometry p" and "distinct (map fst (mapped p))" "distinct (map fst (dormant p))"
    using assms by (simp_all add: pool_ok_def listed_def)
  have "length (used p) = (unat (pMax p) + 64) div 64" using g unfolding geometry_def by blast
  then show "unat (pMax p) div 64 < length (used p)" by simp
qed

lemma pool_okI:
  assumes "geometry p" "distinct (map fst (mapped p))" "distinct (map fst (dormant p))"
    and "\<And>off r. by4 p off = Some r \<Longrightarrow> r < length (hosts p) \<and> hOff (hosts p ! r) = off \<and> hV4 (hosts p ! r) = addr p off \<and> off \<noteq> 0 \<and> off \<le> pMax p"
    and "\<And>q r. live p q \<Longrightarrow> live p r \<Longrightarrow> hV6 (hosts p ! q) = hV6 (hosts p ! r) \<Longrightarrow> q = r"
    and "\<And>a r. map_of (mapped p) a = Some r \<longleftrightarrow> live p r \<and> hV6 (hosts p ! r) = a \<and> \<not> hDormant (hosts p ! r)"
    and "\<And>a r. map_of (dormant p) a = Some r \<longleftrightarrow> live p r \<and> hV6 (hosts p ! r) = a \<and> hDormant (hosts p ! r)"
    and "\<And>off. off \<le> pMax p \<Longrightarrow> isUsed p off \<longleftrightarrow> off = 0 \<or> by4 p off \<noteq> None"
  shows "pool_ok p"
  using assms unfolding pool_ok_def marked_def indexed_def listed_def by blast

lemma map_upd_iff: "(f(a := v)) b = Some q \<longleftrightarrow> (if b = a then v = Some q else f b = Some q)"
  by simp

lemma map_upd2_iff: "(f(x := None, a := v)) b = Some q \<longleftrightarrow> (if b = a then v = Some q else b \<noteq> x \<and> f b = Some q)"
  by simp

text \<open>
  The three kinds of step: a change of address, flag and time of a live host \<open>r\<close>, a new host,
  and the removal of one, each with the maps brought in line.
\<close>

lemma pool_ok_change:
  assumes ok: "pool_ok p" and r: "live p r" and a: "\<And>q. live p q \<Longrightarrow> hV6 (hosts p ! q) = a \<Longrightarrow> q = r"
    and p': "by4 p' = by4 p" "used p' = used p" "pMax p' = pMax p" "pBase p' = pBase p" "pPrefix p' = pPrefix p"
      "hosts p' = (hosts p)[r := (hosts p ! r)\<lparr>hV6 := a, hDormant := fl, lastUse := n\<rparr>]"
    and d: "distinct (map fst (mapped p'))" "distinct (map fst (dormant p'))"
    and m: "map_of (mapped p') = (map_of (mapped p))(hV6 (hosts p ! r) := None, a := if fl then None else Some r)"
      "map_of (dormant p') = (map_of (dormant p))(hV6 (hosts p ! r) := None, a := if fl then Some r else None)"
  shows "pool_ok p'"
proof -
  have l: "r < length (hosts p)" using live_length [OF ok r] .
  have h: "hV6 (hosts p' ! q) = (if q = r then a else hV6 (hosts p ! q))" "hV4 (hosts p' ! q) = hV4 (hosts p ! q)"
    "hOff (hosts p' ! q) = hOff (hosts p ! q)" "hDormant (hosts p' ! q) = (if q = r then fl else hDormant (hosts p ! q))" for q
    using l by (auto simp: p' nth_list_update)
  have lv: "live p' = live p" by (rule ext) (simp only: live_def h p'(1))
  have u: "isUsed p' = isUsed p" "addr p' = addr p" by (rule ext; simp add: isUsed_def addr_def p')+
  have ne: "live p q \<Longrightarrow> q \<noteq> r \<Longrightarrow> hV6 (hosts p ! q) \<noteq> hV6 (hosts p ! r) \<and> hV6 (hosts p ! q) \<noteq> a" for q
    using a pool_okD(2) [OF ok _ r] by blast
  show ?thesis
  proof (rule pool_okI)
    show "geometry p'" using pool_ok_dom(1) [OF ok] geometry_cong [of p' p] p' by simp
    show "map_of (mapped p') b = Some q \<longleftrightarrow> live p' q \<and> hV6 (hosts p' ! q) = b \<and> \<not> hDormant (hosts p' ! q)" for b q
      unfolding m lv h map_upd2_iff pool_okD(3) [OF ok] using ne [of q] r by (cases "q = r") auto
    show "map_of (dormant p') b = Some q \<longleftrightarrow> live p' q \<and> hV6 (hosts p' ! q) = b \<and> hDormant (hosts p' ! q)" for b q
      unfolding m lv h map_upd2_iff pool_okD(4) [OF ok] using ne [of q] r by (cases "q = r") auto
    show "q = s" if "live p' q" "live p' s" "hV6 (hosts p' ! q) = hV6 (hosts p' ! s)" for q s
    proof (cases "q = r \<or> s = r")
      case True
      then show ?thesis using that ne [of q] ne [of s] by (auto simp: lv h split: if_splits)
    next
      case False
      then show ?thesis using that pool_okD(2) [OF ok] by (simp add: lv h)
    qed
    show "by4 p' off = Some q \<Longrightarrow> q < length (hosts p') \<and> hOff (hosts p' ! q) = off \<and> hV4 (hosts p' ! q) = addr p' off \<and> off \<noteq> 0 \<and> off \<le> pMax p'" for off q
      using pool_okD(1) [OF ok, of off q] unfolding h u p'(1,3) by (simp add: p'(6))
    show "off \<le> pMax p' \<Longrightarrow> isUsed p' off \<longleftrightarrow> off = 0 \<or> by4 p' off \<noteq> None" for off
      using pool_okD(5) [OF ok, of off] by (simp add: u p')
  qed (fact d)+
qed

lemma pool_ok_new:
  assumes ok: "pool_ok p" and off: "by4 p off = None" "off \<noteq> 0" "off \<le> pMax p"
    and a: "\<And>q. live p q \<Longrightarrow> hV6 (hosts p ! q) \<noteq> a"
    and p': "by4 p' = (by4 p)(off \<mapsto> length (hosts p))" "used p' = used (setUsed off p)" "pMax p' = pMax p" "pBase p' = pBase p"
      "pPrefix p' = pPrefix p" "hosts p' = hosts p @ [\<lparr>hV4 = addr p off, hV6 = a, hOff = off, lastUse = n, hDormant = fl\<rparr>]"
    and d: "distinct (map fst (mapped p'))" "distinct (map fst (dormant p'))"
    and m: "map_of (mapped p') = (map_of (mapped p))(a := if fl then None else Some (length (hosts p)))"
      "map_of (dormant p') = (map_of (dormant p))(a := if fl then Some (length (hosts p)) else None)"
  shows "pool_ok p'"
proof -
  let ?r = "length (hosts p)"
  have nl: "live p q \<Longrightarrow> q \<noteq> ?r" "live p q \<Longrightarrow> hOff (hosts p ! q) \<noteq> off" for q using live_length [OF ok, of q] off by (auto simp: live_def)
  have h: "live p q \<Longrightarrow> hosts p' ! q = hosts p ! q" "hV6 (hosts p' ! ?r) = a" "hOff (hosts p' ! ?r) = off" "hDormant (hosts p' ! ?r) = fl" for q
    using live_length [OF ok, of q] by (auto simp: p' nth_append)
  have lv: "live p' q \<longleftrightarrow> q = ?r \<or> live p q" for q
  proof (cases "q < ?r")
    case True
    then show ?thesis using off(1) by (auto simp: live_def p' nth_append)
  next
    case False
    then have "\<not> live p q" "by4 p x \<noteq> Some q" for x using live_length [OF ok] pool_okD(1) [OF ok, of x q] by auto
    then show ?thesis using False h(3) by (auto simp: live_def p'(1))
  qed
  have u: "addr p' = addr p" by (rule ext; simp add: addr_def p')
  have "unat off div 64 < length (used p)" using pool_ok_dom(4) [OF ok] off(3) div_le_mono by (fastforce simp: word_le_nat_alt intro: le_less_trans)
  note su = isUsed_setUsed [OF this]
  have us: "isUsed p' b \<longleftrightarrow> b = off \<or> isUsed p b" for b using su [of b] by (simp add: isUsed_def p')
  show ?thesis
  proof (rule pool_okI)
    show "geometry p'" using pool_ok_dom(1) [OF ok] geometry_cong [of p' p] p' by simp
    show "map_of (mapped p') b = Some q \<longleftrightarrow> live p' q \<and> hV6 (hosts p' ! q) = b \<and> \<not> hDormant (hosts p' ! q)" for b q
      unfolding m lv map_upd_iff pool_okD(3) [OF ok] using a [of q] nl(1) [of q] h(1) [of q] h(2,4) by (cases "q = ?r") auto
    show "map_of (dormant p') b = Some q \<longleftrightarrow> live p' q \<and> hV6 (hosts p' ! q) = b \<and> hDormant (hosts p' ! q)" for b q
      unfolding m lv map_upd_iff pool_okD(4) [OF ok] using a [of q] nl(1) [of q] h(1) [of q] h(2,4) by (cases "q = ?r") auto
    show "q = s" if "live p' q" "live p' s" "hV6 (hosts p' ! q) = hV6 (hosts p' ! s)" for q s
    proof (cases "q = ?r \<or> s = ?r")
      case True
      then show ?thesis using that a [of q] a [of s] h(1) [of q] h(1) [of s] h(2) by (auto simp: lv)
    next
      case False
      then show ?thesis using that pool_okD(2) [OF ok] h(1) [of q] h(1) [of s] by (simp add: lv)
    qed
    show "by4 p' b = Some q \<Longrightarrow> q < length (hosts p') \<and> hOff (hosts p' ! q) = b \<and> hV4 (hosts p' ! q) = addr p' b \<and> b \<noteq> 0 \<and> b \<le> pMax p'" for b q
      using pool_okD(1) [OF ok, of b q] off by (auto simp: p' u nth_append split: if_splits)
    show "b \<le> pMax p' \<Longrightarrow> isUsed p' b \<longleftrightarrow> b = 0 \<or> by4 p' b \<noteq> None" for b
      using pool_okD(5) [OF ok, of b] off by (auto simp: us p')
  qed (fact d)+
qed

lemma pool_ok_remove:
  assumes ok: "pool_ok p" and r: "live p r" "hDormant (hosts p ! r)"
    and p': "by4 p' = (by4 p)(hOff (hosts p ! r) := None)" "used p' = used (clearUsed (hOff (hosts p ! r)) p)" "pMax p' = pMax p" "pBase p' = pBase p"
      "pPrefix p' = pPrefix p" "hosts p' = hosts p" "mapped p' = mapped p"
      "distinct (map fst (dormant p'))" "map_of (dormant p') = (map_of (dormant p))(hV6 (hosts p ! r) := None)"
  shows "pool_ok p'"
proof -
  let ?o = "hOff (hosts p ! r)"
  have o: "by4 p ?o = Some r" using r(1) by (simp add: live_def)
  note ob = pool_okD(1) [OF ok o]
  have lv: "live p' q \<longleftrightarrow> live p q \<and> q \<noteq> r" for q using o by (auto simp: live_def p')
  have u: "addr p' = addr p" by (rule ext; simp add: addr_def p')
  have "unat ?o div 64 < length (used p)" using pool_ok_dom(4) [OF ok] ob div_le_mono by (fastforce simp: word_le_nat_alt intro: le_less_trans)
  note su = isUsed_clearUsed [OF this]
  have us: "isUsed p' b \<longleftrightarrow> b \<noteq> ?o \<and> isUsed p b" for b using su [of b] by (simp add: isUsed_def p')
  have ne: "live p q \<Longrightarrow> q \<noteq> r \<Longrightarrow> hV6 (hosts p ! q) \<noteq> hV6 (hosts p ! r)" for q
    using pool_okD(2) [OF ok _ r(1)] by blast
  show ?thesis
  proof (rule pool_okI)
    show "geometry p'" using pool_ok_dom(1) [OF ok] geometry_cong [of p' p] p' by simp
    show "map_of (mapped p') b = Some q \<longleftrightarrow> live p' q \<and> hV6 (hosts p' ! q) = b \<and> \<not> hDormant (hosts p' ! q)" for b q
      unfolding p'(6,7) lv pool_okD(3) [OF ok] using r by auto
    show "map_of (dormant p') b = Some q \<longleftrightarrow> live p' q \<and> hV6 (hosts p' ! q) = b \<and> hDormant (hosts p' ! q)" for b q
      unfolding p'(6,9) lv map_upd_iff pool_okD(4) [OF ok] using ne [of q] by auto
    show "\<lbrakk>live p' q; live p' s; hV6 (hosts p' ! q) = hV6 (hosts p' ! s)\<rbrakk> \<Longrightarrow> q = s" for q s
      using pool_okD(2) [OF ok, of q s] by (simp add: lv p')
    show "by4 p' b = Some q \<Longrightarrow> q < length (hosts p') \<and> hOff (hosts p' ! q) = b \<and> hV4 (hosts p' ! q) = addr p' b \<and> b \<noteq> 0 \<and> b \<le> pMax p'" for b q
      using pool_okD(1) [OF ok, of b q] by (auto simp: p' u split: if_splits)
    show "b \<le> pMax p' \<Longrightarrow> isUsed p' b \<longleftrightarrow> b = 0 \<or> by4 p' b \<noteq> None" for b
      using pool_okD(5) [OF ok, of b] ob by (auto simp: us p')
    show "distinct (map fst (mapped p'))" using pool_ok_dom(2) [OF ok] by (simp add: p')
  qed (fact p')
qed

lemma pool_ok_activate:
  assumes ok: "pool_ok p" and r: "live p r"
  shows "pool_ok (activate r now p)"
  proof (rule pool_ok_change [OF ok r, where fl = False and n = now and a = "hV6 (hosts p ! r)"])
  show "live p q \<Longrightarrow> hV6 (hosts p ! q) = hV6 (hosts p ! r) \<Longrightarrow> q = r" for q by (rule pool_okD(2) [OF ok _ r])
qed (use live_length [OF ok r] pool_ok_dom [OF ok] in \<open>simp_all add: activate_def upd_host_def alist_simps Let_def\<close>)

subsection \<open>Every operation keeps the invariant\<close>

lemma get32_bytes_word: "length b = 4 \<Longrightarrow> get32 b 0 = bytes_word b"
  by (erule length4_cases) (simp add: get32_def bytes_word_def push_bit_or push_bit_push_bit ac_simps)

lemma get32_word_bytes [simp]: "get32 (word_bytes 4 w) 0 = (w :: u32)"
  by (simp add: get32_bytes_word bytes_word_word_bytes)

lemma drop_bit_ones: "n \<le> 32 \<Longrightarrow> drop_bit n (0xffffffff :: u32) = mask (32 - n)"
proof -
  assume n: "n \<le> 32"
  have m: "(0xffffffff :: u32) = mask 32" by (simp add: mask_eq_exp_minus_1)
  show ?thesis unfolding m using n by (intro bit_eqI) (auto simp: bit_simps)
qed

lemma mask_hi_and_mask: "n \<le> 32 \<Longrightarrow> mask_hi 32 n w AND mask (32 - n) = (0 :: u32)"
  by (rule bit_eqI) (auto simp: mask_hi_def bit_simps)

lemma NewPool_ok:
  assumes "NewPool t0 prefix opt = Inr p"
  shows "pool_ok p"
proof -
  obtain w where w: "pAddr prefix = IPv4 w" "prefix = Masked prefix" "8 \<le> pBits prefix" "pBits prefix \<le> 31"
    using assms by (cases "pAddr prefix") (auto simp: NewPool_def split: if_splits)
  define n where "n = nat (pBits prefix)"
  have n: "8 \<le> n" "n \<le> 31" "pBits prefix = int n" using w by (auto simp: n_def)
  have p: "p = \<lparr>pPrefix = prefix, pBase = w, pMax = mask (32 - n),
           minLease = (if oMinLease opt \<le> 0 then DefaultMinLease else oMinLease opt),
           maxLease = (if oMaxLease opt \<le> 0 then DefaultMaxLease else oMaxLease opt),
           pObs = (case oObserver opt of None \<Rightarrow> nop_observer | Some obs \<Rightarrow> obs),
           clock = (case oNow opt of None \<Rightarrow> t0 | Some now \<Rightarrow> now),
           reserved = (\<lambda>_. False),
           used = (replicate ((unat (mask (32 - n) :: u32) + 1 + 63) div 64) 0)[0 := 1],
           by4 = Map.empty, mapped = [], dormant = [], dirty = False, hosts = [], pTrace = []\<rparr>"
    using assms w n by (auto simp: NewPool_def drop_bit_ones Let_def split: if_splits)
  have "w = mask_hi 32 n w" using arg_cong [OF w(2), of pAddr] w(1) n by (simp add: Masked_def PIsValid_def)
  then have base: "w AND mask (32 - n) = 0" using mask_hi_and_mask [of n w] n by simp
  show ?thesis
  proof (rule pool_okI)
    show "geometry p" using w n base by (simp add: p geometry_def nat_diff_distrib)
    show "isUsed p off \<longleftrightarrow> off = 0 \<or> by4 p off \<noteq> None" if "off \<le> pMax p" for off
    proof -
      have l: "unat off div 64 < (unat (mask (32 - n) :: u32) + 64) div 64" using that by (simp add: p word_le_nat_alt) 
      then show ?thesis by (cases "unat off div 64 = 0") (auto simp: isUsed_bit p nth_list_update bit_1_iff unat_eq_0 div_eq_0_iff)
    qed
  qed (simp_all add: p live_def)
qed

lemma geometryD:
  assumes "geometry p"
  obtains k where "1 \<le> k" "k \<le> 24" "pMax p = mask k" "nat (32 - pBits (pPrefix p)) = k" "pBase p AND mask k = 0"
    "pBits (pPrefix p) = 32 - int k" "pAddr (pPrefix p) = IPv4 (pBase p)"
proof -
  define k where "k = nat (32 - pBits (pPrefix p))"
  have g: "8 \<le> pBits (pPrefix p)" "pBits (pPrefix p) \<le> 31" "pAddr (pPrefix p) = IPv4 (pBase p)" "pMax p = mask k" "pBase p AND pMax p = 0"
    using assms unfolding geometry_def k_def by blast+
  show ?thesis
  proof (rule that [of k])
    show "1 \<le> k" "k \<le> 24" "pBits (pPrefix p) = 32 - int k" using g(1,2) by (simp_all add: k_def)
    show "pBase p AND mask k = 0" using g(4,5) by simp
  qed (use g in \<open>simp_all add: k_def\<close>)
qed

lemma unat_take_u32: "unat (take_bit k (h :: u32)) = unat h mod 2 ^ k"
  by (subst unsigned_take_bit_eq) (rule take_bit_eq_mod)

lemma unat_take_add_u32: "k \<le> 24 \<Longrightarrow> unat (take_bit k (a + b :: u32)) = (unat a + unat b) mod 2 ^ k"
  by (simp only: unat_take_u32 unat_word_ariths mod_mod_cancel le_imp_power_dvd len_of_numeral_defs)

lemma unat_drop_u32: "unat (drop_bit k (h :: u32)) = unat h div 2 ^ k"
proof -
  have "take_bit 32 (unat h) = unat h" using unsigned_less [of h, where ?'a = nat] by (simp add: take_bit_nat_eq_self)
  then show ?thesis by (subst unsigned_drop_bit_eq) (simp add: drop_bit_eq_div)
qed

lemma unat_mask_u32:
  assumes "k \<le> 24"
  shows "unat (mask k :: u32) = 2 ^ k - 1"
proof -
  have "(mask k :: u32) = take_bit k (- 1)" by simp
  then have "unat (mask k :: u32) = unat (- 1 :: u32) mod 2 ^ k" by (simp only: unat_take_u32)
  also have "unat (- 1 :: u32) = 2 ^ k * 2 ^ (32 - k) - 1"
    using assms by (simp add: power_add [symmetric] unsigned_minus_1_eq_mask mask_eq_exp_minus_1)
  also have "\<dots> = 2 ^ k * (2 ^ (32 - k) - 1) + (2 ^ k - 1)"
    using mult_le_mono2 [of 1 "2 ^ (32 - k)" "2 ^ k"] by (simp add: diff_mult_distrib2)
  also have "\<dots> mod 2 ^ k = 2 ^ k - 1" by (simp only: mod_mult_self4) simp
  finally show ?thesis .
qed

lemma le_mask_take_bit:
  assumes "k \<le> 24" "(x :: u32) \<le> mask k"
  shows "take_bit k x = x"
proof -
  have "unat x \<le> 2 ^ k - 1" using assms by (simp add: word_le_nat_alt unat_mask_u32)
  then have "unat x < 2 ^ k" by (metis Suc_pred' less_Suc_eq_le zero_less_numeral zero_less_power One_nat_def)
  then show ?thesis by (simp add: word_unat_eq_iff unat_take_u32)
qed
text \<open>The inner loop of the hash is the one of the code, for every pool, and ends below the mask.\<close>

lemma hash_step_less:
  assumes "1 \<le> k" "k \<le> 24" "(h :: u32) AND NOT (mask k) \<noteq> 0"
  shows "(h AND mask k) + drop_bit k h < h"
proof -
  have "2 ^ k \<le> unat h"
  proof (rule ccontr)
    assume "\<not> 2 ^ k \<le> unat h"
    then have "h = take_bit k h" by (simp add: word_unat_eq_iff unat_take_u32)
    then have "h AND NOT (mask k) = 0" by (metis take_bit_eq_mask bit.conj_cancel_right and.assoc bit.conj_zero_right)
    then show False using assms(3) by simp
  qed
  have u: "unat (h AND mask k) = unat h mod 2 ^ k" "unat (drop_bit k h) = unat h div 2 ^ k"
    by (simp_all only: take_bit_eq_mask [symmetric] unat_take_u32 unat_drop_u32)
  have two: "2 \<le> (2 :: nat) ^ k" using assms(1) self_le_power [of 2 k] by simp
  let ?q = "unat h div 2 ^ k"
  have q: "1 \<le> ?q" using \<open>2 ^ k \<le> unat h\<close> by (simp add: Suc_le_eq div_greater_zero_iff)
  have "unat h = 2 ^ k * ?q + unat h mod 2 ^ k" by simp
  moreover have "2 * ?q \<le> 2 ^ k * ?q" using two by (intro mult_right_mono) simp_all
  ultimately have lt: "unat h mod 2 ^ k + ?q < unat h" using q by linarith
  then have "unat ((h AND mask k) + drop_bit k h) = unat h mod 2 ^ k + ?q"
    using unsigned_less [of h, where ?'a = nat] u by (subst unat_add_lem [THEN iffD1]) simp_all
  then show ?thesis using lt by (simp add: word_less_nat_alt)
qed

lemma hash_fold_unfold:
  assumes "1 \<le> k" "k \<le> 24"
  shows "hash_fold (mask k) k h = (if h AND NOT (mask k) \<noteq> 0 then hash_fold (mask k) k ((h AND mask k) + drop_bit k h) else h)"
  using hash_step_less [OF assms, of h] by (subst hash_fold.simps) (simp add: Let_def)

lemma hash_fold_range:
  assumes "1 \<le> k" "k \<le> 24"
  shows "hash_fold (mask k) k h AND NOT (mask k) = 0"
proof (induction "unat h" arbitrary: h rule: less_induct)
  case less
  show ?case
    using less [of "(h AND mask k) + drop_bit k h"] hash_step_less [OF assms, of h]
    by (subst hash_fold_unfold [OF assms]) (simp add: word_less_nat_alt)
qed

lemma search_Some:
  "search p h n i = Some off \<Longrightarrow> off \<noteq> 0 \<and> \<not> isUsed p off \<and> \<not> reserved p (addr p off) \<and> (\<exists>x. off = x AND pMax p)"
  by (induction n arbitrary: i) (auto simp: Let_def split: if_splits)

lemma search_None:
  "search p h n i = None \<Longrightarrow> j < n \<Longrightarrow>
     let off = (h + (i + word_of_nat j)) AND pMax p in off = 0 \<or> isUsed p off \<or> reserved p (addr p off)"
proof (induction n arbitrary: i j)
  case (Suc n)
  have s: "search p h n (i + 1) = None" and now: "let off = (h + i) AND pMax p in off = 0 \<or> isUsed p off \<or> reserved p (addr p off)"
    using Suc.prems(1) by (auto simp: Let_def split: if_splits)
  show ?case
  proof (cases j)
    case 0
    then show ?thesis using now by simp
  next
    case (Suc m)
    then show ?thesis using Suc.IH [OF s, of m] Suc.prems(2) by (simp add: add.assoc)
  qed
qed simp

lemma search_complete:
  assumes "geometry p" "search p h (unat (pMax p) + 1) 0 = None" "off \<le> pMax p" "off \<noteq> 0"
  shows "isUsed p off \<or> reserved p (addr p off)"
proof -
  obtain k where k: "1 \<le> k" "k \<le> 24" "pMax p = mask k" using geometryD [OF assms(1)] by metis
  define j where "j = unat ((off - h) AND pMax p)"
  have "j \<le> unat (pMax p)" unfolding j_def k(3) by (simp add: word_le_nat_alt [symmetric] word_and_le1)
  then have j: "j < unat (pMax p) + 1" by simp
  have "take_bit k (h + take_bit k (off - h)) = take_bit k (h + (off - h))"
    unfolding word_unat_eq_iff unat_take_add_u32 [OF k(2)] by (simp only: unat_take_u32 mod_add_right_eq)
  then have "(h + ((off - h) AND mask k)) AND mask k = take_bit k off" by (simp add: take_bit_eq_mask)
  also have "\<dots> = off" using assms(3) k by (simp add: le_mask_take_bit)
  finally have "(h + (0 + word_of_nat j)) AND pMax p = off" by (simp add: j_def k(3))
  then show ?thesis using search_None [OF assms(2) j] assms(4) by (simp add: Let_def)
qed

lemma pool_ok_SetLeases [simp]: "pool_ok (SetLeases mn mx p) = pool_ok p"
  by (simp add: SetLeases_def)

lemma pool_ok_SetObserver [simp]: "pool_ok (SetObserver obs p) = pool_ok p"
  by (simp add: SetObserver_def)

lemma pool_ok_lookup4: "pool_ok p \<Longrightarrow> pool_ok (snd (Pool_lookup4 a p))"
  by (simp add: Pool_lookup4_def tick_def Let_def split: option.splits)

lemma off_le_mask: "geometry p \<Longrightarrow> x AND pMax p \<le> pMax p"
  by (simp add: word_and_le1)

lemma no_host_at:
  assumes "pool_ok p" "map_of (mapped p) a = None" "map_of (dormant p) a = None" "live p q"
  shows "hV6 (hosts p ! q) \<noteq> a"
  using assms pool_okD(3,4) [OF assms(1), of a q] by (cases "hDormant (hosts p ! q)") auto

lemma pool_ok_assign_new:
  assumes ok: "pool_ok p" and off: "off \<noteq> 0" "off \<le> pMax p" "\<not> isUsed p off"
    and a: "map_of (mapped p) a = None" "map_of (dormant p) a = None"
  shows "pool_ok (assign_new a off now p)"
proof -
  have b: "by4 p off = None" using pool_okD(5) [OF ok off(2)] off by simp
  define r where "r = length (hosts p)"
  define q where "q = p\<lparr>hosts := hosts p @ [\<lparr>hV4 = addr p off, hV6 = a, hOff = off, lastUse = 0, hDormant = False\<rparr>]\<rparr>"
  define q' where "q' = activate r now ((setUsed off q)\<lparr>by4 := (by4 p)(off \<mapsto> r)\<rparr>)"
  have e: "assign_new a off now p = Pool_event ReasonDynamicAssigned r (q'\<lparr>dirty := True\<rparr>)"
    by (simp add: assign_new_def q'_def q_def r_def Let_def)
  have "pool_ok q'"
    by (rule pool_ok_new [OF ok b off(1,2) no_host_at [OF ok a], where fl = False and n = now])
      (use pool_ok_dom [OF ok] a in \<open>simp_all add: q'_def q_def r_def activate_def upd_host_def setUsed_def alist_simps Let_def fun_upd_idem\<close>)
  then show ?thesis by (simp add: e)
qed

lemma pool_ok_steal:
  assumes ok: "pool_ok p" and r: "live p r" "hDormant (hosts p ! r)"
    and a: "map_of (mapped p) a = None" "map_of (dormant p) a = None"
  shows "pool_ok (steal a r now p)"
proof -
  define o6 where "o6 = hV6 (hosts p ! r)"
  define q where "q = activate r now (upd_host r (\<lambda>d. d\<lparr>hV6 := a\<rparr>) (p\<lparr>dormant := AList.delete o6 (dormant p)\<rparr>))"
  have e: "steal a r now p = Pool_event ReasonDynamicReassigned r (q\<lparr>dirty := True\<rparr>)"
    by (simp add: steal_def q_def o6_def Let_def)
  have l: "r < length (hosts p)" using live_length [OF ok r(1)] .
  have mo: "map_of (mapped p) o6 = None"
  proof (cases "map_of (mapped p) o6")
    case (Some s)
    then show ?thesis using pool_okD(3) [OF ok, of o6 s] pool_okD(2) [OF ok _ r(1), of s] r by (auto simp: o6_def)
  qed
  have "pool_ok q"
  proof (rule pool_ok_change [OF ok r(1), where fl = False and n = now and a = a])
    show "live p s \<Longrightarrow> hV6 (hosts p ! s) = a \<Longrightarrow> s = r" for s using no_host_at [OF ok a] by blast
    show "map_of (mapped q) = (map_of (mapped p))(hV6 (hosts p ! r) := None, a := if False then None else Some r)"
      using l mo by (simp add: q_def activate_def upd_host_def alist_simps Let_def o6_def [symmetric] fun_upd_idem)
  qed (use l pool_ok_dom [OF ok] in \<open>simp_all add: q_def activate_def upd_host_def alist_simps Let_def o6_def\<close>)
  then show ?thesis by (simp add: e)
qed

definition iter_ok :: "iter \<Rightarrow> bool" where
  "iter_ok it \<longleftrightarrow> (\<forall>xs. mset (it xs) = mset xs)"

lemma iter_set: "iter_ok it \<Longrightarrow> set (it xs) = set xs"
  unfolding iter_ok_def by (metis mset_eq_setD)

lemma iter_distinct: "iter_ok it \<Longrightarrow> distinct (map fst xs) \<Longrightarrow> distinct (map fst (it xs))"
  unfolding iter_ok_def by (metis mset_eq_imp_distinct_iff mset_map)

text \<open>The host stolen is in the list and no other one there was used earlier.\<close>

lemma oldest_spec:
  "oldest p ds = None \<longleftrightarrow> ds = []"
  "oldest p ds = Some r \<Longrightarrow> r \<in> snd ` set ds \<and> (\<forall>q \<in> snd ` set ds. lastUse (hosts p ! r) \<le> lastUse (hosts p ! q))"
proof -
  let ?f = "\<lambda>o' (v6 :: Addr, r). case o' of None \<Rightarrow> Some r
      | Some q \<Rightarrow> if lastUse (hosts p ! r) < lastUse (hosts p ! q) then Some r else Some q"
  have g: "\<exists>r. foldl ?f (Some q) ds = Some r \<and> r \<in> insert q (snd ` set ds)
      \<and> (\<forall>s \<in> insert q (snd ` set ds). lastUse (hosts p ! r) \<le> lastUse (hosts p ! s))" for q and ds :: "(Addr \<times> nat) list"
  proof (induction ds arbitrary: q)
    case (Cons d ds)
    obtain v s where d: "d = (v, s)" by (cases d)
    let ?n = "if lastUse (hosts p ! s) < lastUse (hosts p ! q) then s else q"
    obtain r where "foldl ?f (Some ?n) ds = Some r" "r \<in> insert ?n (snd ` set ds)"
        "\<forall>t \<in> insert ?n (snd ` set ds). lastUse (hosts p ! r) \<le> lastUse (hosts p ! t)"
      using Cons.IH [of ?n] by blast
    then show ?case by (intro exI [of _ r]) (auto simp: d split: if_splits)
  qed simp
  show "oldest p ds = None \<longleftrightarrow> ds = []" using g [of "snd (hd ds)" "tl ds"] by (cases ds) (auto simp: oldest_def)
  show "oldest p ds = Some r \<Longrightarrow> r \<in> snd ` set ds \<and> (\<forall>q \<in> snd ` set ds. lastUse (hosts p ! r) \<le> lastUse (hosts p ! q))"
    using g [of "snd (hd ds)" "tl ds"] by (cases ds) (force simp: oldest_def)+
qed

lemma assign_at_cases:
  obtains (mapped) r where "map_of (mapped p) a = Some r"
      "assign_at now it a p = (Some (hV4 (hosts p ! r)), upd_host r (\<lambda>d. d\<lparr>lastUse := now\<rparr>) p)"
    | (dormant) r where "map_of (mapped p) a = None" "map_of (dormant p) a = Some r"
      "assign_at now it a p = (Some (hV4 (hosts (activate r now p) ! r)), Pool_event ReasonDynamicReactivated r (activate r now p))"
    | (fresh) off where "map_of (mapped p) a = None" "map_of (dormant p) a = None"
      "search p (hash p a) (unat (pMax p) + 1) 0 = Some off" "assign_at now it a p = (Some (addr p off), assign_new a off now p)"
    | (exhausted) "map_of (mapped p) a = None" "map_of (dormant p) a = None"
      "search p (hash p a) (unat (pMax p) + 1) 0 = None" "oldest p (it (dormant p)) = None"
      "assign_at now it a p = (None, observe \<lparr>evKind = KindDynamic, evReason = ReasonDynamicExhausted, evFamily = 0, evProto = 0,
                          evLength = 0, evSrc = NoAddr, evDst = a\<rparr> p)"
    | (stolen) r where "map_of (mapped p) a = None" "map_of (dormant p) a = None"
      "search p (hash p a) (unat (pMax p) + 1) 0 = None" "oldest p (it (dormant p)) = Some r"
      "assign_at now it a p = (Some (hV4 (hosts (steal a r now p) ! r)), steal a r now p)"
proof (cases "map_of (mapped p) a")
  case None
  note m = None
  show ?thesis
  proof (cases "map_of (dormant p) a")
    case None
    note d = None
    show ?thesis
    proof (cases "search p (hash p a) (unat (pMax p) + 1) 0")
      case None
      note n = None
      show ?thesis
      proof (cases "oldest p (it (dormant p))")
        case None
        show ?thesis by (rule exhausted [OF m d n None]) (simp only: assign_at_def m d n None option.case)
      next
        case (Some r)
        show ?thesis by (rule stolen [OF m d n Some]) (simp only: assign_at_def m d n Some option.case Let_def)
      qed
    next
      case (Some off)
      show ?thesis by (rule fresh [OF m d Some]) (simp only: assign_at_def m d Some option.case)
    qed
  next
    case (Some r)
    show ?thesis by (rule dormant [OF m Some]) (simp add: assign_at_def m Some Pool_event_def observe_def Let_def)
  qed
next
  case (Some r)
  show ?thesis by (rule mapped [OF Some]) (simp add: assign_at_def Some)
qed

lemma oldest_live:
  assumes "pool_ok p" "iter_ok it" "oldest p (it (dormant p)) = Some r"
  shows "live p r" "hDormant (hosts p ! r)"
proof -
  obtain b where "(b, r) \<in> set (dormant p)" using oldest_spec(2) [OF assms(3)] by (auto simp: iter_set [OF assms(2)])
  then have "map_of (dormant p) b = Some r" using pool_ok_dom(3) [OF assms(1)] by simp
  then show "live p r" "hDormant (hosts p ! r)" using pool_okD(4) [OF assms(1)] by blast+
qed

lemma search_bounds:
  assumes "geometry p" "search p h n i = Some off"
  shows "off \<noteq> 0" "off \<le> pMax p" "\<not> isUsed p off" "\<not> reserved p (addr p off)"
  using search_Some [OF assms(2)] by (auto simp: word_and_le1)

lemma pool_ok_assign_at:
  assumes ok: "pool_ok p" and it: "iter_ok it"
  shows "pool_ok (snd (assign_at now it a p))"
proof (cases rule: assign_at_cases [of p a now it])
  case (mapped r)
  then show ?thesis using ok by simp
next
  case (dormant r)
  then have "live p r" using pool_okD(4) [OF ok] by blast
  then show ?thesis using dormant(3) pool_ok_activate [OF ok] by simp
next
  case (fresh off)
  show ?thesis using pool_ok_assign_new [OF ok _ _ _ fresh(1,2)] search_bounds [OF pool_ok_dom(1) [OF ok] fresh(3)] fresh(4) by simp
next
  case exhausted
  then show ?thesis using ok by simp
next
  case (stolen r)
  show ?thesis using pool_ok_steal [OF ok oldest_live [OF ok it stolen(4)] stolen(1,2)] stolen(5) by simp
qed

lemma pool_ok_assign: "pool_ok p \<Longrightarrow> iter_ok it \<Longrightarrow> pool_ok (snd (assign it a p))"
  using pool_ok_assign_at [of "snd (tick p)"] by (simp add: assign_def tick_def)

lemma pool_ok_lookup6: "pool_ok p \<Longrightarrow> iter_ok it \<Longrightarrow> pool_ok (snd (Pool_lookup6 it a al p))"
  using pool_ok_assign [of p it a] by (auto simp: Pool_lookup6_def tick_def Let_def split: option.splits)

text \<open>A pass over the entries of one of the maps: each entry is still there when it is met.\<close>

lemma fold_entries:
  assumes "Q p" "distinct (map fst xs)" "\<forall>(v, r) \<in> set xs. map_of (m p) v = Some r"
    and step: "\<And>p v r. Q p \<Longrightarrow> map_of (m p) v = Some r \<Longrightarrow> Q (f (v, r) p) \<and> (\<forall>u. u \<noteq> v \<longrightarrow> map_of (m (f (v, r) p)) u = map_of (m p) u)"
  shows "Q (fold f xs p)"
  using assms(1-3)
proof (induction xs arbitrary: p)
  case (Cons x xs)
  obtain v r where x: "x = (v, r)" by (cases x)
  have s: "Q (f x p)" "\<forall>u. u \<noteq> v \<longrightarrow> map_of (m (f x p)) u = map_of (m p) u"
    using step [of p v r] Cons.prems by (auto simp: x)
  have "map_of (m (f x p)) u = Some q" if "(u, q) \<in> set xs" for u q
  proof -
    have "u \<noteq> v" using that Cons.prems(2) by (force simp: x)
    then show ?thesis using that Cons.prems(3) s(2) by auto
  qed
  then have "\<forall>(u, q) \<in> set xs. map_of (m (f x p)) u = Some q" by blast
  then show ?case using Cons.IH [OF s(1)] Cons.prems(2) by simp
qed simp

lemma pool_ok_expire_mapped:
  assumes ok: "pool_ok p" and r: "map_of (mapped p) v = Some r"
  shows "pool_ok (expire_mapped mn now (v, r) p)"
    and "u \<noteq> v \<Longrightarrow> map_of (mapped (expire_mapped mn now (v, r) p)) u = map_of (mapped p) u"
proof -
  have lr: "live p r" "hV6 (hosts p ! r) = v" "\<not> hDormant (hosts p ! r)" using pool_okD(3) [OF ok] r by blast+
  have l: "r < length (hosts p)" using live_length [OF ok lr(1)] .
  have nd: "map_of (dormant p) v = None"
  proof (cases "map_of (dormant p) v")
    case (Some s)
    then show ?thesis using pool_okD(4) [OF ok, of v s] pool_okD(2) [OF ok _ lr(1), of s] lr by auto
  qed
  define q where "q = (upd_host r (\<lambda>d. d\<lparr>hDormant := True\<rparr>) (p\<lparr>mapped := AList.delete v (mapped p)\<rparr>))\<lparr>dormant := AList.update v r (dormant p)\<rparr>"
  have e: "expire_mapped mn now (v, r) p = (if lastUse (hosts p ! r) + mn < now then Pool_event ReasonDynamicDormant r q else p)"
    by (simp add: expire_mapped_def q_def upd_host_def Let_def)
  have h: "(hosts p ! r)\<lparr>hV6 := v, hDormant := True, lastUse := lastUse (hosts p ! r)\<rparr> = (hosts p ! r)\<lparr>hDormant := True\<rparr>"
    using lr(2) by (cases "hosts p ! r") simp
  have "pool_ok q"
  proof (rule pool_ok_change [OF ok lr(1), where fl = True and n = "lastUse (hosts p ! r)" and a = v])
    show "live p s \<Longrightarrow> hV6 (hosts p ! s) = v \<Longrightarrow> s = r" for s using pool_okD(2) [OF ok _ lr(1)] lr by simp
    show "hosts q = (hosts p)[r := (hosts p ! r)\<lparr>hV6 := v, hDormant := True, lastUse := lastUse (hosts p ! r)\<rparr>]"
      unfolding h by (simp add: q_def upd_host_def)
  qed (use l lr nd pool_ok_dom [OF ok] in \<open>simp_all add: q_def upd_host_def alist_simps\<close>)
  then show "pool_ok (expire_mapped mn now (v, r) p)" using ok by (simp add: e)
  show "u \<noteq> v \<Longrightarrow> map_of (mapped (expire_mapped mn now (v, r) p)) u = map_of (mapped p) u"
    by (simp add: e q_def upd_host_def Pool_event_def observe_def alist_simps)
qed

lemma pool_ok_expire_dormant:
  assumes ok: "pool_ok p" and r: "map_of (dormant p) v = Some r"
  shows "pool_ok (expire_dormant mx now (v, r) p)"
    and "u \<noteq> v \<Longrightarrow> map_of (dormant (expire_dormant mx now (v, r) p)) u = map_of (dormant p) u"
proof -
  have lr: "live p r" "hV6 (hosts p ! r) = v" "hDormant (hosts p ! r)" using pool_okD(4) [OF ok] r by blast+
  define q where "q = clearUsed (hOff (hosts p ! r)) (p\<lparr>dormant := AList.delete v (dormant p), by4 := (by4 p)(hOff (hosts p ! r) := None)\<rparr>)"
  have e: "expire_dormant mx now (v, r) p
      = (if lastUse (hosts p ! r) + mx < now then Pool_event ReasonDynamicReleased r (q\<lparr>dirty := True\<rparr>) else p)"
    by (simp add: expire_dormant_def q_def Let_def)
  have "pool_ok q"
    by (rule pool_ok_remove [OF ok lr(1,3)]) (use lr pool_ok_dom [OF ok] in \<open>simp_all add: q_def clearUsed_def alist_simps\<close>)
  then show "pool_ok (expire_dormant mx now (v, r) p)" using ok by (simp add: e)
  show "u \<noteq> v \<Longrightarrow> map_of (dormant (expire_dormant mx now (v, r) p)) u = map_of (dormant p) u"
    by (simp add: e q_def Pool_event_def observe_def alist_simps)
qed

lemma iter_entries:
  assumes "iter_ok it" "distinct (map fst m)"
  shows "distinct (map fst (it m))" "\<forall>(v, r) \<in> set (it m). map_of m v = Some r"
  using iter_distinct [OF assms] assms by (auto simp: iter_set [OF assms(1)])

lemma pool_ok_Maintain:
  assumes ok: "pool_ok p" and it: "iter_ok it"
  shows "pool_ok (Maintain it p)"
proof -
  define now mn mx p0 where "now = clock p 0" and "mn = minLease p div Second" and "mx = maxLease p div Second"
    and "p0 = p\<lparr>clock := \<lambda>i. clock p (Suc i)\<rparr>"
  define p1 where "p1 = fold (expire_mapped mn now) (it (mapped p0)) p0"
  have ok0: "pool_ok p0" using ok by (simp add: p0_def)
  have ok1: "pool_ok p1" unfolding p1_def
    by (rule fold_entries [where Q = pool_ok and m = mapped, OF ok0 iter_entries [OF it pool_ok_dom(2) [OF ok0]]]) (auto simp: pool_ok_expire_mapped)
  have "pool_ok (fold (expire_dormant mx now) (it (dormant p1)) p1)"
    by (rule fold_entries [where Q = pool_ok and m = dormant, OF ok1 iter_entries [OF it pool_ok_dom(3) [OF ok1]]]) (auto simp: pool_ok_expire_dormant)
  then show ?thesis by (simp add: Maintain_def tick_def p1_def p0_def now_def mn_def mx_def Let_def)
qed

text \<open>An address of the prefix is the base with an offset, which is what \<open>addr\<close> computes.\<close>

lemma addr_eq: "addr p off = IPv4 (pBase p OR off)"
proof -
  let ?v = "pBase p OR off"
  have "[ucast (drop_bit 24 ?v), ucast (drop_bit 16 ?v), ucast (drop_bit 8 ?v), ucast ?v] = word_bytes 4 ?v"
    by (simp add: word_bytes_def upt_rec)
  then show ?thesis by (simp only: addr_def Let_def AddrFrom4_def bytes_word_word_bytes len_num0) (simp add: bytes_word_word_bytes)
qed

lemma offset4_IPv4 [simp]: "offset4 p (IPv4 w) = w AND pMax p"
  by (simp add: offset4_def)

lemma prefix_addr:
  assumes g: "geometry p" and c: "Contains (pPrefix p) (IPv4 w)"
  shows "addr p (w AND pMax p) = IPv4 w"
proof -
  obtain k where k: "1 \<le> k" "k \<le> 24" "pMax p = mask k" "pBits (pPrefix p) = 32 - int k" "pAddr (pPrefix p) = IPv4 (pBase p)" "pBase p AND mask k = 0"
    using geometryD [OF g] by metis
  have n: "32 - nat (pBits (pPrefix p)) = k" using k by simp
  have d: "drop_bit k (pBase p) = drop_bit k w" using c k(5) n by (simp add: Contains_def)
  have "bit (pBase p OR (w AND mask k)) i = bit w i" if "i < 32" for i
  proof (cases "i < k")
    case True
    have "bit (pBase p AND mask k) i = False" using k(6) by simp
    then show ?thesis using True that by (simp add: bit_simps)
  next
    case False
    have "bit (drop_bit k (pBase p)) (i - k) = bit (drop_bit k w) (i - k)" by (simp only: d)
    then show ?thesis using False that by (simp add: bit_simps)
  qed
  then have "pBase p OR (w AND mask k) = w" by (intro bit_eqI) simp
  then show ?thesis by (simp add: addr_eq k(3))
qed

text \<open>The lines that are loaded, and what loading one does.\<close>

definition loadable :: "Pool \<Rightarrow> Addr \<Rightarrow> Addr \<Rightarrow> int \<Rightarrow> bool" where
  "loadable p v4 v6 lu \<longleftrightarrow> 0 < lu \<and> Is4 v4 \<and> Is6 v6 \<and> Contains (pPrefix p) v4 \<and> ValidIPv6 (As16 v6)
     \<and> offset4 p v4 \<noteq> 0 \<and> \<not> isUsed p (offset4 p v4) \<and> \<not> reserved p v4
     \<and> map_of (dormant p) v6 = None \<and> map_of (mapped p) v6 = None"

definition load_host :: "Addr \<Rightarrow> Addr \<Rightarrow> int \<Rightarrow> Pool \<Rightarrow> Pool" where
  "load_host v4 v6 lu p =
     (setUsed (offset4 p v4) (p\<lparr>hosts := hosts p @ [\<lparr>hV4 = v4, hV6 = v6, hOff = offset4 p v4, lastUse = lu, hDormant = True\<rparr>]\<rparr>))
       \<lparr>by4 := (by4 p)(offset4 p v4 \<mapsto> length (hosts p)), dormant := AList.update v6 (length (hosts p)) (dormant p)\<rparr>"

lemma read_line_simps:
  "read_line now Skipped s = s"
  "read_line now (Fields v4 v6 lu) (p, loaded, future) =
     (if loadable p v4 v6 lu then (load_host v4 v6 lu p, loaded @ [length (hosts p)], future \<or> lu > now) else (p, loaded, future))"
  by (cases s; simp add: read_line_def) (simp add: read_line_def loadable_def load_host_def Let_def not_less)

lemma load_host_ok:
  assumes ok: "pool_ok p" and l: "loadable p v4 v6 lu"
  shows "pool_ok (load_host v4 v6 lu p)" and "live p r \<Longrightarrow> live (load_host v4 v6 lu p) r" and "live (load_host v4 v6 lu p) (length (hosts p))"
proof -
  obtain w where w: "v4 = IPv4 w" using l by (cases v4) (auto simp: loadable_def)
  define off where "off = offset4 p v4"
  have off: "off \<noteq> 0" "off \<le> pMax p" "\<not> isUsed p off" using l by (simp_all add: off_def loadable_def w word_and_le1)
  have a: "addr p off = v4" using prefix_addr [OF pool_ok_dom(1) [OF ok], of w] l by (simp add: off_def w loadable_def)
  have nd: "map_of (mapped p) v6 = None" "map_of (dormant p) v6 = None" using l by (simp_all add: loadable_def)
  have b: "by4 p off = None" using pool_okD(5) [OF ok off(2)] off by blast
  note d = load_host_def [of v4 v6 lu p, folded off_def]
  show "pool_ok (load_host v4 v6 lu p)"
    by (rule pool_ok_new [OF ok b off(1,2) no_host_at [OF ok nd], where fl = True and n = lu])
      (use pool_ok_dom [OF ok] nd in \<open>simp_all add: d setUsed_def alist_simps a fun_upd_idem\<close>)
  show "live p r \<Longrightarrow> live (load_host v4 v6 lu p) r"
    using live_length [OF ok, of r] b by (auto simp: live_def d nth_append)
  show "live (load_host v4 v6 lu p) (length (hosts p))" by (simp add: live_def d)
qed

lemma pool_ok_read_line:
  assumes ok: "pool_ok p" and ld: "\<forall>r \<in> set loaded. live p r" and e: "read_line now l (p, loaded, future) = (p', loaded', future')"
  shows "pool_ok p' \<and> (\<forall>r \<in> set loaded'. live p' r)"
proof (cases l)
  case Skipped
  then show ?thesis using assms by (simp add: read_line_simps)
next
  case (Fields v4 v6 lu)
  then show ?thesis using assms load_host_ok [OF ok, of v4 v6 lu] by (auto simp: read_line_simps split: if_splits)
qed

lemma pool_ok_read_lines:
  assumes "pool_ok p" "\<forall>r \<in> set loaded. live p r" "fold (read_line now) ls (p, loaded, future) = (p', loaded', future')"
  shows "pool_ok p' \<and> (\<forall>r \<in> set loaded'. live p' r)"
  using assms
proof (induction ls arbitrary: p loaded future)
  case (Cons l ls)
  obtain q ld f where q: "read_line now l (p, loaded, future) = (q, ld, f)" by (metis prod.exhaust)
  then show ?case using Cons.IH [of q ld f] pool_ok_read_line [OF Cons.prems(1,2) q] Cons.prems(3) by simp
qed simp

lemma live_settle: "live (read_settle mn now future r p) q = live p q"
proof -
  have "hOff ((hosts p)[r := (hosts p ! r)\<lparr>hDormant := b, lastUse := n\<rparr>] ! q) = hOff (hosts p ! q)"
    "hOff ((hosts p)[r := (hosts p ! r)\<lparr>hDormant := b\<rparr>] ! q) = hOff (hosts p ! q)" for b n by (simp_all add: nth_upd)
  then show ?thesis by (simp add: live_def read_settle_def activate_def upd_host_def Let_def)
qed

lemma pool_ok_settle: "pool_ok p \<Longrightarrow> live p r \<Longrightarrow> pool_ok (read_settle mn now future r p)"
  using pool_ok_activate [of p r] by (simp add: read_settle_def)

lemma pool_ok_settles:
  "pool_ok p \<Longrightarrow> \<forall>r \<in> set rs. live p r \<Longrightarrow> pool_ok (fold (read_settle mn now future) rs p)"
  by (induction rs arbitrary: p) (simp_all add: pool_ok_settle live_settle)

lemma pool_ok_read: "pool_ok p \<Longrightarrow> pool_ok (snd (Pool_read e ls p))"
proof -
  assume ok: "pool_ok p"
  obtain q ld f where q: "fold (read_line (clock p 0)) ls (p\<lparr>clock := \<lambda>i. clock p (Suc i)\<rparr>, [], False) = (q, ld, f)" by (metis prod.exhaust)
  have "pool_ok q \<and> (\<forall>r \<in> set ld. live q r)" using pool_ok_read_lines [OF _ _ q] ok by simp
  then show ?thesis using q pool_ok_settles [of q ld] by (simp add: Pool_read_def tick_def Let_def)
qed

lemma pool_ok_Load: "pool_ok p \<Longrightarrow> pool_ok (snd (Load f p))"
  by (cases f) (simp_all add: Load_def pool_ok_read)

lemma pool_ok_Save: "pool_ok p \<Longrightarrow> pool_ok (snd (snd (Save it s file p)))"
  by (simp add: Save_def Pool_write_def tick_def Let_def)

end
