(* ===== verification/PoolSpec.thy ===== *)
theory PoolSpec
  imports PoolInv
begin

text \<open>
  What the pool promises: an abstract view of its state, a map from IPv6 hosts to their
  IPv4 address, last use and state, and how each operation acts on that view; the
  reachable states of a pool.
\<close>

subsection \<open>The assignments of a pool\<close>

definition assignment :: "Pool \<Rightarrow> Addr \<Rightarrow> (Addr \<times> int \<times> bool) option" where
  "assignment p a =
     (case map_of (mapped p) a of
        Some r \<Rightarrow> Some (hV4 (hosts p ! r), lastUse (hosts p ! r), False)
      | None \<Rightarrow> map_option (\<lambda>r. (hV4 (hosts p ! r), lastUse (hosts p ! r), True)) (map_of (dormant p) a))"

definition entry :: "dynHost \<Rightarrow> Addr \<times> Addr \<times> int \<times> bool" where
  "entry d = (hV6 d, hV4 d, lastUse d, hDormant d)"

lemma assignment_iff:
  assumes ok: "pool_ok p"
  shows "assignment p a = Some x \<longleftrightarrow> (\<exists>r. live p r \<and> entry (hosts p ! r) = (a, x))"
proof -
  let ?has = "\<lambda>r d. live p r \<and> hV6 (hosts p ! r) = a \<and> hDormant (hosts p ! r) = d"
  have m: "map_of (mapped p) a = Some r \<longleftrightarrow> ?has r False" "map_of (dormant p) a = Some r \<longleftrightarrow> ?has r True" for r
    using pool_okD(3,4) [OF ok, of a r] by simp_all
  have one: "?has r d \<Longrightarrow> ?has q e \<Longrightarrow> q = r" for r q d e using pool_okD(2) [OF ok] by blast
  have lk: "assignment p a = Some (v4, u, d) \<longleftrightarrow> (\<exists>r. ?has r d \<and> hV4 (hosts p ! r) = v4 \<and> lastUse (hosts p ! r) = u)" for v4 u d
  proof (cases "map_of (mapped p) a")
    case (Some r)
    then show ?thesis using m(1) [of r] one [of r False] by (simp add: assignment_def) metis
  next
    case None
    then have nf: "\<not> ?has r False" for r using m(1) [of r] by simp
    show ?thesis
    proof (cases "map_of (dormant p) a")
      case (Some r)
      then show ?thesis using None m(2) [of r] one [of r True] by (simp add: assignment_def) metis
    next
      case None': None
      then have "\<not> ?has r True" for r using m(2) [of r] by simp
      then have "\<not> ?has r d" for r using nf by (cases d) blast+
      then show ?thesis using None None' by (simp add: assignment_def)
    qed
  qed
  obtain v4 u d where x: "x = (v4, u, d)" by (cases x)
  show ?thesis unfolding x lk by (auto simp: entry_def)
qed

lemma assignment_cong: "mapped p' = mapped p \<Longrightarrow> dormant p' = dormant p \<Longrightarrow> hosts p' = hosts p \<Longrightarrow> assignment p' = assignment p"
  by (rule ext) (simp only: assignment_def)

lemma assignment_frame [simp]:
  "assignment (observe e p) = assignment p" "assignment (Pool_event rs r p) = assignment p"
  "assignment (p\<lparr>dirty := d\<rparr>) = assignment p" "assignment (p\<lparr>clock := c\<rparr>) = assignment p" "assignment (p\<lparr>reserved := rv\<rparr>) = assignment p"
  by (rule assignment_cong; simp add: observe_def Pool_event_def)+

lemma map_eqI: "(\<And>b x. f b = Some x \<longleftrightarrow> g b = Some x) \<Longrightarrow> f = g"
  by (rule ext) (metis not_Some_eq option.exhaust)

lemma assignment_change:
  assumes ok: "pool_ok p" and ok': "pool_ok p'" and r: "live p r" and a: "\<And>q. live p q \<Longrightarrow> hV6 (hosts p ! q) = a \<Longrightarrow> q = r"
    and p': "by4 p' = by4 p" "hosts p' = (hosts p)[r := (hosts p ! r)\<lparr>hV6 := a, hDormant := fl, lastUse := n\<rparr>]"
  shows "assignment p' = (assignment p)(hV6 (hosts p ! r) := None, a \<mapsto> (hV4 (hosts p ! r), n, fl))"
proof (rule map_eqI)
  fix b x
  let ?v = "(hV4 (hosts p ! r), n, fl)"
  have l: "r < length (hosts p)" using live_length [OF ok r] .
  have h: "hosts p' ! q = (if q = r then (hosts p ! r)\<lparr>hV6 := a, hDormant := fl, lastUse := n\<rparr> else hosts p ! q)" for q
    using l by (simp add: p' nth_upd)
  have lv: "live p' q = live p q" for q by (simp add: live_def h p'(1))
  have e: "entry (hosts p' ! q) = (if q = r then (a, ?v) else entry (hosts p ! q))" for q by (simp add: entry_def h)
  have ne: "q \<noteq> r \<longleftrightarrow> b \<noteq> hV6 (hosts p ! r)" "q \<noteq> r \<Longrightarrow> b \<noteq> a" if "live p q" "entry (hosts p ! q) = (b, x)" for q
    using that a [of q] pool_okD(2) [OF ok that(1) r] by (auto simp: entry_def)
  have "assignment p' b = Some x \<longleftrightarrow> (b, x) = (a, ?v) \<or> (\<exists>q. live p q \<and> q \<noteq> r \<and> entry (hosts p ! q) = (b, x))"
    unfolding assignment_iff [OF ok'] lv e using r by (metis (no_types))
  also have "\<dots> \<longleftrightarrow> (if b = a then ?v = x else b \<noteq> hV6 (hosts p ! r) \<and> (\<exists>q. live p q \<and> entry (hosts p ! q) = (b, x)))"
  proof (cases "b = a")
    case True
    then show ?thesis using ne(2) by auto
  next
    case False
    then show ?thesis using ne(1) by auto
  qed
  finally show "assignment p' b = Some x \<longleftrightarrow> ((assignment p)(hV6 (hosts p ! r) := None, a \<mapsto> ?v)) b = Some x"
    unfolding map_upd2_iff assignment_iff [OF ok] by simp
qed

lemma assignment_new:
  assumes ok: "pool_ok p" and ok': "pool_ok p'" and off: "by4 p off = None" and a: "\<And>q. live p q \<Longrightarrow> hV6 (hosts p ! q) \<noteq> a"
    and p': "by4 p' = (by4 p)(off \<mapsto> length (hosts p))" "hosts p' = hosts p @ [\<lparr>hV4 = v4, hV6 = a, hOff = off, lastUse = n, hDormant = fl\<rparr>]"
  shows "assignment p' = (assignment p)(a \<mapsto> (v4, n, fl))"
proof (rule map_eqI)
  fix b x
  let ?r = "length (hosts p)"
  have h: "live p q \<Longrightarrow> entry (hosts p' ! q) = entry (hosts p ! q)" "entry (hosts p' ! ?r) = (a, v4, n, fl)" "hOff (hosts p' ! ?r) = off" for q
    using live_length [OF ok, of q] by (auto simp: p' nth_append entry_def)
  have lv: "live p' q \<longleftrightarrow> q = ?r \<or> live p q" for q
  proof (cases "q < ?r")
    case True
    then show ?thesis using off by (auto simp: live_def p' nth_append)
  next
    case False
    then have "\<not> live p q" "by4 p y \<noteq> Some q" for y using live_length [OF ok] pool_okD(1) [OF ok, of y q] by auto
    then show ?thesis using False h(3) by (auto simp: live_def p'(1))
  qed
  have "assignment p' b = Some x \<longleftrightarrow> (b, x) = (a, v4, n, fl) \<or> (\<exists>q. live p q \<and> entry (hosts p ! q) = (b, x))"
    unfolding assignment_iff [OF ok'] lv using h(1,2) by metis
  moreover have "live p q \<Longrightarrow> entry (hosts p ! q) \<noteq> (a, x)" for q using a [of q] by (simp add: entry_def)
  ultimately show "assignment p' b = Some x \<longleftrightarrow> ((assignment p)(a \<mapsto> (v4, n, fl))) b = Some x"
    unfolding map_upd_iff assignment_iff [OF ok] by (cases "b = a") auto
qed

lemma assignment_remove:
  assumes ok: "pool_ok p" and ok': "pool_ok p'" and r: "live p r"
    and p': "by4 p' = (by4 p)(hOff (hosts p ! r) := None)" "hosts p' = hosts p"
  shows "assignment p' = (assignment p)(hV6 (hosts p ! r) := None)"
proof (rule map_eqI)
  fix b x
  have lv: "live p' q \<longleftrightarrow> live p q \<and> q \<noteq> r" for q using r by (auto simp: live_def p')
  have ne: "q \<noteq> r \<longleftrightarrow> b \<noteq> hV6 (hosts p ! r)" if "live p q" "entry (hosts p ! q) = (b, x)" for q
    using that pool_okD(2) [OF ok that(1) r] by (auto simp: entry_def)
  show "assignment p' b = Some x \<longleftrightarrow> ((assignment p)(hV6 (hosts p ! r) := None)) b = Some x"
    unfolding map_upd_iff assignment_iff [OF ok] assignment_iff [OF ok'] lv p'(2) using ne by (cases "b = hV6 (hosts p ! r)") auto
qed

subsection \<open>The operations on the assignments\<close>

lemma assignment_touch:
  assumes ok: "pool_ok p" and r: "live p r"
  shows "assignment (upd_host r (\<lambda>d. d\<lparr>lastUse := n\<rparr>) p)
    = (assignment p)(hV6 (hosts p ! r) \<mapsto> (hV4 (hosts p ! r), n, hDormant (hosts p ! r)))"
proof -
  let ?p = "upd_host r (\<lambda>d. d\<lparr>lastUse := n\<rparr>) p"
  have h: "(hosts p ! r)\<lparr>hV6 := hV6 (hosts p ! r), hDormant := hDormant (hosts p ! r), lastUse := n\<rparr> = (hosts p ! r)\<lparr>lastUse := n\<rparr>"
    by (cases "hosts p ! r") simp
  have "assignment ?p = (assignment p)(hV6 (hosts p ! r) := None, hV6 (hosts p ! r) \<mapsto> (hV4 (hosts p ! r), n, hDormant (hosts p ! r)))"
  proof (rule assignment_change [OF ok _ r])
    show "pool_ok ?p" using ok by simp
    show "live p q \<Longrightarrow> hV6 (hosts p ! q) = hV6 (hosts p ! r) \<Longrightarrow> q = r" for q by (rule pool_okD(2) [OF ok _ r])
    show "hosts ?p = (hosts p)[r := (hosts p ! r)\<lparr>hV6 := hV6 (hosts p ! r), hDormant := hDormant (hosts p ! r), lastUse := n\<rparr>]"
      unfolding h by (simp add: upd_host_def)
  qed (simp add: upd_host_def)
  then show ?thesis by simp
qed

lemma assignment_activate:
  assumes ok: "pool_ok p" and r: "live p r"
  shows "assignment (activate r n p) = (assignment p)(hV6 (hosts p ! r) \<mapsto> (hV4 (hosts p ! r), n, False))"
proof -
  have h: "(hosts p ! r)\<lparr>hV6 := hV6 (hosts p ! r), hDormant := False, lastUse := n\<rparr> = (hosts p ! r)\<lparr>hDormant := False, lastUse := n\<rparr>"
    by (cases "hosts p ! r") simp
  have "assignment (activate r n p) = (assignment p)(hV6 (hosts p ! r) := None, hV6 (hosts p ! r) \<mapsto> (hV4 (hosts p ! r), n, False))"
  proof (rule assignment_change [OF ok pool_ok_activate [OF ok r] r])
    show "live p q \<Longrightarrow> hV6 (hosts p ! q) = hV6 (hosts p ! r) \<Longrightarrow> q = r" for q by (rule pool_okD(2) [OF ok _ r])
    show "hosts (activate r n p) = (hosts p)[r := (hosts p ! r)\<lparr>hV6 := hV6 (hosts p ! r), hDormant := False, lastUse := n\<rparr>]"
      unfolding h by (simp add: activate_def upd_host_def Let_def)
  qed (simp add: activate_def upd_host_def Let_def)
  then show ?thesis by simp
qed

lemma assignment_assign_new:
  assumes ok: "pool_ok p" and off: "off \<noteq> 0" "off \<le> pMax p" "\<not> isUsed p off"
    and a: "map_of (mapped p) a = None" "map_of (dormant p) a = None"
  shows "assignment (assign_new a off now p) = (assignment p)(a \<mapsto> (addr p off, now, False))"
proof -
  have b: "by4 p off = None" using pool_okD(5) [OF ok off(2)] off by simp
  show ?thesis
    by (rule assignment_new [OF ok pool_ok_assign_new [OF ok off a] b no_host_at [OF ok a]])
      (simp_all add: assign_new_def Pool_event_def observe_def activate_def upd_host_def setUsed_def Let_def)
qed

lemma assignment_steal:
  assumes ok: "pool_ok p" and r: "live p r" "hDormant (hosts p ! r)"
    and a: "map_of (mapped p) a = None" "map_of (dormant p) a = None"
  shows "assignment (steal a r now p) = (assignment p)(hV6 (hosts p ! r) := None, a \<mapsto> (hV4 (hosts p ! r), now, False))"
    "hV4 (hosts (steal a r now p) ! r) = hV4 (hosts p ! r)"
proof -
  have l: "r < length (hosts p)" using live_length [OF ok r(1)] .
  show "assignment (steal a r now p) = (assignment p)(hV6 (hosts p ! r) := None, a \<mapsto> (hV4 (hosts p ! r), now, False))"
  proof (rule assignment_change [OF ok pool_ok_steal [OF ok r a] r(1)])
    show "live p s \<Longrightarrow> hV6 (hosts p ! s) = a \<Longrightarrow> s = r" for s using no_host_at [OF ok a] by blast
  qed (use l in \<open>simp_all add: steal_def Pool_event_def observe_def activate_def upd_host_def Let_def\<close>)
  show "hV4 (hosts (steal a r now p) ! r) = hV4 (hosts p ! r)"
    using l by (simp add: steal_def Pool_event_def observe_def activate_def upd_host_def Let_def)
qed

text \<open>
  The contract of a request for an address, on the assignments: a mapped host keeps its
  address, a dormant one gets it back, a new one gets a free address of the pool that is
  not reserved if there is any, else that of the dormant host that was used least recently,
  and nothing if there is none.
\<close>

definition free_addr :: "Pool \<Rightarrow> Addr \<Rightarrow> bool" where
  "free_addr p v4 \<longleftrightarrow> (\<exists>off. off \<noteq> 0 \<and> off \<le> pMax p \<and> v4 = addr p off) \<and> \<not> reserved p v4
     \<and> (\<forall>a u d. assignment p a \<noteq> Some (v4, u, d))"

inductive request :: "Pool \<Rightarrow> int \<Rightarrow> Addr \<Rightarrow> Addr option \<Rightarrow> (Addr \<Rightarrow> (Addr \<times> int \<times> bool) option) \<Rightarrow> bool" for p now a where
  known: "assignment p a = Some (v4, u, d) \<Longrightarrow> request p now a (Some v4) ((assignment p)(a \<mapsto> (v4, now, False)))"
| fresh: "assignment p a = None \<Longrightarrow> free_addr p v4 \<Longrightarrow> request p now a (Some v4) ((assignment p)(a \<mapsto> (v4, now, False)))"
| stolen: "assignment p a = None \<Longrightarrow> \<forall>v4. \<not> free_addr p v4 \<Longrightarrow> assignment p b = Some (v4, u, True)
    \<Longrightarrow> \<forall>c v u'. assignment p c = Some (v, u', True) \<longrightarrow> u \<le> u'
    \<Longrightarrow> request p now a (Some v4) ((assignment p)(b := None, a \<mapsto> (v4, now, False)))"
| exhausted: "assignment p a = None \<Longrightarrow> \<forall>v4. \<not> free_addr p v4 \<Longrightarrow> \<forall>b v4 u. assignment p b \<noteq> Some (v4, u, True)
    \<Longrightarrow> request p now a None (assignment p)"

lemma addr_inj:
  assumes g: "geometry p" and o: "off \<le> pMax p" "off' \<le> pMax p" and e: "addr p off = addr p off'"
  shows "off = off'"
proof -
  obtain k where k: "k \<le> 24" "pMax p = mask k" "pBase p AND mask k = 0" using geometryD [OF g] by metis
  have "take_bit k (pBase p OR x) = x" if "x \<le> pMax p" for x
    using le_mask_take_bit [OF k(1), of x] that k by (simp add: take_bit_eq_mask bit.conj_disj_distrib2 take_bit_or)
  then show ?thesis using e o by (metis addr_eq Addr.inject(1))
qed

lemma free_addr_iff:
  assumes ok: "pool_ok p"
  shows "free_addr p v4 \<longleftrightarrow> (\<exists>off. off \<noteq> 0 \<and> off \<le> pMax p \<and> \<not> isUsed p off \<and> \<not> reserved p v4 \<and> v4 = addr p off)"
proof -
  have "(\<exists>a u d. assignment p a = Some (addr p off, u, d)) \<longleftrightarrow> isUsed p off" if off: "off \<noteq> 0" "off \<le> pMax p" for off
  proof
    assume "\<exists>a u d. assignment p a = Some (addr p off, u, d)"
    then obtain r where r: "live p r" "hV4 (hosts p ! r) = addr p off" by (auto simp: assignment_iff [OF ok] entry_def)
    then have "by4 p (hOff (hosts p ! r)) = Some r" by (simp add: live_def)
    then have "by4 p off = Some r" using pool_okD(1) [OF ok, of "hOff (hosts p ! r)" r] r addr_inj [OF pool_ok_dom(1) [OF ok] _ off(2)] by metis
    then show "isUsed p off" using pool_okD(5) [OF ok off(2)] by simp
  next
    assume "isUsed p off"
    then obtain r where "by4 p off = Some r" using pool_okD(5) [OF ok off(2)] off(1) by auto
    then have "live p r" "hV4 (hosts p ! r) = addr p off" using pool_okD(1) [OF ok, of off r] by (auto simp: live_def)
    then show "\<exists>a u d. assignment p a = Some (addr p off, u, d)" by (auto simp: assignment_iff [OF ok] entry_def)
  qed
  then show ?thesis unfolding free_addr_def by blast
qed

lemma assignment_None_iff:
  assumes ok: "pool_ok p"
  shows "assignment p a = None \<longleftrightarrow> map_of (mapped p) a = None \<and> map_of (dormant p) a = None"
  by (simp add: assignment_def split: option.splits)

lemma dormant_assignment:
  assumes ok: "pool_ok p"
  shows "assignment p b = Some (v4, u, True) \<longleftrightarrow>
    (\<exists>r. (b, r) \<in> set (dormant p) \<and> hV4 (hosts p ! r) = v4 \<and> lastUse (hosts p ! r) = u)"
proof -
  have "(b, r) \<in> set (dormant p) \<longleftrightarrow> live p r \<and> hV6 (hosts p ! r) = b \<and> hDormant (hosts p ! r)" for r
    using pool_okD(4) [OF ok, of b r] pool_ok_dom(3) [OF ok] by simp
  then show ?thesis by (auto simp: assignment_iff [OF ok] entry_def)
qed

lemma assign_at_request:
  assumes ok: "pool_ok p" and it: "iter_ok it"
  shows "request p now a (fst (assign_at now it a p)) (assignment (snd (assign_at now it a p)))"
proof (cases rule: assign_at_cases [of p a now it])
  case (mapped r)
  then have r: "live p r" "hV6 (hosts p ! r) = a" "\<not> hDormant (hosts p ! r)" using pool_okD(3) [OF ok] by blast+
  then have "assignment p a = Some (hV4 (hosts p ! r), lastUse (hosts p ! r), False)" by (auto simp: assignment_iff [OF ok] entry_def)
  from known [OF this] show ?thesis using mapped(2) assignment_touch [OF ok r(1)] r by simp
next
  case (dormant r)
  then have r: "live p r" "hV6 (hosts p ! r) = a" "hDormant (hosts p ! r)" using pool_okD(4) [OF ok] by blast+
  then have "assignment p a = Some (hV4 (hosts p ! r), lastUse (hosts p ! r), True)" by (auto simp: assignment_iff [OF ok] entry_def)
  moreover have "hV4 (hosts (activate r now p) ! r) = hV4 (hosts p ! r)"
    using live_length [OF ok r(1)] by (simp add: activate_def upd_host_def Let_def)
  ultimately show ?thesis using known [of p a] dormant(3) assignment_activate [OF ok r(1), of now] r by simp
next
  case (fresh off)
  note b = search_bounds [OF pool_ok_dom(1) [OF ok] fresh(3)]
  have "assignment p a = None" using assignment_None_iff [OF ok] fresh by simp
  moreover have "free_addr p (addr p off)" using b by (auto simp: free_addr_iff [OF ok])
  ultimately show ?thesis using request.fresh [of p a] fresh(4) assignment_assign_new [OF ok b(1-3) fresh(1,2), of now] by simp
next
  case exhausted
  have "assignment p a = None" using assignment_None_iff [OF ok] exhausted by simp
  moreover have "\<forall>v4. \<not> free_addr p v4" using search_complete [OF pool_ok_dom(1) [OF ok] exhausted(3)] by (auto simp: free_addr_iff [OF ok])
  moreover have "dormant p = []" using exhausted(4) oldest_spec(1) iter_set [OF it, of "dormant p"] by simp
  then have "\<forall>b v4 u. assignment p b \<noteq> Some (v4, u, True)" by (simp add: dormant_assignment [OF ok])
  ultimately show ?thesis using request.exhausted [of p a] exhausted(5) by simp
next
  case (stolen r)
  note lr = oldest_live [OF ok it stolen(4)]
  have an: "assignment p a = None" using assignment_None_iff [OF ok] stolen by simp
  have nf: "\<forall>v4. \<not> free_addr p v4" using search_complete [OF pool_ok_dom(1) [OF ok] stolen(3)] by (auto simp: free_addr_iff [OF ok])
  have b: "assignment p (hV6 (hosts p ! r)) = Some (hV4 (hosts p ! r), lastUse (hosts p ! r), True)"
    using lr by (auto simp: assignment_iff [OF ok] entry_def)
  have "lastUse (hosts p ! r) \<le> u'" if dc: "assignment p c = Some (v, u', True)" for c v u'
  proof -
    obtain q where "(c, q) \<in> set (dormant p)" "lastUse (hosts p ! q) = u'" using iffD1 [OF dormant_assignment [OF ok] dc] by blast
    then show ?thesis using oldest_spec(2) [OF stolen(4)] by (force simp: iter_set [OF it])
  qed
  then have m: "\<forall>c v u'. assignment p c = Some (v, u', True) \<longrightarrow> lastUse (hosts p ! r) \<le> u'" by blast
  show ?thesis using request.stolen [OF an nf b m, of now] stolen(5) assignment_steal [OF ok lr stolen(1,2), of now] by simp
qed

subsection \<open>Expiry\<close>

definition expire1 :: "int \<Rightarrow> int \<Rightarrow> (Addr \<times> int \<times> bool) option \<Rightarrow> (Addr \<times> int \<times> bool) option" where
  "expire1 mn now e = (case e of None \<Rightarrow> None | Some (v4, u, d) \<Rightarrow> Some (v4, u, d \<or> u + mn < now))"

definition expire2 :: "int \<Rightarrow> int \<Rightarrow> (Addr \<times> int \<times> bool) option \<Rightarrow> (Addr \<times> int \<times> bool) option" where
  "expire2 mx now e = (case e of None \<Rightarrow> None | Some (v4, u, d) \<Rightarrow> if d \<and> u + mx < now then None else Some (v4, u, d))"

lemma fold_entries_effect:
  assumes "Q p" "distinct (map fst xs)" "\<forall>(v, r) \<in> set xs. map_of (m p) v = Some r"
    and step: "\<And>p v r. Q p \<Longrightarrow> map_of (m p) v = Some r \<Longrightarrow> Q (f (v, r) p) \<and> (\<forall>u. u \<noteq> v \<longrightarrow> map_of (m (f (v, r) p)) u = map_of (m p) u)"
    and eff: "\<And>p v r. Q p \<Longrightarrow> map_of (m p) v = Some r \<Longrightarrow> A (f (v, r) p) = (A p)(v := g (A p v))"
  shows "A (fold f xs p) a = (if a \<in> fst ` set xs then g (A p a) else A p a)"
  using assms(1-3)
proof (induction xs arbitrary: p)
  case (Cons x xs)
  obtain v r where x: "x = (v, r)" by (cases x)
  have r: "map_of (m p) v = Some r" using Cons.prems(3) by (simp add: x)
  note s = step [OF Cons.prems(1) r] and e = eff [OF Cons.prems(1) r]
  have nv: "v \<notin> fst ` set xs" using Cons.prems(2) by (simp add: x)
  have "map_of (m (f x p)) u = Some q" if "(u, q) \<in> set xs" for u q
  proof -
    have "u \<noteq> v" using that nv by force
    then show ?thesis using that Cons.prems(3) s by (auto simp: x)
  qed
  then have "\<forall>(u, q) \<in> set xs. map_of (m (f x p)) u = Some q" by blast
  then show ?case using Cons.IH [of "f x p"] s e Cons.prems(2) nv by (auto simp: x)
qed simp

lemma assignment_expire_mapped:
  assumes ok: "pool_ok p" and r: "map_of (mapped p) v = Some r"
  shows "assignment (expire_mapped mn now (v, r) p) = (assignment p)(v := expire1 mn now (assignment p v))"
proof -
  have lr: "live p r" "hV6 (hosts p ! r) = v" "\<not> hDormant (hosts p ! r)" using pool_okD(3) [OF ok] r by blast+
  have av: "assignment p v = Some (hV4 (hosts p ! r), lastUse (hosts p ! r), False)" using r by (simp add: assignment_def)
  show ?thesis
  proof (cases "lastUse (hosts p ! r) + mn < now")
    case False
    then show ?thesis using av by (simp add: expire_mapped_def expire1_def fun_upd_idem)
  next
    case True
    let ?p = "expire_mapped mn now (v, r) p"
    have h: "(hosts p ! r)\<lparr>hV6 := v, hDormant := True, lastUse := lastUse (hosts p ! r)\<rparr> = (hosts p ! r)\<lparr>hDormant := True\<rparr>"
      using lr(2) by (cases "hosts p ! r") simp
    have "assignment ?p = (assignment p)(hV6 (hosts p ! r) := None, v \<mapsto> (hV4 (hosts p ! r), lastUse (hosts p ! r), True))"
    proof (rule assignment_change [OF ok pool_ok_expire_mapped(1) [OF ok r] lr(1)])
      show "live p s \<Longrightarrow> hV6 (hosts p ! s) = v \<Longrightarrow> s = r" for s using pool_okD(2) [OF ok _ lr(1)] lr by simp
      show "hosts ?p = (hosts p)[r := (hosts p ! r)\<lparr>hV6 := v, hDormant := True, lastUse := lastUse (hosts p ! r)\<rparr>]"
        unfolding h using True by (simp add: expire_mapped_def upd_host_def Pool_event_def observe_def Let_def)
    qed (use True in \<open>simp add: expire_mapped_def upd_host_def Pool_event_def observe_def Let_def\<close>)
    then show ?thesis using True av lr(2) by (simp add: expire1_def)
  qed
qed

lemma assignment_expire_dormant:
  assumes ok: "pool_ok p" and r: "map_of (dormant p) v = Some r"
  shows "assignment (expire_dormant mx now (v, r) p) = (assignment p)(v := expire2 mx now (assignment p v))"
proof -
  have lr: "live p r" "hV6 (hosts p ! r) = v" "hDormant (hosts p ! r)" using pool_okD(4) [OF ok] r by blast+
  have av: "assignment p v = Some (hV4 (hosts p ! r), lastUse (hosts p ! r), True)" using lr by (auto simp: assignment_iff [OF ok] entry_def)
  show ?thesis
  proof (cases "lastUse (hosts p ! r) + mx < now")
    case False
    then show ?thesis using av by (simp add: expire_dormant_def expire2_def fun_upd_idem)
  next
    case True
    have "assignment (expire_dormant mx now (v, r) p) = (assignment p)(hV6 (hosts p ! r) := None)"
      by (rule assignment_remove [OF ok pool_ok_expire_dormant(1) [OF ok r] lr(1)])
        (use True in \<open>simp_all add: expire_dormant_def Pool_event_def observe_def Let_def\<close>)
    then show ?thesis using True av lr(2) by (simp add: expire2_def)
  qed
qed

lemma assignment_Maintain:
  assumes ok: "pool_ok p" and it: "iter_ok it"
  shows "assignment (Maintain it p) a
    = expire2 (maxLease p div Second) (clock p 0) (expire1 (minLease p div Second) (clock p 0) (assignment p a))"
proof -
  define now mn mx p0 where "now = clock p 0" and "mn = minLease p div Second" and "mx = maxLease p div Second"
    and "p0 = p\<lparr>clock := \<lambda>i. clock p (Suc i)\<rparr>"
  define p1 where "p1 = fold (expire_mapped mn now) (it (mapped p0)) p0"
  have ok0: "pool_ok p0" using ok by (simp add: p0_def)
  note i0 = iter_entries [OF it pool_ok_dom(2) [OF ok0]]
  have ok1: "pool_ok p1" unfolding p1_def
    by (rule fold_entries [where Q = pool_ok and m = mapped, OF ok0 i0]) (auto simp: pool_ok_expire_mapped)
  note i1 = iter_entries [OF it pool_ok_dom(3) [OF ok1]]
  have a1: "assignment p1 a = (if a \<in> fst ` set (it (mapped p0)) then expire1 mn now (assignment p0 a) else assignment p0 a)"
    unfolding p1_def
    by (rule fold_entries_effect [where Q = pool_ok and m = mapped, OF ok0 i0]) (auto simp: pool_ok_expire_mapped assignment_expire_mapped)
  also have "\<dots> = expire1 mn now (assignment p0 a)"
    using map_of_eq_None_iff [of "mapped p0" a] by (auto simp: iter_set [OF it] expire1_def assignment_def split: option.splits)
  finally have a1: "assignment p1 a = expire1 mn now (assignment p a)" by (simp add: p0_def)
  have "assignment (fold (expire_dormant mx now) (it (dormant p1)) p1) a
      = (if a \<in> fst ` set (it (dormant p1)) then expire2 mx now (assignment p1 a) else assignment p1 a)"
    by (rule fold_entries_effect [where Q = pool_ok and m = dormant, OF ok1 i1]) (auto simp: pool_ok_expire_dormant assignment_expire_dormant)
  also have "\<dots> = expire2 mx now (assignment p1 a)"
    using map_of_eq_None_iff [of "dormant p1" a] by (auto simp: iter_set [OF it] expire2_def assignment_def split: option.splits)
  also have "fold (expire_dormant mx now) (it (dormant p1)) p1 = Maintain it p"
    by (simp add: Maintain_def tick_def p1_def p0_def now_def mn_def mx_def Let_def)
  finally show ?thesis by (simp only: a1 now_def mn_def mx_def)
qed

subsection \<open>Reachable pools\<close>

text \<open>
  A step of a pool: a call of one of its operations, or the configuration telling it which
  addresses are reserved. Map iterations go through the entries in any order.
\<close>

inductive pool_step :: "Pool \<Rightarrow> Pool \<Rightarrow> bool" where
  lookup4: "pool_step p (snd (Pool_lookup4 a p))"
| lookup6: "iter_ok it \<Longrightarrow> pool_step p (snd (Pool_lookup6 it a al p))"
| maintain: "iter_ok it \<Longrightarrow> pool_step p (Maintain it p)"
| save: "pool_step p (snd (snd (Save it s file p)))"
| load: "pool_step p (snd (Load f p))"
| leases: "pool_step p (SetLeases mn mx p)"
| observer: "pool_step p (SetObserver obs p)"
| reserve: "pool_step p (p\<lparr>reserved := rs\<rparr>)"

inductive pool_reach :: "Pool \<Rightarrow> bool" where
  new: "NewPool t0 prefix opt = Inr p \<Longrightarrow> pool_reach p"
| step: "pool_reach p \<Longrightarrow> pool_step p q \<Longrightarrow> pool_reach q"

lemma pool_step_ok: "pool_step p q \<Longrightarrow> pool_ok p \<Longrightarrow> pool_ok q"
  by (induction rule: pool_step.induct)
    (simp_all add: pool_ok_lookup4 pool_ok_lookup6 pool_ok_Maintain pool_ok_Save pool_ok_Load)

lemma pool_reach_ok: "pool_reach p \<Longrightarrow> pool_ok p"
  by (induction rule: pool_reach.induct) (auto simp: NewPool_ok pool_step_ok)

lemma Pool_lookup6_request:
  assumes ok: "pool_ok p" and it: "iter_ok it"
  shows "if al \<or> map_of (mapped p) a \<noteq> None
    then request p (clock p 0) a (fst (Pool_lookup6 it a al p)) (assignment (snd (Pool_lookup6 it a al p)))
    else Pool_lookup6 it a al p = (None, p)"
proof (cases "map_of (mapped p) a")
  case (Some r)
  then have r: "live p r" "hV6 (hosts p ! r) = a" "\<not> hDormant (hosts p ! r)" using pool_okD(3) [OF ok] by blast+
  define p0 where "p0 = p\<lparr>clock := \<lambda>i. clock p (Suc i)\<rparr>"
  have ok0: "pool_ok p0" "live p0 r" "hosts p0 = hosts p" "assignment p0 = assignment p" using ok r by (simp_all add: p0_def live_def)
  have "assignment p a = Some (hV4 (hosts p ! r), lastUse (hosts p ! r), False)" using Some by (simp add: assignment_def)
  moreover have "fst (Pool_lookup6 it a al p) = Some (hV4 (hosts p ! r))"
      "snd (Pool_lookup6 it a al p) = upd_host r (\<lambda>d. d\<lparr>lastUse := clock p 0\<rparr>) p0"
    using Some by (simp_all add: Pool_lookup6_def tick_def p0_def upd_host_def Let_def)
  ultimately show ?thesis using Some known [of p a] assignment_touch [OF ok0(1,2)] ok0 r by simp
next
  case None
  define p0 where "p0 = p\<lparr>clock := \<lambda>i. clock p (Suc i)\<rparr>"
  have ok0: "pool_ok p0" using ok by (simp add: p0_def)
  have f: "free_addr p0 = free_addr p" "assignment p0 = assignment p" by (simp_all add: p0_def free_addr_def fun_eq_iff)
  have "request p0 n a v m = request p n a v m" for n v m by (simp add: request.simps f)
  then have "request p (clock p 0) a (fst (assign it a p)) (assignment (snd (assign it a p)))"
    using assign_at_request [OF ok0 it, of "clock p 0" a] by (simp add: assign_def tick_def p0_def)
  then show ?thesis using None by (simp add: Pool_lookup6_def)
qed

text \<open>The address of a host finds the host.\<close>

lemma Pool_lookup4_iff:
  assumes ok: "pool_ok p" and a4: "Contains (pPrefix p) (IPv4 w)"
  shows "fst (Pool_lookup4 (IPv4 w) p) = Some a \<longleftrightarrow> (\<exists>u. assignment p a = Some (IPv4 w, u, False))"
    and "fst (Pool_lookup4 (IPv4 w) p) = Some a \<Longrightarrow>
      assignment (snd (Pool_lookup4 (IPv4 w) p)) = (assignment p)(a \<mapsto> (IPv4 w, clock p 0, False))"
    and "fst (Pool_lookup4 (IPv4 w) p) = None \<Longrightarrow> snd (Pool_lookup4 (IPv4 w) p) = p"
proof -
  let ?off = "w AND pMax p"
  note pa = prefix_addr [OF pool_ok_dom(1) [OF ok] a4]
  define p0 where "p0 = p\<lparr>clock := \<lambda>i. clock p (Suc i)\<rparr>"
  have ok0: "pool_ok p0" "hosts p0 = hosts p" "live p0 = live p" using ok by (simp_all add: p0_def live_def fun_eq_iff)
  have "hV6 ((hosts p)[r := (hosts p ! r)\<lparr>lastUse := n\<rparr>] ! r) = hV6 (hosts p ! r)" for r n by simp
  then have lk: "Pool_lookup4 (IPv4 w) p = (case by4 p ?off of None \<Rightarrow> (None, p)
      | Some r \<Rightarrow> if hDormant (hosts p ! r) then (None, p) else (Some (hV6 (hosts p ! r)), upd_host r (\<lambda>d. d\<lparr>lastUse := clock p 0\<rparr>) p0))"
    by (simp add: Pool_lookup4_def tick_def p0_def upd_host_def Let_def split: option.splits)
  have iff: "fst (Pool_lookup4 (IPv4 w) p) = Some a \<longleftrightarrow> (\<exists>r. by4 p ?off = Some r \<and> hV6 (hosts p ! r) = a \<and> \<not> hDormant (hosts p ! r))"
    by (auto simp: lk split: option.splits)
  have b: "by4 p ?off = Some r \<longleftrightarrow> live p r \<and> hV4 (hosts p ! r) = IPv4 w" for r
  proof
    assume "by4 p ?off = Some r"
    then show "live p r \<and> hV4 (hosts p ! r) = IPv4 w" using pool_okD(1) [OF ok] pa by (auto simp: live_def)
  next
    assume r: "live p r \<and> hV4 (hosts p ! r) = IPv4 w"
    then have o: "by4 p (hOff (hosts p ! r)) = Some r" by (simp only: live_def)
    have "addr p (hOff (hosts p ! r)) = addr p ?off" using pool_okD(1) [OF ok o] r pa by metis
    then have "hOff (hosts p ! r) = ?off"
      using pool_okD(1) [OF ok o] by (intro addr_inj [OF pool_ok_dom(1) [OF ok]] word_and_le1) blast
    then show "by4 p ?off = Some r" using o by (simp only:)
  qed
  show "fst (Pool_lookup4 (IPv4 w) p) = Some a \<longleftrightarrow> (\<exists>u. assignment p a = Some (IPv4 w, u, False))"
    unfolding iff b assignment_iff [OF ok] entry_def by auto
  show "fst (Pool_lookup4 (IPv4 w) p) = None \<Longrightarrow> snd (Pool_lookup4 (IPv4 w) p) = p"
    by (auto simp: lk split: option.splits if_splits)
  assume "fst (Pool_lookup4 (IPv4 w) p) = Some a"
  then obtain r where r: "by4 p ?off = Some r" "hV6 (hosts p ! r) = a" "\<not> hDormant (hosts p ! r)" by (auto simp: iff)
  then have "live p0 r" "hV4 (hosts p ! r) = IPv4 w" using b ok0 by auto
  then show "assignment (snd (Pool_lookup4 (IPv4 w) p)) = (assignment p)(a \<mapsto> (IPv4 w, clock p 0, False))"
    using r assignment_touch [OF ok0(1), of r "clock p 0"] ok0 by (simp add: lk p0_def)
qed

subsection \<open>Consequences\<close>

lemma addr_contains:
  assumes g: "geometry p" and off: "off \<le> pMax p"
  shows "Contains (pPrefix p) (addr p off)" "offset4 p (addr p off) = off"
proof -
  obtain k where k: "1 \<le> k" "k \<le> 24" "pMax p = mask k" "pBase p AND mask k = 0" "pBits (pPrefix p) = 32 - int k" "pAddr (pPrefix p) = IPv4 (pBase p)"
    using geometryD [OF g] by metis
  have o: "take_bit k off = off" using le_mask_take_bit [OF k(2)] off k(3) by simp
  have "take_bit k (pBase p OR off) = off" using o k(4) by (simp add: take_bit_or) (simp add: take_bit_eq_mask)
  then show "offset4 p (addr p off) = off" by (simp add: addr_eq k(3) take_bit_eq_mask)
  have "drop_bit k off = 0" by (subst o [symmetric]) (rule bit_eqI, auto simp: bit_simps)
  then have "drop_bit k (pBase p OR off) = drop_bit k (pBase p)" by (simp add: drop_bit_or)
  moreover have "32 - nat (pBits (pPrefix p)) = k" using k by simp
  ultimately show "Contains (pPrefix p) (addr p off)" using k by (simp add: Contains_def PIsValid_def addr_eq)
qed

lemma assignment_addr:
  assumes ok: "pool_ok p" and a: "assignment p a = Some (v4, u, d)"
  obtains r where "live p r" "hV6 (hosts p ! r) = a" "hV4 (hosts p ! r) = v4" "hOff (hosts p ! r) \<noteq> 0" "hOff (hosts p ! r) \<le> pMax p"
    "v4 = addr p (hOff (hosts p ! r))"
proof -
  obtain r where r: "live p r" "hV6 (hosts p ! r) = a" "hV4 (hosts p ! r) = v4" using a by (auto simp: assignment_iff [OF ok] entry_def)
  from r(1) have "by4 p (hOff (hosts p ! r)) = Some r" by (simp only: live_def)
  from pool_okD(1) [OF ok this] show ?thesis using that [OF r] r(3) by metis
qed

lemma assignment_exclusive:
  assumes ok: "pool_ok p" and a: "assignment p a = Some (v4, u, d)"
  shows "Contains (pPrefix p) v4" "v4 \<noteq> pAddr (pPrefix p)" "assignment p b = Some (v4, u', d') \<Longrightarrow> b = a"
proof -
  note g = pool_ok_dom(1) [OF ok]
  obtain r where r: "live p r" "hV6 (hosts p ! r) = a" "hV4 (hosts p ! r) = v4" "hOff (hosts p ! r) \<noteq> 0" "hOff (hosts p ! r) \<le> pMax p"
      "v4 = addr p (hOff (hosts p ! r))" using assignment_addr [OF ok a] .
  show "Contains (pPrefix p) v4" using addr_contains(1) [OF g r(5)] by (simp only: r(6) [symmetric])
  have "addr p 0 = pAddr (pPrefix p)" using g by (simp add: addr_eq geometry_def)
  then show "v4 \<noteq> pAddr (pPrefix p)" using addr_inj [OF g r(5), of 0] r(4,6) by fastforce
  assume "assignment p b = Some (v4, u', d')"
  then obtain q where q: "live p q" "hV6 (hosts p ! q) = b" "hOff (hosts p ! q) \<le> pMax p" "v4 = addr p (hOff (hosts p ! q))"
    using assignment_addr [OF ok] by metis
  have "hOff (hosts p ! q) = hOff (hosts p ! r)" using addr_inj [OF g q(3) r(5)] q(4) r(6) by metis
  then have "q = r" using q(1) r(1) unfolding live_def by (metis option.inject)
  then show "b = a" using q(2) r(2) by metis
qed

lemma lookup6_active:
  assumes ok: "pool_ok p" and a: "assignment p a = Some (v4, u, False)"
  shows "fst (Pool_lookup6 it a al p) = Some v4"
proof -
  obtain r where "map_of (mapped p) a = Some r" "hV4 (hosts p ! r) = v4" using a by (auto simp: assignment_def split: option.splits)
  then show ?thesis by (simp add: Pool_lookup6_def tick_def upd_host_def Let_def nth_upd)
qed

lemma lookup6_result:
  assumes ok: "pool_ok p" and it: "iter_ok it" and r: "Pool_lookup6 it a al p = (Some v4, q)"
  shows "assignment q a = Some (v4, clock p 0, False)"
proof -
  have "request p (clock p 0) a (Some v4) (assignment q)"
    using Pool_lookup6_request [OF ok it, of al a] r by (simp split: if_splits)
  then show ?thesis by cases auto
qed

lemma lookup4_active:
  assumes ok: "pool_ok p" and a: "assignment p a = Some (v4, u, False)"
  shows "fst (Pool_lookup4 v4 p) = Some a"
proof -
  obtain w where w: "v4 = IPv4 w" using assignment_addr [OF ok a] addr_eq by metis
  show ?thesis using Pool_lookup4_iff(1) [OF ok] assignment_exclusive(1) [OF ok a] a unfolding w by blast
qed

lemma lookup4_assignment:
  assumes ok: "pool_ok p"
  obtains "snd (Pool_lookup4 w p) = p"
  | b v4 u where "assignment p b = Some (v4, u, False)" "assignment (snd (Pool_lookup4 w p)) = (assignment p)(b \<mapsto> (v4, clock p 0, False))"
proof (cases "by4 p (offset4 p w)")
  case None
  then show ?thesis using that(1) by (simp add: Pool_lookup4_def)
next
  case (Some r)
  define p0 where "p0 = p\<lparr>clock := \<lambda>i. clock p (Suc i)\<rparr>"
  have "live p r" using pool_okD(1) [OF ok Some] Some by (simp add: live_def)
  then have l: "pool_ok p0" "live p0 r" "hosts p0 = hosts p" "assignment p0 = assignment p" using ok by (simp_all add: p0_def live_def)
  show ?thesis
  proof (cases "hDormant (hosts p ! r)")
    case True
    then show ?thesis using that(1) Some by (simp add: Pool_lookup4_def)
  next
    case False
    then have "snd (Pool_lookup4 w p) = upd_host r (\<lambda>d. d\<lparr>lastUse := clock p 0\<rparr>) p0"
      using Some by (simp add: Pool_lookup4_def tick_def p0_def Let_def)
    moreover have "assignment p (hV6 (hosts p ! r)) = Some (hV4 (hosts p ! r), lastUse (hosts p ! r), False)"
      using \<open>live p r\<close> False by (auto simp: assignment_iff [OF ok] entry_def)
    ultimately show ?thesis using that(2) assignment_touch [OF l(1,2)] False l by simp
  qed
qed

lemma active_kept:
  assumes ok: "pool_ok p" and it: "iter_ok it" and a: "assignment p a = Some (v4, u, False)"
  shows "\<exists>u'. assignment (snd (Pool_lookup6 it b al p)) a = Some (v4, u', False)"
    and "\<exists>u'. assignment (snd (Pool_lookup4 w p)) a = Some (v4, u', False)"
proof -
  show "\<exists>u'. assignment (snd (Pool_lookup4 w p)) a = Some (v4, u', False)"
    by (rule lookup4_assignment [OF ok, of w]) (use a in auto)
  have "request p (clock p 0) b v m \<Longrightarrow> \<exists>u'. m a = Some (v4, u', False)" for v m
    by (erule request.cases) (use a in auto)
  then show "\<exists>u'. assignment (snd (Pool_lookup6 it b al p)) a = Some (v4, u', False)"
    using Pool_lookup6_request [OF ok it, of al b] a by (auto split: if_splits)
qed

end
