(* ===== verification/TableInv.thy ===== *)
theory TableInv
  imports AddrMap PoolSpec
begin

text \<open>
  What a builder accepts, what \<^verbatim>\<open>Build\<close> makes of it, and the two lookups of a table as
  searches of its entries.
\<close>

subsection \<open>Generic lemmas\<close>

lemma find_filter_first:
  "find P xs = (case find P (filter Q xs) of Some x \<Rightarrow> Some x | None \<Rightarrow> find P (filter (\<lambda>x. \<not> Q x) xs))"
  if "sorted_wrt (\<lambda>x y. Q y \<longrightarrow> Q x) xs"
  using that
proof (induction xs)
  case (Cons x xs)
  show ?case
  proof (cases "Q x")
    case True
    then show ?thesis using Cons by (simp split: option.splits)
  next
    case False
    then have "filter Q (x # xs) = []" "filter (\<lambda>x. \<not> Q x) (x # xs) = x # xs" using Cons.prems by (auto simp: filter_empty_conv)
    then show ?thesis by simp
  qed
qed simp

lemma find_Some_iff_unique:
  assumes "\<And>x y. x \<in> set xs \<Longrightarrow> y \<in> set xs \<Longrightarrow> P x \<Longrightarrow> P y \<Longrightarrow> x = y"
  shows "find P xs = Some x \<longleftrightarrow> x \<in> set xs \<and> P x"
  using assms by (induction xs) (auto simp: find_None_iff)

text \<open>In a list sorted by a key the first match is one with the least key.\<close>

lemma find_sorted_least:
  assumes "sorted (map k xs)"
    and "\<And>x y. x \<in> set xs \<Longrightarrow> y \<in> set xs \<Longrightarrow> P x \<Longrightarrow> P y \<Longrightarrow> k x = k y \<Longrightarrow> x = y"
  shows "find P xs = Some x \<longleftrightarrow> x \<in> set xs \<and> P x \<and> (\<forall>y \<in> set xs. P y \<longrightarrow> k x \<le> k y)"
  using assms
proof (induction xs)
  case (Cons a xs)
  show ?case
  proof (cases "P a")
    case True
    then have f: "find P (a # xs) = Some x \<longleftrightarrow> x = a" by auto
    have a: "\<forall>y \<in> set (a # xs). k a \<le> k y" using Cons.prems(1) by auto
    show ?thesis unfolding f using a True Cons.prems(2) [of x a] by (metis antisym list.set_intros(1))
  next
    case False
    then show ?thesis using Cons by auto
  qed
qed simp

lemma sorted_wrt_symmetric:
  assumes "distinct xs" "\<And>x y. R x y \<longleftrightarrow> R y x"
  shows "sorted_wrt R xs \<longleftrightarrow> (\<forall>x \<in> set xs. \<forall>y \<in> set xs. x \<noteq> y \<longrightarrow> R x y)"
  using assms by (induction xs) auto

lemma distinct_map_mset: "mset xs = mset ys \<Longrightarrow> distinct (map f xs) \<longleftrightarrow> distinct (map f ys)"
  by (metis mset_eq_imp_distinct_iff mset_map)

lemma distinct_map_middle: "distinct (map f (xs @ x # ys)) \<longleftrightarrow> distinct (map f (xs @ ys)) \<and> (\<forall>y \<in> set (xs @ ys). f y \<noteq> f x)"
proof (induction xs)
  case Nil
  show ?case by (auto simp: image_iff)
next
  case (Cons a xs)
  have "f a \<notin> set (map f (xs @ x # ys)) \<longleftrightarrow> f a \<notin> set (map f (xs @ ys)) \<and> f a \<noteq> f x" by auto
  then show ?case using Cons unfolding append_Cons list.map distinct.simps by auto
qed

lemma map_of_map_entries: "map_of (map (\<lambda>e. (f e, e)) xs) a = find (\<lambda>e. f e = a) xs"
  by (induction xs) auto

subsection \<open>Builders\<close>

definition entry_ok :: "Entry \<Rightarrow> bool" where
  "entry_ok e \<longleftrightarrow>
     Is4 (pAddr (eV4 e)) \<and> 0 \<le> pBits (eV4 e) \<and> pBits (eV4 e) \<le> 32 \<and> Masked (eV4 e) = eV4 e \<and>
     (case eKind e of
        KindStatic \<Rightarrow> ClassifyIPv4 (As4 (pAddr (eV4 e))) \<noteq> IPv4Invalid \<and>
          (if v4Only e then pBits (eV4 e) = 32
           else Is6 (pAddr (eV6 e)) \<and> pBits (eV6 e) = pBits (eV4 e) + 96 \<and> Masked (eV6 e) = eV6 e \<and> ValidIPv6 (As16 (pAddr (eV6 e))))
      | KindRFC6052 \<Rightarrow> eV4 e = PrefixFrom (IPv4 0) 0 \<and> Is6 (pAddr (eV6 e)) \<and> ValidRFC6052PrefixLen (pBits (eV6 e))
          \<and> Masked (eV6 e) = eV6 e \<and> ValidIPv6 (As16 (pAddr (eV6 e))) \<and> \<not> v4Only e
      | KindDynamicPool \<Rightarrow> pBits (eV4 e) \<le> 31 \<and> 8 \<le> pBits (eV4 e) \<and> eV6 e = NoPrefix \<and> \<not> v4Only e
      | KindDynamicHost \<Rightarrow> False)"

definition builder_ok :: "Builder \<Rightarrow> bool" where
  "builder_ok b \<longleftrightarrow>
     (\<forall>e \<in> set (bEntries b). entry_ok e) \<and>
     length (filter (\<lambda>e. eKind e = KindRFC6052) (bEntries b)) \<le> 1 \<and>
     (case bPool b of
        None \<Rightarrow> \<forall>e \<in> set (bEntries b). eKind e \<noteq> KindDynamicPool
      | Some p \<Rightarrow> pool_ok p \<and> map eV4 (filter (\<lambda>e. eKind e = KindDynamicPool) (bEntries b)) = [pPrefix p])"

text \<open>Builders as the callers make them; a \<^verbatim>\<open>netip.Prefix\<close> has a length that fits its address.\<close>

inductive builder_reach :: "Builder \<Rightarrow> bool" where
  new: "builder_reach (NewBuilder strict)"
| prefix: "builder_reach b \<Longrightarrow> wf_prefix p \<Longrightarrow> AddPrefix p b = Inr b' \<Longrightarrow> builder_reach b'"
| static: "builder_reach b \<Longrightarrow> wf_prefix v4 \<Longrightarrow> wf_prefix v6 \<Longrightarrow> AddStatic v4 v6 b = Inr b' \<Longrightarrow> builder_reach b'"
| self: "builder_reach b \<Longrightarrow> AddSelf v4 v6 der b = Inr b' \<Longrightarrow> builder_reach b'"
| pool: "builder_reach b \<Longrightarrow> pool_ok p \<Longrightarrow> SetPool p b = Inr b' \<Longrightarrow> builder_reach b'"

lemma mask_hi_full [simp]: "mask_hi n n w = w"
  by (simp add: mask_hi_def)

lemma valid_Masked: "v = Masked v \<Longrightarrow> pAddr v \<noteq> NoAddr \<Longrightarrow> 0 \<le> pBits v"
  by (auto simp: Masked_def NoPrefix_def PIsValid_def split: if_splits)

lemma wf_PrefixFrom: "wf_prefix (PrefixFrom a n)"
  by (auto simp: wf_prefix_def PrefixFrom_def)

lemma builder_ok_add:
  assumes "builder_ok b" "entry_ok e" "eKind e = KindStatic"
  shows "builder_ok (b\<lparr>bEntries := bEntries b @ [e]\<rparr>)"
  using assms by (auto simp: builder_ok_def split: option.splits)

lemma builder_ok_static:
  assumes "builder_ok b" "wf_prefix v4" "wf_prefix v6" "AddStatic v4 v6 b = Inr b'"
  shows "builder_ok b'"
proof -
  have "Is4 (pAddr v4)" "Is6 (pAddr v6)" "pBits v6 = pBits v4 + 96" "v4 = Masked v4" "v6 = Masked v6" "ClassifyIPv4 (As4 (pAddr v4)) \<noteq> IPv4Invalid"
      "ValidIPv6 (As16 (pAddr v6))"
      "b' = b\<lparr>bEntries := bEntries b @ [\<lparr>eKind = KindStatic, eV4 = v4, eV6 = v6, v4Only = False\<rparr>]\<rparr>"
    using assms(4) by (auto simp: AddStatic_def split: if_splits)
  moreover have "0 \<le> pBits v4" using valid_Masked [of v4] calculation by (cases "pAddr v4") auto
  moreover have "pBits v4 \<le> 32" using assms(2) calculation by (cases "pAddr v4") (auto simp: wf_prefix_def)
  ultimately show ?thesis by (auto intro!: builder_ok_add [OF assms(1)] simp: entry_ok_def)
qed

lemma builder_ok_prefix:
  assumes "builder_ok b" "wf_prefix p" "AddPrefix p b = Inr b'"
  shows "builder_ok b'"
proof -
  have "Is6 (pAddr p)" "ValidRFC6052PrefixLen (pBits p)" "p = Masked p" "ValidIPv6 (As16 (pAddr p))" "\<not> list_ex (\<lambda>e. eKind e = KindRFC6052) (bEntries b)"
      "b' = b\<lparr>bEntries := bEntries b @ [\<lparr>eKind = KindRFC6052, eV4 = PrefixFrom (IPv4 0) 0, eV6 = p, v4Only = False\<rparr>]\<rparr>"
    using assms(3) by (auto simp: AddPrefix_def split: if_splits)
  moreover have "filter (\<lambda>e. eKind e = KindRFC6052) (bEntries b) = []" using calculation by (auto simp: filter_empty_conv list_ex_iff)
  moreover have "Masked (PrefixFrom (IPv4 0) 0) = PrefixFrom (IPv4 0) 0" by (simp add: Masked_def PrefixFrom_def PIsValid_def mask_hi_def)
  ultimately show ?thesis using assms(1) by (auto simp: builder_ok_def entry_ok_def PrefixFrom_def split: option.splits)
qed

lemma builder_ok_self:
  assumes "builder_ok b" "AddSelf v4 v6 der b = Inr b'"
  shows "builder_ok b'"
proof (cases der)
  case False
  then show ?thesis using assms builder_ok_static [OF assms(1) wf_PrefixFrom wf_PrefixFrom] by (auto simp: AddSelf_def Let_def)
next
  case True
  then have "Is4 v4" "ClassifyIPv4 (As4 v4) \<noteq> IPv4Invalid"
      "b' = b\<lparr>bEntries := bEntries b @ [\<lparr>eKind = KindStatic, eV4 = PrefixFrom v4 32, eV6 = PrefixFrom v6 128, v4Only = True\<rparr>]\<rparr>"
    using assms(2) by (auto simp: AddSelf_def Let_def split: if_splits)
  moreover have "PrefixFrom v4 32 = \<lparr>pAddr = v4, pBits = 32\<rparr>" using calculation(1) by (cases v4) (auto simp: PrefixFrom_def)
  ultimately show ?thesis
    by (cases v4) (auto intro!: builder_ok_add [OF assms(1)] simp: entry_ok_def Masked_def PIsValid_def)
qed

lemma builder_ok_pool:
  assumes "builder_ok b" "pool_ok p" "SetPool p b = Inr b'"
  shows "builder_ok b'"
proof -
  obtain k where k: "1 \<le> k" "k \<le> 24" "pBase p AND mask k = 0" "pBits (pPrefix p) = 32 - int k" "pAddr (pPrefix p) = IPv4 (pBase p)"
    using geometryD [OF pool_ok_dom(1) [OF assms(2)]] by metis
  have "push_bit k (drop_bit k (pBase p)) = pBase p" using bits_ident [of k "pBase p"] k(3) by (simp add: take_bit_eq_mask)
  moreover have "32 - nat (32 - int k) = k" using k by simp
  ultimately have "Masked (pPrefix p) = pPrefix p" using k by (cases "pPrefix p") (simp add: Masked_def PIsValid_def mask_hi_def)
  moreover have "bPool b = None" "b' = b\<lparr>bPool := Some p, bEntries := bEntries b @ [\<lparr>eKind = KindDynamicPool, eV4 = pPrefix p, eV6 = NoPrefix, v4Only = False\<rparr>]\<rparr>"
    using assms(3) by (auto simp: SetPool_def split: if_splits)
  moreover have "filter (\<lambda>e. eKind e = KindDynamicPool) (bEntries b) = []" using assms(1) calculation(2) by (simp add: builder_ok_def filter_empty_conv)
  ultimately show ?thesis using assms(1,2) k by (auto simp: builder_ok_def entry_ok_def)
qed

lemma builder_reach_ok: "builder_reach b \<Longrightarrow> builder_ok b"
proof (induction rule: builder_reach.induct)
  case (new strict)
  show ?case by (simp add: builder_ok_def NewBuilder_def)
qed (auto intro: builder_ok_prefix builder_ok_static builder_ok_self builder_ok_pool)

subsection \<open>Building\<close>

abbreviation pool_entry :: "Entry \<Rightarrow> bool" where "pool_entry e \<equiv> eKind e = KindDynamicPool"
abbreviation prefix_entry :: "Entry \<Rightarrow> bool" where "prefix_entry e \<equiv> eKind e = KindRFC6052"

definition host4 :: "Entry \<Rightarrow> bool" where
  "host4 e \<longleftrightarrow> eKind e = KindStatic \<and> pBits (eV4 e) = 32"

definition host6 :: "Entry \<Rightarrow> bool" where
  "host6 e \<longleftrightarrow> eKind e = KindStatic \<and> pBits (eV6 e) = 128"

definition side6 :: "Entry \<Rightarrow> bool" where
  "side6 e \<longleftrightarrow> prefix_entry e \<or> eKind e = KindStatic \<and> \<not> v4Only e"

text \<open>A table after each loop has gone through some entries.\<close>

definition built4 :: "Table \<Rightarrow> Entry list \<Rightarrow> Table" where
  "built4 t es = t\<lparr>tPrefix := find prefix_entry es, hosts4 := map (\<lambda>e. (pAddr (eV4 e), e)) (filter host4 es),
     nets4 := filter (\<lambda>e. \<not> host4 e) es, poolEntry := find pool_entry es\<rparr>"

definition built6 :: "Table \<Rightarrow> Entry list \<Rightarrow> Table" where
  "built6 t es = t\<lparr>hosts6 := map (\<lambda>e. (pAddr (eV6 e), e)) (filter host6 es), nets6 := filter (\<lambda>e. \<not> host6 e) es\<rparr>"

lemma AList_update_fresh: "map_of al k = None \<Longrightarrow> AList.update k v al = al @ [(k, v)]"
  by (induction al) (auto split: if_splits)

lemma find_append: "find P (xs @ ys) = (case find P xs of None \<Rightarrow> find P ys | Some x \<Rightarrow> Some x)"
  by (induction xs) auto

lemma one_filter:
  assumes "length (filter P (xs @ x # ys)) \<le> 1" "P x"
  shows "find P xs = None" "filter P xs = []" "filter P ys = []"
  using assms by (auto simp: find_None_iff filter_empty_conv)

lemma prefix_eqI: "pAddr p = pAddr q \<Longrightarrow> pBits p = pBits q \<Longrightarrow> p = (q :: Prefix)"
  by simp

abbreviation nonpool :: "Entry list \<Rightarrow> Entry list" where "nonpool es \<equiv> filter (\<lambda>e. \<not> pool_entry e) es"

lemma static_V4_nonzero:
  assumes "entry_ok e" "eKind e = KindStatic"
  shows "eV4 e \<noteq> PrefixFrom (IPv4 0) 0"
proof
  assume "eV4 e = PrefixFrom (IPv4 0) 0"
  then have "ClassifyIPv4 (As4 (pAddr (eV4 e))) = ClassifyIPv4 (As4 (IPv4 0))" by (simp add: PrefixFrom_def)
  also have "\<dots> = IPv4Invalid" by code_simp
  finally show False using assms by (simp add: entry_ok_def)
qed

lemma prefix_entry_bits: "entry_ok e \<Longrightarrow> prefix_entry e \<Longrightarrow> pBits (eV4 e) = 0"
  by (simp add: entry_ok_def PrefixFrom_def)

lemma entry_ok_bits:
  assumes ok: "entry_ok e"
  shows "pBits (eV4 e) = 32 \<Longrightarrow> eKind e = KindStatic" "pBits (eV4 e) \<noteq> 0 \<Longrightarrow> \<not> pool_entry e \<Longrightarrow> eKind e = KindStatic"
proof -
  have "eKind e \<noteq> KindDynamicHost" "pool_entry e \<Longrightarrow> pBits (eV4 e) \<le> 31" using ok by (auto simp: entry_ok_def split: Kind.splits)
  then show "pBits (eV4 e) = 32 \<Longrightarrow> eKind e = KindStatic" "pBits (eV4 e) \<noteq> 0 \<Longrightarrow> \<not> pool_entry e \<Longrightarrow> eKind e = KindStatic"
    using prefix_entry_bits [OF ok] by (cases "eKind e"; simp)+
qed

text \<open>The tests for a repeated address or prefix, on the entries seen so far.\<close>

lemma dup_host4:
  assumes ok: "\<forall>o' \<in> set ds. entry_ok o'" and e: "host4 e"
  shows "map_of (map (\<lambda>o'. (pAddr (eV4 o'), o')) (filter host4 ds)) (pAddr (eV4 e)) \<noteq> None \<longleftrightarrow> eV4 e \<in> set (map eV4 (nonpool ds))"
proof -
  have "map_of (map (\<lambda>o'. (pAddr (eV4 o'), o')) (filter host4 ds)) (pAddr (eV4 e)) \<noteq> None
      \<longleftrightarrow> (\<exists>o' \<in> set ds. host4 o' \<and> pAddr (eV4 o') = pAddr (eV4 e))"
    by (auto simp: map_of_map_entries find_None_iff)
  also have "\<dots> \<longleftrightarrow> (\<exists>o' \<in> set ds. \<not> pool_entry o' \<and> eV4 o' = eV4 e)"
  proof (intro bex_cong refl)
    fix o' assume "o' \<in> set ds"
    then have "entry_ok o'" using ok by blast
    then have k: "pBits (eV4 o') = 32 \<Longrightarrow> \<not> pool_entry o' \<Longrightarrow> host4 o'"
      using entry_ok_bits(1) [of o'] by (simp add: host4_def)
    have b: "pBits (eV4 e) = 32" using e by (simp add: host4_def)
    show "host4 o' \<and> pAddr (eV4 o') = pAddr (eV4 e) \<longleftrightarrow> \<not> pool_entry o' \<and> eV4 o' = eV4 e"
    proof
      assume "host4 o' \<and> pAddr (eV4 o') = pAddr (eV4 e)"
      then show "\<not> pool_entry o' \<and> eV4 o' = eV4 e" using b by (simp add: host4_def prefix_eqI)
    next
      assume "\<not> pool_entry o' \<and> eV4 o' = eV4 e"
      then show "host4 o' \<and> pAddr (eV4 o') = pAddr (eV4 e)" using k b by simp
    qed
  qed
  finally show ?thesis by (auto simp: image_iff)
qed

lemma dup_net4:
  assumes e: "pBits (eV4 e) \<noteq> 32"
  shows "list_ex (\<lambda>o'. \<not> pool_entry o' \<and> eV4 o' = eV4 e) (filter (\<lambda>e. \<not> host4 e) ds) \<longleftrightarrow> eV4 e \<in> set (map eV4 (nonpool ds))"
  using e by (auto simp: list_ex_iff host4_def image_iff)

lemma build4_built:
  assumes "\<forall>e \<in> set (ds @ es). entry_ok e" "length (filter prefix_entry (ds @ es)) \<le> 1" "length (filter pool_entry (ds @ es)) \<le> 1"
    and "distinct (map eV4 (nonpool ds))"
  shows "build4 es (built4 t ds, filter side6 ds) = Inr r \<longleftrightarrow>
    distinct (map eV4 (nonpool (ds @ es))) \<and> r = (built4 t (ds @ es), filter side6 (ds @ es))"
  using assms
proof (induction es arbitrary: ds)
  case Nil
  then show ?case by auto
next
  case (Cons e es)
  have IH: "distinct (map eV4 (nonpool (ds @ [e]))) \<Longrightarrow> build4 es (built4 t (ds @ [e]), filter side6 (ds @ [e])) = Inr r \<longleftrightarrow>
      distinct (map eV4 (nonpool (ds @ e # es))) \<and> r = (built4 t (ds @ e # es), filter side6 (ds @ e # es))"
    using Cons.IH [of "ds @ [e]"] Cons.prems by simp
  have ok: "entry_ok e" "\<forall>o' \<in> set ds. entry_ok o'" using Cons.prems(1) by auto
  show ?case
  proof (cases "eKind e")
    case KindRFC6052
    have "eV4 e \<notin> set (map eV4 (nonpool ds))"
    proof -
      have "eKind o' = KindStatic" if "o' \<in> set ds" "\<not> pool_entry o'" for o'
        using one_filter(2) [OF Cons.prems(2)] KindRFC6052 that ok(2) by (cases "eKind o'") (auto simp: filter_empty_conv entry_ok_def)
      moreover have "eV4 e = PrefixFrom (IPv4 0) 0" using ok(1) KindRFC6052 by (simp add: entry_ok_def)
      ultimately show ?thesis using static_V4_nonzero ok(2) by fastforce
    qed
    then have "distinct (map eV4 (nonpool (ds @ [e])))" using Cons.prems(4) KindRFC6052 by simp
    moreover have "build4 (e # es) (built4 t ds, filter side6 ds) = build4 es (built4 t (ds @ [e]), filter side6 (ds @ [e]))"
      using KindRFC6052 one_filter(1) [OF Cons.prems(2)] by (cases t) (simp add: built4_def host4_def side6_def find_append split: option.splits)
    ultimately show ?thesis using IH by simp
  next
    case KindDynamicPool
    then have "distinct (map eV4 (nonpool (ds @ [e])))" using Cons.prems(4) by simp
    moreover have "build4 (e # es) (built4 t ds, filter side6 ds) = build4 es (built4 t (ds @ [e]), filter side6 (ds @ [e]))"
      using KindDynamicPool one_filter(1) [OF Cons.prems(3)] by (cases t) (simp add: built4_def host4_def side6_def find_append split: option.splits)
    ultimately show ?thesis using IH by simp
  next
    case KindStatic
    have d: "distinct (map eV4 (nonpool (ds @ [e]))) \<longleftrightarrow> eV4 e \<notin> set (map eV4 (nonpool ds))" using Cons.prems(4) KindStatic by simp
    have st: "build4 (e # es) (built4 t ds, filter side6 ds)
        = (if eV4 e \<in> set (map eV4 (nonpool ds)) then Inl (if host4 e then AddressMappedTwice (pAddr (eV4 e)) else PrefixMappedTwice (eV4 e))
           else build4 es (built4 t (ds @ [e]), filter side6 (ds @ [e])))"
    proof (cases "host4 e")
      case True
      note du = dup_host4 [OF ok(2) True]
      have b: "pBits (eV4 e) = 32" using True by (simp add: host4_def)
      show ?thesis
      proof (cases "eV4 e \<in> set (map eV4 (nonpool ds))")
        case True
        then show ?thesis using du KindStatic b \<open>host4 e\<close> by (auto simp: built4_def)
      next
        case False
        then have "map_of (map (\<lambda>o'. (pAddr (eV4 o'), o')) (filter host4 ds)) (pAddr (eV4 e)) = None" using du by blast
        then show ?thesis using False KindStatic b \<open>host4 e\<close> by (cases t) (simp add: built4_def AList_update_fresh side6_def find_append split: option.splits)
      qed
    next
      case False
      then have b: "pBits (eV4 e) \<noteq> 32" using KindStatic by (simp add: host4_def)
      show ?thesis using dup_net4 [OF b, of ds] KindStatic b False by (cases t) (simp add: built4_def side6_def find_append split: option.splits)
    qed
    show ?thesis unfolding st using IH d by auto
  next
    case KindDynamicHost
    then show ?thesis using ok(1) by (simp add: entry_ok_def)
  qed
qed

abbreviation apart6 :: "Entry \<Rightarrow> Entry \<Rightarrow> bool" where "apart6 e o' \<equiv> \<not> Overlaps (eV6 e) (eV6 o')"

lemma Overlaps_sym: "Overlaps p q \<longleftrightarrow> Overlaps q p"
  by (auto simp: Overlaps_def sameBits_sym min.commute)

lemma Overlaps_self: "PIsValid p \<Longrightarrow> Overlaps p p"
  by (simp add: Overlaps_def)

lemma build6_built:
  assumes "\<forall>e \<in> set (ds @ es). PIsValid (eV6 e)" "sorted_wrt apart6 ds"
  shows "build6 ds es (built6 t ds) = Inr t' \<longleftrightarrow> sorted_wrt apart6 (ds @ es) \<and> t' = built6 t (ds @ es)"
  using assms
proof (induction es arbitrary: ds)
  case Nil
  then show ?case by auto
next
  case (Cons e es)
  show ?case
  proof (cases "\<exists>o' \<in> set ds. Overlaps (eV6 o') (eV6 e)")
    case True
    then have "find (\<lambda>o'. Overlaps (eV6 o') (eV6 e)) ds \<noteq> None" by (auto simp: find_None_iff)
    moreover have "\<not> sorted_wrt apart6 (ds @ e # es)" using True by (auto simp: sorted_wrt_append)
    ultimately show ?thesis by auto
  next
    case False
    then have n: "find (\<lambda>o'. Overlaps (eV6 o') (eV6 e)) ds = None" by (auto simp: find_None_iff)
    have s: "sorted_wrt apart6 (ds @ [e])" using False Cons.prems(2) by (auto simp: sorted_wrt_append)
    have "map_of (map (\<lambda>o'. (pAddr (eV6 o'), o')) (filter host6 ds)) (pAddr (eV6 e)) = None" if "host6 e"
    proof -
      have "eV6 o' = eV6 e" if "host6 o'" "pAddr (eV6 o') = pAddr (eV6 e)" for o'
        using that \<open>host6 e\<close> by (simp add: host6_def prefix_eqI)
      moreover have "PIsValid (eV6 e)" using Cons.prems(1) by simp
      ultimately show ?thesis using False Overlaps_self by (auto simp: map_of_map_entries find_None_iff) metis
    qed
    then have "(if eKind e = KindStatic \<and> pBits (eV6 e) = 128 then (built6 t ds)\<lparr>hosts6 := AList.update (pAddr (eV6 e)) e (hosts6 (built6 t ds))\<rparr>
        else (built6 t ds)\<lparr>nets6 := nets6 (built6 t ds) @ [e]\<rparr>) = built6 t (ds @ [e])"
      by (cases t; cases "host6 e") (auto simp: built6_def AList_update_fresh host6_def)
    then have "build6 ds (e # es) (built6 t ds) = build6 (ds @ [e]) es (built6 t (ds @ [e]))" by (simp only: build6.simps n option.simps)
    then show ?thesis using Cons.IH [OF _ s] Cons.prems(1) by simp
  qed
qed

definition ents4 :: "Builder \<Rightarrow> Entry list" where
  "ents4 b = sort_key (\<lambda>e. - pBits (eV4 e)) (bEntries b)"

definition ents6 :: "Builder \<Rightarrow> Entry list" where
  "ents6 b = sort_key (\<lambda>e. - pBits (eV6 e)) (filter side6 (ents4 b))"

text \<open>The table a builder without conflicts gives.\<close>

definition table_of :: "Builder \<Rightarrow> Table" where
  "table_of b =
     (let t = built6 (built4 \<lparr>tWkpfStrict = bWkpfStrict b, tPrefix = None, hosts4 = [], hosts6 = [], nets4 = [], nets6 = [],
               tPool = bPool b, poolEntry = None\<rparr> (ents4 b)) (ents6 b)
      in t\<lparr>tPool := map_option (\<lambda>p. p\<lparr>reserved := Table_reserved t\<rparr>) (bPool b)\<rparr>)"

lemma side6_valid: "entry_ok e \<Longrightarrow> side6 e \<Longrightarrow> PIsValid (eV6 e)"
  by (auto simp: entry_ok_def side6_def PIsValid_def ValidRFC6052PrefixLen_def)

text \<open>With one pool, the test against it and that of the first loop make all prefixes distinct.\<close>

lemma distinct_with_pool:
  assumes ok: "\<forall>e \<in> set es. entry_ok e" and one: "length (filter pool_entry es) \<le> 1"
  shows "distinct (map eV4 es) \<longleftrightarrow> distinct (map eV4 (nonpool es)) \<and>
    (case find pool_entry es of None \<Rightarrow> None
     | Some pe \<Rightarrow> find (\<lambda>o'. o' \<noteq> pe \<and> eKind o' = KindStatic \<and> eV4 o' = eV4 pe) (filter (\<lambda>e. \<not> host4 e) es)) = None"
proof (cases "find pool_entry es")
  case None
  then have "nonpool es = es" by (auto simp: find_None_iff filter_id_conv)
  then show ?thesis using None by simp
next
  case (Some pe)
  then obtain xs ys where es: "es = xs @ pe # ys" and pe: "pool_entry pe" by (auto simp: find_Some_iff dest!: id_take_nth_drop)
  note of = one_filter [OF one [unfolded es] pe]
  have np: "nonpool es = xs @ ys" using pe of(2,3) by (auto simp: es filter_id_conv filter_empty_conv)
  have st: "o' \<noteq> pe \<and> \<not> host4 o' \<and> eKind o' = KindStatic \<and> eV4 o' = eV4 pe \<longleftrightarrow> o' \<noteq> pe \<and> eV4 o' = eV4 pe" if "o' \<in> set (xs @ ys)" for o'
  proof -
    have "entry_ok o'" "entry_ok pe" "\<not> pool_entry o'" using that ok of(2,3) by (auto simp: es filter_empty_conv)
    moreover have "pBits (eV4 pe) \<noteq> 0" "pBits (eV4 pe) \<noteq> 32" using \<open>entry_ok pe\<close> pe by (auto simp: entry_ok_def)
    ultimately have "eV4 o' = eV4 pe \<Longrightarrow> eKind o' = KindStatic \<and> \<not> host4 o'" using entry_ok_bits(2) [of o'] by (simp add: host4_def)
    then show ?thesis by blast
  qed
  have nin: "pe \<notin> set (xs @ ys)" using pe of(2,3) by (auto simp: filter_empty_conv)
  have A: "(\<forall>o' \<in> set es. \<not> (o' \<noteq> pe \<and> \<not> host4 o' \<and> eKind o' = KindStatic \<and> eV4 o' = eV4 pe)) \<longleftrightarrow> (\<forall>o' \<in> set (xs @ ys). eV4 o' \<noteq> eV4 pe)"
    unfolding es set_append list.set using st nin by (metis UnCI UnE insert_iff set_append)
  have B: "find (\<lambda>o'. o' \<noteq> pe \<and> eKind o' = KindStatic \<and> eV4 o' = eV4 pe) (filter (\<lambda>e. \<not> host4 e) es) = None
      \<longleftrightarrow> (\<forall>o' \<in> set es. \<not> (o' \<noteq> pe \<and> \<not> host4 o' \<and> eKind o' = KindStatic \<and> eV4 o' = eV4 pe))"
    unfolding find_None_iff set_filter by blast
  have "distinct (map eV4 (xs @ pe # ys)) \<longleftrightarrow> distinct (map eV4 (xs @ ys)) \<and> (\<forall>o' \<in> set (xs @ ys). eV4 o' \<noteq> eV4 pe)"
    by (rule distinct_map_middle)
  then show ?thesis unfolding np Some option.case B A by (simp only: es)
qed

lemma mset_ents4: "mset (ents4 b) = mset (bEntries b)"
  by (simp add: ents4_def)

lemma set_ents4 [simp]: "set (ents4 b) = set (bEntries b)"
  by (simp add: ents4_def)

lemma set_ents6 [simp]: "set (ents6 b) = {e \<in> set (bEntries b). side6 e}"
  by (auto simp: ents6_def)

lemma length_filter_ents4: "length (filter P (ents4 b)) = length (filter P (bEntries b))"
  by (metis mset_ents4 mset_filter size_mset)

lemma Build_iff:
  assumes ok: "builder_ok b"
  shows "Build b = Inr t \<longleftrightarrow> distinct (map eV4 (bEntries b)) \<and>
    (\<forall>e \<in> set (bEntries b). \<forall>o' \<in> set (bEntries b). side6 e \<and> side6 o' \<and> e \<noteq> o' \<longrightarrow> \<not> Overlaps (eV6 e) (eV6 o')) \<and> t = table_of b"
proof -
  let ?t = "\<lparr>tWkpfStrict = bWkpfStrict b, tPrefix = None, hosts4 = [], hosts6 = [], nets4 = [], nets6 = [], tPool = bPool b, poolEntry = None\<rparr>"
  have e: "\<forall>e \<in> set (ents4 b). entry_ok e" "length (filter prefix_entry (ents4 b)) \<le> 1" "length (filter pool_entry (ents4 b)) \<le> 1"
    using ok by (auto simp: builder_ok_def length_filter_ents4 filter_empty_conv split: option.splits)
  have "built4 ?t [] = ?t" by (simp add: built4_def)
  then have b4: "build4 (ents4 b) (?t, []) = Inr r \<longleftrightarrow> distinct (map eV4 (nonpool (ents4 b))) \<and> r = (built4 ?t (ents4 b), filter side6 (ents4 b))" for r
    using build4_built [of "[]" "ents4 b" ?t r] e by simp
  have "built6 (built4 ?t (ents4 b)) [] = built4 ?t (ents4 b)" by (simp add: built6_def built4_def)
  then have b6: "build6 [] (ents6 b) (built4 ?t (ents4 b)) = Inr r \<longleftrightarrow> sorted_wrt apart6 (ents6 b) \<and> r = built6 (built4 ?t (ents4 b)) (ents6 b)" for r
    using build6_built [of "[]" "ents6 b" "built4 ?t (ents4 b)" r] e(1) side6_valid by simp
  have d4: "distinct (map eV4 (bEntries b)) \<longleftrightarrow> distinct (map eV4 (ents4 b))" using distinct_map_mset [OF mset_ents4] by metis
  note dp = distinct_with_pool [OF e(1,3)]
  have s6: "sorted_wrt apart6 (ents6 b) \<longleftrightarrow> (\<forall>e \<in> set (ents6 b). \<forall>o' \<in> set (ents6 b). e \<noteq> o' \<longrightarrow> apart6 e o')" if "distinct (map eV4 (ents4 b))"
  proof (rule sorted_wrt_symmetric)
    show "distinct (ents6 b)" using that by (auto simp: ents6_def distinct_map)
  qed (simp add: Overlaps_sym)
  have ap: "(\<forall>e \<in> set (bEntries b). \<forall>o' \<in> set (bEntries b). side6 e \<and> side6 o' \<and> e \<noteq> o' \<longrightarrow> apart6 e o') \<longleftrightarrow> sorted_wrt apart6 (ents6 b)"
    if "distinct (map eV4 (bEntries b))" using s6 that unfolding d4 set_ents6 by blast
  define pc where "pc = (case find pool_entry (ents4 b) of None \<Rightarrow> None
     | Some pe \<Rightarrow> find (\<lambda>o'. o' \<noteq> pe \<and> eKind o' = KindStatic \<and> eV4 o' = eV4 pe) (filter (\<lambda>e. \<not> host4 e) (ents4 b)))"
  have B: "Build b = (case build4 (ents4 b) (?t, []) of Inl e \<Rightarrow> Inl e
      | Inr (t, v6s) \<Rightarrow>
        case (case poolEntry t of None \<Rightarrow> None | Some pe \<Rightarrow> find (\<lambda>o'. o' \<noteq> pe \<and> eKind o' = KindStatic \<and> eV4 o' = eV4 pe) (nets4 t)) of
          Some o' \<Rightarrow> Inl (PoolIsStatic (eV4 o'))
        | None \<Rightarrow> case build6 [] (sort_key (\<lambda>e. - pBits (eV6 e)) v6s) t of Inl e \<Rightarrow> Inl e
            | Inr t \<Rightarrow> Inr (t\<lparr>tPool := map_option (\<lambda>p. p\<lparr>reserved := Table_reserved t\<rparr>) (tPool t)\<rparr>))"
    unfolding Build_def ents4_def Let_def ..
  show ?thesis
  proof (cases "distinct (map eV4 (nonpool (ents4 b)))")
    case False
    then obtain x where "build4 (ents4 b) (?t, []) = Inl x" using b4 by (cases "build4 (ents4 b) (?t, [])") auto
    then show ?thesis using False dp d4 by (simp add: B)
  next
    case True
    have bp: "poolEntry (built4 ?t (ents4 b)) = find pool_entry (ents4 b)" "nets4 (built4 ?t (ents4 b)) = filter (\<lambda>e. \<not> host4 e) (ents4 b)"
      by (simp_all add: built4_def)
    have B2: "Build b = (case pc of Some o' \<Rightarrow> Inl (PoolIsStatic (eV4 o'))
        | None \<Rightarrow> case build6 [] (ents6 b) (built4 ?t (ents4 b)) of Inl e \<Rightarrow> Inl e
            | Inr t \<Rightarrow> Inr (t\<lparr>tPool := map_option (\<lambda>p. p\<lparr>reserved := Table_reserved t\<rparr>) (tPool t)\<rparr>))"
    proof -
      have "build4 (ents4 b) (?t, []) = Inr (built4 ?t (ents4 b), filter side6 (ents4 b))" using b4 True by blast
      then show ?thesis unfolding B by (simp only: sum.case prod.case bp pc_def ents6_def)
    qed
    have dd: "distinct (map eV4 (bEntries b)) \<longleftrightarrow> pc = None" using d4 dp True by (simp add: pc_def)
    show ?thesis
    proof (cases "pc = None \<and> sorted_wrt apart6 (ents6 b)")
      case True
      have "tPool (built6 (built4 ?t (ents4 b)) (ents6 b)) = bPool b" by (simp add: built6_def built4_def)
      moreover have "build6 [] (ents6 b) (built4 ?t (ents4 b)) = Inr (built6 (built4 ?t (ents4 b)) (ents6 b))" using b6 True by blast
      ultimately have "Build b = Inr (table_of b)" using True unfolding B2 table_of_def Let_def by (simp only: option.case sum.case)
      then show ?thesis using True dd ap by (simp only: sum.inject) blast
    next
      case False
      then have "\<exists>x. Build b = Inl x"
        using b6 unfolding B2 by (cases "build6 [] (ents6 b) (built4 ?t (ents4 b))") (auto split: option.splits)
      then show ?thesis using False dd ap by (metis Inl_Inr_False)
    qed
  qed
qed

end
