(* ===== verification/TableLookup.thy ===== *)
theory TableLookup
  imports TableInv
begin

text \<open>
  The lookups of a built table as the longest match and the only match among its entries, and
  the two ways an address is carried over: host bits of a static map, embedding in a prefix.
\<close>

subsection \<open>Static entries\<close>

lemma ucast_drop_ucast: "ucast (drop_bit n (ucast (h :: u32) :: u128)) = (ucast (drop_bit n h) :: byte)"
  by (rule bit_eqI) (auto simp: bit_simps dest: bit_imp_le_length)

lemma ucast_drop_high: "32 \<le> n \<Longrightarrow> ucast (drop_bit n (h :: u32)) = (0 :: byte)"
  by (rule bit_eqI) (auto simp: bit_simps dest: bit_imp_le_length)

lemma word_bytes_or_low:
  fixes x :: u128 and h :: u32
  defines "v \<equiv> word_bytes 16 x"
  shows "v[12 := v ! 12 OR ucast (drop_bit 24 h), 13 := v ! 13 OR ucast (drop_bit 16 h), 14 := v ! 14 OR ucast (drop_bit 8 h), 15 := v ! 15 OR ucast h]
    = word_bytes 16 (x OR ucast h)"
  unfolding v_def by (simp add: word_bytes_def upt_rec unsigned_or_eq ucast_drop_ucast ucast_drop_high ucast_drop_ucast [of 0, simplified])

lemma word_bytes4_or:
  fixes x h :: u32
  defines "v \<equiv> word_bytes 4 x"
  shows "v[0 := v ! 0 OR ucast (drop_bit 24 h), 1 := v ! 1 OR ucast (drop_bit 16 h), 2 := v ! 2 OR ucast (drop_bit 8 h), 3 := v ! 3 OR ucast h]
    = word_bytes 4 (x OR h)"
  unfolding v_def by (simp add: word_bytes_def upt_rec unsigned_or_eq)

lemma get32_As16: "get32 (word_bytes 16 (x :: u128)) 12 = ucast x"
proof -
  have "ucast (drop_bit n (ucast x :: u32)) = (ucast (drop_bit n x) :: byte)" if "n \<le> 24" for n
    using that by (intro bit_eqI) (auto simp: bit_simps)
  then have "get32 (word_bytes 16 x) 12 = get32 (word_bytes 4 (ucast x :: u32)) 0"
    by (simp add: get32_def nth_word_bytes) (metis drop_bit_0 id_apply zero_le)
  then show ?thesis by simp
qed

lemma hostMask_eq: "n \<le> 32 \<Longrightarrow> drop_bit n (0xffffffff :: u32) = mask (32 - n)"
proof -
  assume n: "n \<le> 32"
  have m: "(0xffffffff :: u32) = - 1" by simp
  show ?thesis unfolding m using n by (intro bit_eqI) (auto simp: bit_simps)
qed

text \<open>The two sides of a static map in words: the prefix with the host bits of the other side.\<close>

lemma joinStatic_words:
  assumes e: "eV4 e = \<lparr>pAddr = IPv4 v, pBits = int n\<rparr>" "eV6 e = \<lparr>pAddr = IPv6 x, pBits = int n + 96\<rparr>" "n \<le> 32"
  shows "joinStatic6 e (IPv4 w) = IPv6 (x OR ucast (take_bit (32 - n) w))"
    and "joinStatic4 e (IPv6 y) = IPv4 (v OR take_bit (32 - n) (ucast y))"
proof -
  have h4: "get32 (As4 (IPv4 w)) 0 AND drop_bit (nat (pBits (eV4 e))) (0xffffffff :: u32) = take_bit (32 - n) w"
    using e(3) by (simp add: e hostMask_eq take_bit_eq_mask)
  have h6: "get32 (As16 (IPv6 y)) 12 AND drop_bit (nat (pBits (eV4 e))) (0xffffffff :: u32) = take_bit (32 - n) (ucast y)"
    using e(3) by (simp add: e hostMask_eq take_bit_eq_mask get32_As16)
  have "n = 32 \<Longrightarrow> take_bit (32 - n) z = (0 :: u32)" for z by simp
  then show "joinStatic6 e (IPv4 w) = IPv6 (x OR ucast (take_bit (32 - n) w))" "joinStatic4 e (IPv6 y) = IPv4 (v OR take_bit (32 - n) (ucast y))"
    unfolding joinStatic6_def joinStatic4_def Let_def h4 h6 using word_bytes_or_low [of x "take_bit (32 - n) w"] word_bytes4_or [of v "take_bit (32 - n) (ucast y)"]
    by (auto simp: e AddrFrom16_def AddrFrom4_def bytes_word_word_bytes)
qed

lemma mask_hi_take: "mask_hi k n w = w \<Longrightarrow> take_bit (k - n) w = 0"
  unfolding mask_hi_def by (metis take_bit_push_bit diff_self_eq_0 take_bit_0 push_bit_of_0)

lemma take_bit_zeroD: "take_bit k v = 0 \<Longrightarrow> i < k \<Longrightarrow> \<not> bit v i" for v :: "'a::len word"
  using bit_take_bit_iff [of k v i] by simp

lemma take_drop_or: "drop_bit k w = drop_bit k v \<Longrightarrow> take_bit k v = 0 \<Longrightarrow> v OR take_bit k w = (w :: 'a::len word)"
proof -
  assume a: "drop_bit k w = drop_bit k v" "take_bit k v = 0"
  have b: "bit v i = (k \<le> i \<and> bit w i)" for i
  proof (cases "i < k")
    case True
    then show ?thesis using take_bit_zeroD [OF a(2)] by simp
  next
    case False
    have "bit (drop_bit k w) (i - k) = bit (drop_bit k v) (i - k)" by (simp only: a(1))
    then show ?thesis using False by (simp add: bit_drop_bit_eq)
  qed
  show ?thesis
  proof (rule bit_eqI)
    fix i
    show "bit (v OR take_bit k w) i = bit w i" using b [of i] by (auto simp: bit_or_iff bit_take_bit_iff)
  qed
qed

lemma static_shape:
  assumes ok: "entry_ok e" "eKind e = KindStatic" "\<not> v4Only e"
  obtains v x n where "eV4 e = \<lparr>pAddr = IPv4 v, pBits = int n\<rparr>" "eV6 e = \<lparr>pAddr = IPv6 x, pBits = int n + 96\<rparr>" "n \<le> 32"
    "take_bit (32 - n) v = 0" "take_bit (32 - n) x = 0"
proof -
  have f: "Is4 (pAddr (eV4 e))" "0 \<le> pBits (eV4 e)" "pBits (eV4 e) \<le> 32" "Masked (eV4 e) = eV4 e" "Is6 (pAddr (eV6 e))"
      "pBits (eV6 e) = pBits (eV4 e) + 96" "Masked (eV6 e) = eV6 e"
    using ok by (simp_all add: entry_ok_def)
  obtain v where v: "pAddr (eV4 e) = IPv4 v" using f(1) by (cases "pAddr (eV4 e)") auto
  obtain x where x: "pAddr (eV6 e) = IPv6 x" using f(5) by (cases "pAddr (eV6 e)") auto
  obtain n where n: "pBits (eV4 e) = int n" using f(2) nonneg_int_cases by blast
  have p: "eV4 e = \<lparr>pAddr = IPv4 v, pBits = int n\<rparr>" "eV6 e = \<lparr>pAddr = IPv6 x, pBits = int n + 96\<rparr>" using v x n f(6) by simp_all
  have "mask_hi 32 n v = v" "mask_hi 128 (n + 96) x = x"
    using f(4,7) by (simp_all add: p Masked_def PIsValid_def nat_add_distrib)
  then have "take_bit (32 - n) v = 0" "take_bit (32 - n) x = 0" using mask_hi_take [of 32 n v] mask_hi_take [of 128 "n + 96" x] by simp_all
  then show ?thesis using that p f(3) n by simp
qed

text \<open>Inside the two prefixes the two functions are inverse to each other.\<close>

lemma static_round4:
  assumes ok: "entry_ok e" "eKind e = KindStatic" "\<not> v4Only e" and c: "Contains (eV4 e) a"
  shows "Contains (eV6 e) (joinStatic6 e a)" "joinStatic4 e (joinStatic6 e a) = a"
proof -
  obtain v x n where s: "eV4 e = \<lparr>pAddr = IPv4 v, pBits = int n\<rparr>" "eV6 e = \<lparr>pAddr = IPv6 x, pBits = int n + 96\<rparr>" "n \<le> 32"
    "take_bit (32 - n) v = 0" "take_bit (32 - n) x = 0" using static_shape [OF ok] .
  obtain w where a: "a = IPv4 w" "drop_bit (32 - n) w = drop_bit (32 - n) v" using c by (cases a) (auto simp: Contains_def s)
  note j = joinStatic_words [OF s(1-3)]
  have "drop_bit (32 - n) (ucast (take_bit (32 - n) w) :: u128) = 0" by (intro bit_eqI) (auto simp: bit_simps)
  then have "drop_bit (32 - n) (x OR ucast (take_bit (32 - n) w)) = drop_bit (32 - n) x" by simp
  moreover have "128 - nat (int n + 96) = 32 - n" by (simp add: nat_add_distrib)
  ultimately show "Contains (eV6 e) (joinStatic6 e a)" by (simp add: Contains_def PIsValid_def s a j)
  have "take_bit (32 - n) (ucast (x OR ucast (take_bit (32 - n) w) :: u128)) = take_bit (32 - n) w"
  proof -
    have "\<not> bit x i" if "i < 32 - n" for i by (rule take_bit_zeroD [OF s(5) that])
    then show ?thesis by (intro bit_eqI) (auto simp: bit_simps)
  qed
  then show "joinStatic4 e (joinStatic6 e a) = a" using take_drop_or [OF a(2) s(4)] by (simp add: a j)
qed

lemma static_round6:
  assumes ok: "entry_ok e" "eKind e = KindStatic" "\<not> v4Only e" and c: "Contains (eV6 e) a"
  shows "Contains (eV4 e) (joinStatic4 e a)" "joinStatic6 e (joinStatic4 e a) = a"
proof -
  obtain v x n where s: "eV4 e = \<lparr>pAddr = IPv4 v, pBits = int n\<rparr>" "eV6 e = \<lparr>pAddr = IPv6 x, pBits = int n + 96\<rparr>" "n \<le> 32"
    "take_bit (32 - n) v = 0" "take_bit (32 - n) x = 0" using static_shape [OF ok] .
  have "128 - nat (int n + 96) = 32 - n" by (simp add: nat_add_distrib)
  then obtain y where a: "a = IPv6 y" "drop_bit (32 - n) y = drop_bit (32 - n) x" using c by (cases a) (auto simp: Contains_def s)
  note j = joinStatic_words [OF s(1-3)]
  have "drop_bit (32 - n) (take_bit (32 - n) (ucast y :: u32)) = 0" by (intro bit_eqI) (auto simp: bit_simps)
  then have "drop_bit (32 - n) (v OR take_bit (32 - n) (ucast y)) = drop_bit (32 - n) v" by simp
  then show "Contains (eV4 e) (joinStatic4 e a)" by (simp add: Contains_def PIsValid_def s a j)
  have "\<not> bit v i" if "i < 32 - n" for i by (rule take_bit_zeroD [OF s(4) that])
  then have "ucast (take_bit (32 - n) (v OR take_bit (32 - n) (ucast y))) = take_bit (32 - n) y"
    by (intro bit_eqI) (auto simp: bit_simps)
  then show "joinStatic6 e (joinStatic4 e a) = a" using take_drop_or [OF a(2) s(5)] by (simp add: a j)
qed

subsection \<open>The lookups\<close>

lemma Contains_full4: "Is4 (pAddr p) \<Longrightarrow> pBits p = 32 \<Longrightarrow> Contains p a \<longleftrightarrow> pAddr p = a"
  by (cases "pAddr p"; cases a) (auto simp: Contains_def PIsValid_def)

lemma Contains_full6: "Is6 (pAddr p) \<Longrightarrow> pBits p = 128 \<Longrightarrow> Contains p a \<longleftrightarrow> pAddr p = a"
  by (cases "pAddr p"; cases a) (auto simp: Contains_def PIsValid_def)

lemma Contains_Masked:
  assumes "Contains p a" "Masked p = p"
  shows "pAddr p = maskAddr (nat (pBits p)) a"
proof -
  have "maskAddr (nat (pBits p)) (pAddr p) = pAddr p" using assms by (metis Contains_def Masked_def Prefix.select_convs(1) Prefix.surjective Prefix.update_convs(1))
  moreover have "maskAddr (nat (pBits p)) (pAddr p) = maskAddr (nat (pBits p)) a"
    using assms(1) by (cases "pAddr p"; cases a) (auto simp: Contains_def mask_hi_def)
  ultimately show ?thesis by simp
qed

lemma table_of_simps [simp]:
  "hosts4 (table_of b) = map (\<lambda>e. (pAddr (eV4 e), e)) (filter host4 (ents4 b))" "nets4 (table_of b) = filter (\<lambda>e. \<not> host4 e) (ents4 b)"
  "hosts6 (table_of b) = map (\<lambda>e. (pAddr (eV6 e), e)) (filter host6 (ents6 b))" "nets6 (table_of b) = filter (\<lambda>e. \<not> host6 e) (ents6 b)"
  "tPrefix (table_of b) = find prefix_entry (ents4 b)" "poolEntry (table_of b) = find pool_entry (ents4 b)" "tWkpfStrict (table_of b) = bWkpfStrict b"
  by (simp_all add: table_of_def Let_def built6_def built4_def)

lemma lookup_update [simp]:
  "Table_lookup4 (t\<lparr>tPool := p\<rparr>) = Table_lookup4 t" "Table_lookup6 (t\<lparr>tPool := p\<rparr>) = Table_lookup6 t" "Table_reserved (t\<lparr>tPool := p\<rparr>) = Table_reserved t"
  by (simp_all add: Table_lookup4_def Table_lookup6_def Table_reserved_def fun_eq_iff split: option.splits)

lemma tPool_table_of: "tPool (table_of b) = map_option (\<lambda>p. p\<lparr>reserved := Table_reserved (table_of b)\<rparr>) (bPool b)"
  by (simp add: table_of_def Let_def)

text \<open>The lookup by IPv4 address is a search of all entries, the longest prefixes first.\<close>

lemma lookup4_find:
  assumes ok: "builder_ok b"
  shows "Table_lookup4 (table_of b) a = find (\<lambda>e. Contains (eV4 e) a) (ents4 b)"
proof -
  have e: "entry_ok e" if "e \<in> set (ents4 b)" for e using ok that by (simp add: builder_ok_def)
  have h: "pAddr (eV4 e) = a \<longleftrightarrow> Contains (eV4 e) a" if "e \<in> set (filter host4 (ents4 b))" for e
    using e [of e] that Contains_full4 [of "eV4 e" a] by (simp add: host4_def entry_ok_def)
  have "map_of (hosts4 (table_of b)) a = find (\<lambda>e. Contains (eV4 e) a) (filter host4 (ents4 b))"
    unfolding table_of_simps map_of_map_entries by (rule find_cong [OF refl]) (use h in blast)
  moreover have "sorted_wrt (\<lambda>x y. host4 y \<longrightarrow> host4 x) (ents4 b)"
  proof -
    have "sorted_wrt (\<lambda>x y. - pBits (eV4 x) \<le> - pBits (eV4 y)) (ents4 b)" using sorted_sort_key [of "\<lambda>e. - pBits (eV4 e)" "bEntries b"]
      unfolding ents4_def sorted_map by simp
    then show ?thesis
    proof (rule sorted_wrt_mono_rel [rotated])
      fix x y assume xy: "x \<in> set (ents4 b)" "y \<in> set (ents4 b)" "- pBits (eV4 x) \<le> - pBits (eV4 y)"
      show "host4 y \<longrightarrow> host4 x"
      proof
        assume "host4 y"
        moreover have "pBits (eV4 x) \<le> 32" using e [OF xy(1)] by (simp add: entry_ok_def)
        ultimately have "pBits (eV4 x) = 32" using xy(3) by (simp add: host4_def)
        then show "host4 x" using entry_ok_bits(1) [OF e [OF xy(1)]] by (simp add: host4_def)
      qed
    qed
  qed
  ultimately show ?thesis unfolding Table_lookup4_def find_filter_first [of host4, OF \<open>sorted_wrt _ _\<close>] by (simp split: option.splits)
qed

lemma lookup4_iff:
  assumes ok: "builder_ok b" and d: "distinct (map eV4 (bEntries b))"
  shows "Table_lookup4 (table_of b) a = Some e \<longleftrightarrow>
    e \<in> set (bEntries b) \<and> Contains (eV4 e) a \<and> (\<forall>o' \<in> set (bEntries b). Contains (eV4 o') a \<longrightarrow> pBits (eV4 o') \<le> pBits (eV4 e))"
proof -
  have "sorted (map (\<lambda>e. - pBits (eV4 e)) (ents4 b))" by (simp add: ents4_def)
  moreover have "x = y" if xy: "x \<in> set (ents4 b)" "y \<in> set (ents4 b)" "Contains (eV4 x) a" "Contains (eV4 y) a" "- pBits (eV4 x) = - pBits (eV4 y)" for x y
  proof -
    have "Masked (eV4 x) = eV4 x" "Masked (eV4 y) = eV4 y" using xy(1,2) ok by (simp_all add: builder_ok_def entry_ok_def)
    then have "pAddr (eV4 x) = pAddr (eV4 y)" using Contains_Masked [OF xy(3)] Contains_Masked [OF xy(4)] xy(5) by simp
    then have "eV4 x = eV4 y" using xy(5) by (simp add: prefix_eqI)
    then show ?thesis using d xy(1,2) by (auto simp: distinct_map dest: inj_onD)
  qed
  ultimately show ?thesis
    using find_sorted_least [of "\<lambda>e. - pBits (eV4 e)" "ents4 b" "\<lambda>e. Contains (eV4 e) a" e] unfolding lookup4_find [OF ok] by simp
qed

lemma lookup4_None: "builder_ok b \<Longrightarrow> Table_lookup4 (table_of b) a = None \<longleftrightarrow> (\<forall>e \<in> set (bEntries b). \<not> Contains (eV4 e) a)"
  by (auto simp: lookup4_find find_None_iff)

lemma lookup6_iff:
  assumes ok: "builder_ok b"
    and apart: "\<forall>e \<in> set (bEntries b). \<forall>o' \<in> set (bEntries b). side6 e \<and> side6 o' \<and> e \<noteq> o' \<longrightarrow> \<not> Overlaps (eV6 e) (eV6 o')"
  shows "Table_lookup6 (table_of b) a = Some e \<longleftrightarrow> e \<in> set (bEntries b) \<and> side6 e \<and> Contains (eV6 e) a"
proof -
  have un: "x = y" if "x \<in> set (ents6 b)" "y \<in> set (ents6 b)" "Contains (eV6 x) a" "Contains (eV6 y) a" for x y
    using that apart Contains_Overlaps [OF that(3,4)] by auto
  have h: "pAddr (eV6 e) = a \<longleftrightarrow> Contains (eV6 e) a" if "e \<in> set (filter host6 (ents6 b))" for e
    using that ok Contains_full6 [of "eV6 e" a] by (auto simp: host6_def side6_def builder_ok_def entry_ok_def)
  have m: "map_of (hosts6 (table_of b)) a = find (\<lambda>e. Contains (eV6 e) a) (filter host6 (ents6 b))"
    unfolding table_of_simps map_of_map_entries by (rule find_cong [OF refl]) (use h in blast)
  have f: "find (\<lambda>e. Contains (eV6 e) a) (filter Q (ents6 b)) = Some x \<longleftrightarrow> x \<in> set (ents6 b) \<and> Q x \<and> Contains (eV6 x) a" for Q x
    using find_Some_iff_unique [of "filter Q (ents6 b)" "\<lambda>e. Contains (eV6 e) a" x] un by auto
  show ?thesis
  proof (cases "map_of (hosts6 (table_of b)) a")
    case None
    then have "\<not> (host6 e \<and> e \<in> set (ents6 b) \<and> Contains (eV6 e) a)" using f [of host6] m by auto
    then show ?thesis using None f [of "\<lambda>e. \<not> host6 e" e] by (auto simp: Table_lookup6_def)
  next
    case (Some x)
    then have "x \<in> set (ents6 b)" "Contains (eV6 x) a" using f [of host6 x] m by auto
    then show ?thesis using Some un [of x e] by (auto simp: Table_lookup6_def)
  qed
qed

subsection \<open>The NAT64 prefix\<close>

lemma take_word_bytes_iff:
  assumes "k \<le> 16"
  shows "take k (word_bytes 16 x) = take k (word_bytes 16 y) \<longleftrightarrow> drop_bit (128 - 8 * k) x = drop_bit (128 - 8 * k) (y :: u128)"
proof
  assume t: "take k (word_bytes 16 x) = take k (word_bytes 16 y)"
  have b: "bit x p = bit y p" if p: "128 - 8 * k \<le> p" "p < 128" for p
  proof -
    let ?i = "15 - p div 8"
    have i: "?i < k" using p assms by linarith
    have "take k (word_bytes 16 x) ! ?i = take k (word_bytes 16 y) ! ?i" by (simp only: t)
    then have "ucast (drop_bit (8 * (p div 8)) x) = (ucast (drop_bit (8 * (p div 8)) y) :: byte)"
      using i p assms by (simp add: nth_word_bytes)
    then have "bit (ucast (drop_bit (8 * (p div 8)) x) :: byte) (p mod 8) = bit (ucast (drop_bit (8 * (p div 8)) y) :: byte) (p mod 8)" by (simp only:)
    then show ?thesis by (simp add: bit_ucast_iff bit_drop_bit_eq)
  qed
  show "drop_bit (128 - 8 * k) x = drop_bit (128 - 8 * k) y"
  proof (rule bit_eqI)
    fix n
    show "bit (drop_bit (128 - 8 * k) x) n = bit (drop_bit (128 - 8 * k) y) n"
      using b [of "128 - 8 * k + n"] by (cases "128 - 8 * k + n < 128") (auto simp: bit_drop_bit_eq dest: bit_imp_le_length)
  qed
next
  assume d: "drop_bit (128 - 8 * k) x = drop_bit (128 - 8 * k) y"
  show "take k (word_bytes 16 x) = take k (word_bytes 16 y)"
  proof (rule nth_equalityI)
    fix i assume "i < length (take k (word_bytes 16 x))"
    then have i: "i < k" by simp
    have "drop_bit (8 * (15 - i)) x = drop_bit (8 * (15 - i)) y" using drop_bit_mono_eq [OF d] i assms by simp
    then show "take k (word_bytes 16 x) ! i = take k (word_bytes 16 y) ! i" using i assms by (simp add: nth_word_bytes)
  qed simp
qed

text \<open>For the six lengths, an address is in the prefix when its bytes are.\<close>

lemma Contains_bytes:
  assumes "ValidRFC6052PrefixLen n" "length c = 16"
  shows "Contains \<lparr>pAddr = IPv6 x, pBits = n\<rparr> (AddrFrom16 c) \<longleftrightarrow> take (nat (n div 8)) c = take (nat (n div 8)) (As16 (IPv6 x))"
proof -
  have k: "nat (n div 8) \<le> 16" "128 - 8 * nat (n div 8) = 128 - nat n" "0 \<le> n" using assms(1) by (auto simp: ValidRFC6052PrefixLen_def)
  have c: "word_bytes 16 (bytes_word c :: u128) = c" using assms(2) by (simp add: word_bytes_bytes_word)
  have "Contains \<lparr>pAddr = IPv6 x, pBits = n\<rparr> (AddrFrom16 c) \<longleftrightarrow> drop_bit (128 - 8 * nat (n div 8)) x = drop_bit (128 - 8 * nat (n div 8)) (bytes_word c)"
    using k(2,3) by (simp add: Contains_def PIsValid_def AddrFrom16_def)
  also have "\<dots> \<longleftrightarrow> take (nat (n div 8)) (word_bytes 16 x) = take (nat (n div 8)) c"
    unfolding take_word_bytes_iff [OF k(1), symmetric] c ..
  finally show ?thesis unfolding As16.simps by metis
qed

lemma prefix_round4:
  assumes p: "Is6 (pAddr p)" "ValidRFC6052PrefixLen (pBits p)" and e: "Embed (As16 (pAddr p)) (pBits p) (As4 a) = Inr c" and a: "Is4 a"
  shows "Contains p (AddrFrom16 c)" "Extract (As16 (AddrFrom16 c)) (pBits p) = Inr (As4 a)"
proof -
  obtain x where x: "pAddr p = IPv6 x" using p(1) by (cases "pAddr p") auto
  have p': "p = \<lparr>pAddr = IPv6 x, pBits = pBits p\<rparr>" using x by simp
  have l: "length (As16 (pAddr p)) = 16" "length (As4 a) = 4" using a by (cases a; simp)+
  note et = Embed_Extract_take [OF l e]
  have c: "length c = 16" using length_Embed [OF e l] .
  show "Contains p (AddrFrom16 c)" using Contains_bytes [OF p(2) c, of x] et(2) x by (subst p') simp
  show "Extract (As16 (AddrFrom16 c)) (pBits p) = Inr (As4 a)" using et(1) c by simp
qed

lemma prefix_round6:
  assumes p: "Is6 (pAddr p)" "ValidRFC6052PrefixLen (pBits p)" and c: "Contains p a" and e: "Extract (As16 a) (pBits p) = Inr v4"
  shows "Embed (As16 (pAddr p)) (pBits p) v4 = Inr (As16 a)" "AddrFrom16 (As16 a) = a"
proof -
  obtain x where x: "pAddr p = IPv6 x" using p(1) by (cases "pAddr p") auto
  have p': "p = \<lparr>pAddr = IPv6 x, pBits = pBits p\<rparr>" using x by simp
  have "Is6 a" using Contains_Is6 [OF c] p(1) by simp
  then show a: "AddrFrom16 (As16 a) = a" by simp
  have "take (nat (pBits p div 8)) (As16 a) = take (nat (pBits p div 8)) (As16 (pAddr p))"
    using Contains_bytes [OF p(2), of "As16 a" x] c a p' x by simp
  then have "Embed (As16 (pAddr p)) (pBits p) v4 = Embed (As16 a) (pBits p) v4" using Embed_prefix_cong by metis
  then show "Embed (As16 (pAddr p)) (pBits p) v4 = Inr (As16 a)" using Extract_Embed_same [OF _ e] by simp
qed

end
