(* ===== verification/TableReach.thy ===== *)
theory TableReach
  imports TableLookup
begin

text \<open>
  The states of a table: the pool behind it changes, its entries do not. A pool never gives out
  an address that the table resolves by anything but the pool.
\<close>

subsection \<open>What a pool may take\<close>

definition kept :: "Pool \<Rightarrow> Pool \<Rightarrow> bool" where
  "kept p q \<longleftrightarrow> pPrefix q = pPrefix p \<and> pBase q = pBase p \<and> pMax q = pMax p \<and> reserved q = reserved p"

definition takes :: "Pool \<Rightarrow> Pool \<Rightarrow> bool" where
  "takes p q \<longleftrightarrow> kept p q \<and> (\<forall>off. by4 q off \<noteq> None \<longrightarrow> by4 p off \<noteq> None \<or> \<not> reserved p (addr p off))"

lemma kept_addr: "kept p q \<Longrightarrow> addr q = addr p"
  by (simp add: kept_def addr_eq fun_eq_iff)

lemma takes_refl [simp]: "takes p p"
  by (simp add: takes_def kept_def)

lemma takes_trans: "takes p q \<Longrightarrow> takes q r \<Longrightarrow> takes p r"
  using kept_addr [of p q] by (simp add: takes_def kept_def) metis

lemma takes_fields:
  "takes p (upd_host r f p)" "takes p (observe e p)" "takes p (Pool_event rs r p)" "takes p (snd (tick p))" "takes p (activate r n p)"
  "takes p (SetLeases mn mx p)" "takes p (SetObserver obs p)"
  by (simp_all add: takes_def kept_def upd_host_def observe_def Pool_event_def tick_def activate_def SetLeases_def SetObserver_def Let_def)

lemma takes_clock [simp]: "takes p (q\<lparr>clock := c\<rparr>) = takes p q" "takes (p\<lparr>clock := c\<rparr>) q = takes p q"
  "takes p (q\<lparr>dirty := d\<rparr>) = takes p q"
  by (simp_all add: takes_def kept_def)

lemma takes_fold: "(\<And>x q. x \<in> set xs \<Longrightarrow> takes q (f x q)) \<Longrightarrow> takes p (fold f xs p)"
  by (induction xs arbitrary: p) (auto intro: takes_trans)

lemma takes_assign_at: "takes p (snd (assign_at now it a p))"
proof (cases rule: assign_at_cases [of p a now it])
  case (fresh off)
  then have "\<not> reserved p (addr p off)" using search_Some by blast
  then show ?thesis unfolding fresh(4)
    by (simp add: assign_new_def Let_def takes_def kept_def upd_host_def observe_def Pool_event_def activate_def)
next
  case (stolen r)
  then show ?thesis by (simp add: steal_def Let_def takes_def kept_def upd_host_def observe_def Pool_event_def activate_def)
next
  case (dormant r)
  then show ?thesis using takes_trans [OF takes_fields(5) takes_fields(3)] by simp
qed (simp_all add: takes_fields)

lemma takes_lookup6: "takes p (snd (Pool_lookup6 it a al p))"
  using takes_assign_at [of "snd (tick p)" "fst (tick p)" it a] takes_fields(1) [of "snd (tick p)"]
  by (auto simp: Pool_lookup6_def assign_def tick_def Let_def split: option.splits)

lemma takes_lookup4: "takes p (snd (Pool_lookup4 a p))"
  using takes_fields(1) [of "snd (tick p)"] by (auto simp: Pool_lookup4_def tick_def Let_def split: option.splits)

lemma takes_expire: "takes p (expire_mapped mn now e p)" "takes p (expire_dormant mx now e p)"
  by (auto simp: expire_mapped_def expire_dormant_def Let_def takes_def kept_def upd_host_def observe_def Pool_event_def clearUsed_def split: prod.splits)

lemma takes_Maintain: "takes p (Maintain it p)"
proof -
  have m: "takes q (fold (expire_mapped mn now) xs q)" for mn now xs q by (rule takes_fold) (rule takes_expire)
  have d: "takes q (fold (expire_dormant mx now) xs q)" for mx now xs q by (rule takes_fold) (rule takes_expire)
  define p0 where "p0 = p\<lparr>clock := \<lambda>i. clock p (Suc i)\<rparr>"
  have "takes p p0" by (simp add: p0_def)
  from takes_trans [OF this takes_trans [OF m d]] show ?thesis unfolding Maintain_def tick_def Let_def prod.case p0_def .
qed

lemma takes_Save: "takes p (snd (snd (Save it s file p)))"
  by (simp add: Save_def Pool_write_def tick_def Let_def)

lemma takes_read_lines:
  assumes "pool_ok p"
  shows "takes p (fst (fold (read_line now) ls (p, ld, fu)))"
  using assms
proof (induction ls arbitrary: p ld fu)
  case (Cons l ls)
  show ?case
  proof (cases l)
    case (Fields v4 v6 lu)
    show ?thesis
    proof (cases "loadable p v4 v6 lu")
      case True
      obtain w where w: "v4 = IPv4 w" using True by (cases v4) (auto simp: loadable_def)
      have "addr p (offset4 p v4) = v4" using prefix_addr [OF pool_ok_dom(1) [OF Cons.prems]] True by (simp add: w loadable_def)
      then have "takes p (load_host v4 v6 lu p)" using True by (auto simp: takes_def kept_def load_host_def loadable_def)
      then show ?thesis using Cons.IH [OF load_host_ok(1) [OF Cons.prems True]] True Fields
        by (auto simp: read_line_simps intro: takes_trans)
    qed (use Cons Fields in \<open>simp add: read_line_simps\<close>)
  qed (use Cons in \<open>simp add: read_line_simps\<close>)
qed simp

lemma takes_Load:
  assumes "pool_ok p"
  shows "takes p (snd (Load f p))"
proof -
  have s: "takes q (read_settle mn now fut r q)" for mn now fut r q by (simp add: read_settle_def takes_fields)
  have "takes p (snd (Pool_read e ls p))" for e ls
  proof -
    let ?p = "snd (tick p)"
    obtain q ld fut where q: "fold (read_line (clock p 0)) ls (?p, [], False) = (q, ld, fut)" by (metis prod_cases3)
    have "takes ?p q" using takes_read_lines [of ?p "clock p 0" ls "[]" False] assms q by simp
    then have "takes p q" by (simp add: tick_def)
    moreover have "takes q (fold (read_settle mn now fut) ld q)" for mn now by (rule takes_fold) (rule s)
    ultimately show ?thesis using q takes_trans by (auto simp: Pool_read_def tick_def Let_def)
  qed
  then show ?thesis by (simp add: Load_def split: load_file.splits)
qed

text \<open>The operations on the pool of a table; only \<^verbatim>\<open>Build\<close> sets \<open>reserved\<close>.\<close>

inductive pool_use :: "Pool \<Rightarrow> Pool \<Rightarrow> bool" where
  lookup4: "pool_use p (snd (Pool_lookup4 a p))"
| lookup6: "iter_ok it \<Longrightarrow> pool_use p (snd (Pool_lookup6 it a al p))"
| maintain: "iter_ok it \<Longrightarrow> pool_use p (Maintain it p)"
| save: "pool_use p (snd (snd (Save it s file p)))"
| load: "pool_use p (snd (Load f p))"
| leases: "pool_use p (SetLeases mn mx p)"
| observer: "pool_use p (SetObserver obs p)"

lemma pool_use_ok:
  assumes "pool_use p q" "pool_ok p"
  shows "pool_ok q" "takes p q"
proof -
  have "pool_step p q" using assms(1) by cases (auto intro: pool_step.intros)
  then show "pool_ok q" using pool_step_ok assms(2) by blast
  show "takes p q" using assms by cases (auto intro: takes_lookup4 takes_lookup6 takes_Maintain takes_Save takes_Load takes_fields)
qed

subsection \<open>The states of a table\<close>

inductive table_reach :: "Builder \<Rightarrow> Table \<Rightarrow> bool" for b where
  built: "Build b = Inr t \<Longrightarrow> table_reach b t"
| map4: "table_reach b t \<Longrightarrow> table_reach b (snd (Table_MapIPv4ToIPv6 a t))"
| map6: "table_reach b t \<Longrightarrow> iter_ok it \<Longrightarrow> table_reach b (snd (Table_MapIPv6ToIPv4 it a al t))"
| pool: "table_reach b t \<Longrightarrow> tPool t = Some p \<Longrightarrow> pool_use p q \<Longrightarrow> table_reach b (t\<lparr>tPool := Some q\<rparr>)"

definition table_inv :: "Builder \<Rightarrow> Table \<Rightarrow> bool" where
  "table_inv b t \<longleftrightarrow> (\<exists>mp. t = (table_of b)\<lparr>tPool := mp\<rparr> \<and>
     (case bPool b of None \<Rightarrow> mp = None
      | Some p0 \<Rightarrow> \<exists>p. mp = Some p \<and> pool_ok p \<and> takes (p0\<lparr>reserved := Table_reserved (table_of b)\<rparr>) p))"

lemma table_inv_pool:
  assumes "table_inv b t" "tPool t = Some p" "pool_use p q"
  shows "table_inv b (t\<lparr>tPool := Some q\<rparr>)"
proof -
  obtain p0 where p0: "bPool b = Some p0" "pool_ok p" "takes (p0\<lparr>reserved := Table_reserved (table_of b)\<rparr>) p" "t = (table_of b)\<lparr>tPool := Some p\<rparr>"
    using assms(1,2) by (auto simp: table_inv_def split: option.splits)
  then show ?thesis using pool_use_ok [OF assms(3) p0(2)] takes_trans by (auto simp: table_inv_def)
qed

lemma map4_state:
  "snd (Table_MapIPv4ToIPv6 a t) = t \<or> (\<exists>p. tPool t = Some p \<and> snd (Table_MapIPv4ToIPv6 a t) = t\<lparr>tPool := Some (snd (Pool_lookup4 a p))\<rparr>)"
  by (auto simp: Table_MapIPv4ToIPv6_def split: option.splits Kind.splits prod.splits)

lemma map6_state:
  "snd (Table_MapIPv6ToIPv4 it a al t) = t \<or> (\<exists>p. tPool t = Some p \<and> snd (Table_MapIPv6ToIPv4 it a al t) = t\<lparr>tPool := Some (snd (Pool_lookup6 it a al p))\<rparr>)"
  by (auto simp: Table_MapIPv6ToIPv4_def Let_def split: option.splits Kind.splits prod.splits sum.splits)

lemma table_reach_inv:
  assumes "builder_ok b" "table_reach b t"
  shows "table_inv b t"
  using assms(2)
proof (induction rule: table_reach.induct)
  case (built t)
  then have "t = table_of b" using Build_iff [OF assms(1)] by blast
  moreover have "tPool (table_of b) = map_option (\<lambda>p. p\<lparr>reserved := Table_reserved (table_of b)\<rparr>) (bPool b)" by (rule tPool_table_of)
  moreover have "bPool b = Some p \<Longrightarrow> pool_ok p" for p using assms(1) by (simp add: builder_ok_def)
  ultimately show ?case by (auto simp: table_inv_def intro!: exI [of _ "tPool (table_of b)"] split: option.splits)
next
  case (map4 t a)
  then show ?case using map4_state [of a t] table_inv_pool [OF map4.IH _ pool_use.lookup4] by metis
next
  case (map6 t it a al)
  then show ?case using map6_state [of it a al t] table_inv_pool [OF map6.IH _ pool_use.lookup6 [OF map6.hyps(2)]] by metis
next
  case (pool t p q)
  then show ?case using table_inv_pool by blast
qed

lemma table_reach_Build: "table_reach b t \<Longrightarrow> \<exists>t. Build b = Inr t"
  by (induction rule: table_reach.induct) auto

lemma Build_entries_distinct: "builder_ok b \<Longrightarrow> Build b = Inr t \<Longrightarrow> distinct (bEntries b)"
  using Build_iff [of b t] by (simp add: distinct_map)

text \<open>What is known of a state, for the proofs below.\<close>

lemma table_facts:
  assumes "builder_reach b" "table_reach b t"
  shows "builder_ok b" "Table_lookup4 t = Table_lookup4 (table_of b)" "Table_lookup6 t = Table_lookup6 (table_of b)" "poolEntry t = poolEntry (table_of b)"
    "tWkpfStrict t = bWkpfStrict b"
    "Table_lookup4 t a = Some e \<longleftrightarrow> e \<in> set (bEntries b) \<and> Contains (eV4 e) a \<and> (\<forall>o' \<in> set (bEntries b). Contains (eV4 o') a \<longrightarrow> pBits (eV4 o') \<le> pBits (eV4 e))"
    "Table_lookup6 t a = Some e \<longleftrightarrow> e \<in> set (bEntries b) \<and> side6 e \<and> Contains (eV6 e) a"
    "Table_lookup4 t a = Some e \<Longrightarrow> entry_ok e" "Table_lookup6 t a = Some e \<Longrightarrow> entry_ok e"
proof -
  show ok: "builder_ok b" using builder_reach_ok assms(1) .
  obtain mp where t: "t = (table_of b)\<lparr>tPool := mp\<rparr>" using table_reach_inv [OF ok assms(2)] by (auto simp: table_inv_def)
  show l: "Table_lookup4 t = Table_lookup4 (table_of b)" "Table_lookup6 t = Table_lookup6 (table_of b)" "poolEntry t = poolEntry (table_of b)"
    "tWkpfStrict t = bWkpfStrict b" by (simp_all add: t)
  obtain u where "Build b = Inr u" using table_reach_Build [OF assms(2)] by blast
  note B = Build_iff [OF ok, THEN iffD1, OF this]
  show i: "Table_lookup4 t a = Some e \<longleftrightarrow> e \<in> set (bEntries b) \<and> Contains (eV4 e) a \<and> (\<forall>o' \<in> set (bEntries b). Contains (eV4 o') a \<longrightarrow> pBits (eV4 o') \<le> pBits (eV4 e))"
    "Table_lookup6 t a = Some e \<longleftrightarrow> e \<in> set (bEntries b) \<and> side6 e \<and> Contains (eV6 e) a"
    unfolding l using lookup4_iff [OF ok] lookup6_iff [OF ok] B by blast+
  show "Table_lookup4 t a = Some e \<Longrightarrow> entry_ok e" "Table_lookup6 t a = Some e \<Longrightarrow> entry_ok e"
    using i ok by (auto simp: builder_ok_def)
qed

lemma table_pool_facts:
  assumes "builder_reach b" "table_reach b t" "pool_entry e" "e \<in> set (bEntries b)"
  obtains p where "tPool t = Some p" "pool_ok p" "pPrefix p = eV4 e" "reserved p = Table_reserved t" "poolEntry t = Some e"
proof -
  have ok: "builder_ok b" using builder_reach_ok assms(1) .
  obtain p0 where p0: "bPool b = Some p0" "map eV4 (filter pool_entry (bEntries b)) = [pPrefix p0]"
    using ok assms(3,4) by (auto simp: builder_ok_def split: option.splits)
  then obtain e' where e': "filter pool_entry (bEntries b) = [e']" "eV4 e' = pPrefix p0" by auto
  moreover have "e \<in> set (filter pool_entry (bEntries b))" using assms(3,4) by simp
  ultimately have e: "e' = e" by simp
  have pe: "poolEntry (table_of b) = Some e"
  proof -
    have "find pool_entry (ents4 b) \<noteq> None" using assms(3,4) by (auto simp: find_None_iff)
    then obtain x where x: "find pool_entry (ents4 b) = Some x" by blast
    then have "x \<in> set (ents4 b)" "pool_entry x" by (auto simp: find_Some_iff simp del: set_ents4)
    then have "x \<in> set (filter pool_entry (bEntries b))" by simp
    then show ?thesis using x e e' by simp
  qed
  obtain p where "tPool t = Some p" "pool_ok p" "takes (p0\<lparr>reserved := Table_reserved (table_of b)\<rparr>) p" "t = (table_of b)\<lparr>tPool := Some p\<rparr>"
    using table_reach_inv [OF ok assms(2)] p0(1) by (auto simp: table_inv_def)
  then show ?thesis using that e' e pe by (auto simp: takes_def kept_def)
qed

subsection \<open>Round trips\<close>

lemma map4_back:
  assumes b: "builder_reach b" "table_reach b t" and m: "Table_MapIPv4ToIPv6 a t = (Inr c, t')"
    and e: "Table_lookup4 t a = Some e" "\<not> v4Only e" "pool_entry e \<Longrightarrow> Table_lookup6 t c = None"
  shows "fst (Table_MapIPv6ToIPv4 it c al t') = Inr a"
proof -
  note f = table_facts [OF b]
  have ok: "entry_ok e" "e \<in> set (bEntries b)" "Contains (eV4 e) a" using f(6,8) e(1) by blast+
  have a4: "Is4 a" using Contains_Is4 [OF ok(3)] ok(1) by (simp add: entry_ok_def)
  show ?thesis
  proof (cases "eKind e")
    case KindStatic
    then have mc: "c = joinStatic6 e a" "t' = t" using m e(1) by (simp_all add: Table_MapIPv4ToIPv6_def)
    note r = static_round4 [OF ok(1) KindStatic e(2) ok(3)]
    have "Table_lookup6 t c = Some e" using r(1) f(7) ok(2) KindStatic e(2) by (simp add: mc side6_def)
    then show ?thesis using KindStatic r(2) by (simp add: Table_MapIPv6ToIPv4_def mc)
  next
    case KindRFC6052
    then have p: "Is6 (pAddr (eV6 e))" "ValidRFC6052PrefixLen (pBits (eV6 e))" using ok(1) by (simp_all add: entry_ok_def)
    have "Table_embed t a (eV6 e) = Inr c" "t' = t" using m e(1) KindRFC6052 by (auto simp: Table_MapIPv4ToIPv6_def)
    then obtain o' where o': "ClassifyIPv4 (As4 a) = IPv4Valid" "\<not> (tWkpfStrict t \<and> IsWellKnownPrefix (eV6 e) \<and> IsPrivateIPv4 (As4 a))"
        "Embed (As16 (pAddr (eV6 e))) (pBits (eV6 e)) (As4 a) = Inr o'" "c = AddrFrom16 o'" "t' = t"
      by (auto simp: Table_embed_def Let_def split: if_splits sum.splits)
    note r = prefix_round4 [OF p o'(3) a4]
    have "Table_lookup6 t c = Some e" using r(1) f(7) ok(2) KindRFC6052 by (simp add: o'(4) side6_def)
    then show ?thesis using KindRFC6052 r(2) o' e(1) a4 by (simp add: Table_MapIPv6ToIPv4_def Let_def)
  next
    case KindDynamicPool
    obtain p where p: "tPool t = Some p" "pool_ok p" "pPrefix p = eV4 e" using table_pool_facts [OF b KindDynamicPool ok(2)] .
    have l: "fst (Pool_lookup4 a p) = Some c" "t' = t\<lparr>tPool := Some (snd (Pool_lookup4 a p))\<rparr>"
      using m e(1) KindDynamicPool p(1) by (auto simp: Table_MapIPv4ToIPv6_def split: prod.splits option.splits)
    obtain w where w: "a = IPv4 w" using a4 by (cases a) auto
    have "assignment (snd (Pool_lookup4 a p)) c = Some (a, clock p 0, False)"
      using Pool_lookup4_iff(2) [OF p(2)] ok(3) l(1) p(3) by (simp add: w)
    then have "fst (Pool_lookup6 it c al (snd (Pool_lookup4 a p))) = Some a" using lookup6_active [OF pool_ok_lookup4 [OF p(2)]] by blast
    then show ?thesis using e(3) KindDynamicPool l(2) by (auto simp: Table_MapIPv6ToIPv4_def split: prod.splits)
  next
    case KindDynamicHost
    then show ?thesis using ok(1) by (simp add: entry_ok_def)
  qed
qed

subsection \<open>Addresses claimed by another entry\<close>

lemma held_address:
  assumes "pool_ok p" "by4 p off \<noteq> None"
  shows "\<exists>a u d. assignment p a = Some (addr p off, u, d)"
proof -
  obtain r where "by4 p off = Some r" using assms(2) by blast
  then have "live p r" "hV4 (hosts p ! r) = addr p off" using pool_okD(1) [OF assms(1), of off r] by (auto simp: live_def)
  then show ?thesis by (auto simp: assignment_iff [OF assms(1)] entry_def)
qed

text \<open>
  The pool hands out no address that another entry claims; but a pool that is kept when a new table
  is built keeps the addresses its hosts hold already.
\<close>

lemma pool_unclaimed:
  assumes b: "builder_reach b" "table_reach b t" and p: "tPool t = Some p" and a: "assignment p a = Some (v4, u, d)"
  shows "Table_lookup4 t v4 = poolEntry t \<or> (\<exists>p0 a0 u0 d0. bPool b = Some p0 \<and> assignment p0 a0 = Some (v4, u0, d0))"
proof -
  have ok: "builder_ok b" using builder_reach_ok b(1) .
  obtain p0 where p0: "bPool b = Some p0" "pool_ok p" "takes (p0\<lparr>reserved := Table_reserved (table_of b)\<rparr>) p" "t = (table_of b)\<lparr>tPool := Some p\<rparr>"
    using table_reach_inv [OF ok b(2)] p by (auto simp: table_inv_def split: option.splits)
  obtain r where r: "live p r" "v4 = addr p (hOff (hosts p ! r))" using assignment_addr [OF p0(2) a] by metis
  have "addr (p0\<lparr>reserved := Table_reserved (table_of b)\<rparr>) = addr p" using p0(3) by (intro kept_addr [symmetric]) (simp add: takes_def)
  then have ad: "addr p0 = addr p" by (simp add: addr_eq fun_eq_iff)
  from r(1) have "by4 p (hOff (hosts p ! r)) = Some r" by (simp only: live_def)
  then have "by4 p0 (hOff (hosts p ! r)) \<noteq> None \<or> \<not> Table_reserved (table_of b) v4" using p0(3) r(2) by (auto simp: takes_def ad)
  moreover have "pool_ok p0" using ok p0(1) by (simp add: builder_ok_def)
  ultimately show ?thesis using held_address [of p0 "hOff (hosts p ! r)"] p0(1) ad unfolding p0(4) by (auto simp: Table_reserved_def r(2))
qed

text \<open>Another entry with a longer IPv4 prefix covers the address.\<close>

definition outranked :: "Builder \<Rightarrow> Entry \<Rightarrow> Addr \<Rightarrow> bool" where
  "outranked b e a \<longleftrightarrow> (\<exists>o' \<in> set (bEntries b). Contains (eV4 o') a \<and> pBits (eV4 e) < pBits (eV4 o'))"

text \<open>The entry an IPv6 address is mapped by.\<close>

definition entry_for6 :: "Table \<Rightarrow> Addr \<Rightarrow> Entry option" where
  "entry_for6 t a = (case Table_lookup6 t a of Some e \<Rightarrow> Some e | None \<Rightarrow> poolEntry t)"

lemma not_outranked:
  assumes "builder_reach b" "table_reach b t" "e \<in> set (bEntries b)" "Contains (eV4 e) a" "\<not> outranked b e a"
  shows "Table_lookup4 t a = Some e"
  using table_facts(6) [OF assms(1,2)] assms(3-) by (auto simp: outranked_def not_less)

lemma map6_pool:
  assumes b: "builder_reach b" "table_reach b t" and it: "iter_ok it"
    and m: "Table_MapIPv6ToIPv4 it a al t = (Inr v4, t')" and none: "Table_lookup6 t a = None"
  obtains e where "poolEntry t = Some e" "pool_entry e" "e \<in> set (bEntries b)" "Contains (eV4 e) v4"
    "Table_lookup4 t v4 = Some e \<longrightarrow> fst (Table_MapIPv4ToIPv6 v4 t') = Inr a"
proof -
  obtain p where p: "tPool t = Some p" "fst (Pool_lookup6 it a al p) = Some v4" "t' = t\<lparr>tPool := Some (snd (Pool_lookup6 it a al p))\<rparr>"
    using m none by (auto simp: Table_MapIPv6ToIPv4_def split: option.splits prod.splits)
  let ?q = "snd (Pool_lookup6 it a al p)"
  obtain p0 where p0: "bPool b = Some p0" "pool_ok p"
    using table_reach_inv [OF builder_reach_ok [OF b(1)] b(2)] p(1) by (auto simp: table_inv_def split: option.splits)
  then have "map eV4 (filter pool_entry (bEntries b)) \<noteq> []" using builder_reach_ok [OF b(1)] by (simp add: builder_ok_def)
  then obtain e where e: "e \<in> set (bEntries b)" "pool_entry e" by (auto simp: filter_empty_conv)
  have as: "assignment ?q a = Some (v4, clock p 0, False)" using lookup6_result [OF p0(2) it] p(2) by (metis prod.collapse)
  have t': "table_reach b t'" unfolding p(3) by (rule table_reach.pool [OF b(2) p(1) pool_use.lookup6 [OF it]])
  have pe: "pPrefix ?q = eV4 e" "poolEntry t = Some e"
    using table_pool_facts [OF b(1) t' e(2,1)] table_pool_facts [OF b e(2,1)] p(3) by auto
  have c: "Contains (eV4 e) v4" using assignment_exclusive(1) [OF pool_ok_lookup6 [OF p0(2) it] as] pe(1) by simp
  have "fst (Table_MapIPv4ToIPv6 v4 t') = Inr a" if "Table_lookup4 t v4 = Some e"
    using lookup4_active [OF pool_ok_lookup6 [OF p0(2) it] as] that e(2) p(3) by (auto simp: Table_MapIPv4ToIPv6_def split: prod.splits)
  then show ?thesis using that [OF pe(2) e(2,1) c] by blast
qed

lemma map6_entry:
  assumes b: "builder_reach b" "table_reach b t"
    and m: "Table_MapIPv6ToIPv4 it a al t = (Inr v4, t')" and l: "Table_lookup6 t a = Some e"
  shows "e \<in> set (bEntries b) \<and> Contains (eV4 e) v4 \<and> t' = t
    \<and> (Table_lookup4 t v4 = Some e \<longrightarrow> fst (Table_MapIPv4ToIPv6 v4 t') = Inr a) \<and> (prefix_entry e \<longrightarrow> Table_lookup4 t v4 = Some e)"
proof -
  note f = table_facts [OF b]
  have ok: "entry_ok e" "e \<in> set (bEntries b)" "side6 e" "Contains (eV6 e) a" using f(7,9) l by blast+
  consider (st) "eKind e = KindStatic" "\<not> v4Only e" | (pf) "prefix_entry e" using ok(3) by (auto simp: side6_def)
  then show ?thesis
  proof cases
    case st
    then have v: "v4 = joinStatic4 e a" "t' = t" using m l by (simp_all add: Table_MapIPv6ToIPv4_def)
    show ?thesis using ok(2) static_round6 [OF ok(1) st ok(4)] st(1) by (simp add: Table_MapIPv4ToIPv6_def v)
  next
    case pf
    obtain c where c: "Extract (As16 a) (pBits (eV6 e)) = Inr c" "ClassifyIPv4 c = IPv4Valid"
        "\<not> (tWkpfStrict t \<and> IsWellKnownPrefix (eV6 e) \<and> IsPrivateIPv4 c)" "Table_lookup4 t v4 = Some e" "v4 = AddrFrom4 c" "t' = t"
      using m l pf by (auto simp: Table_MapIPv6ToIPv4_def Let_def split: sum.splits if_splits)
    have p: "Is6 (pAddr (eV6 e))" "ValidRFC6052PrefixLen (pBits (eV6 e))" using ok(1) pf by (simp_all add: entry_ok_def)
    note r = prefix_round6 [OF p ok(4) c(1)]
    have "As4 v4 = c" using length_Extract [OF c(1)] c(5) by simp
    moreover have "Contains (eV4 e) v4" using c(4) f(6) by blast
    ultimately show ?thesis using c r pf ok(2) by (simp add: Table_MapIPv4ToIPv6_def Table_embed_def)
  qed
qed

lemma map6_back:
  assumes b: "builder_reach b" "table_reach b t" and it: "iter_ok it" and m: "Table_MapIPv6ToIPv4 it a al t = (Inr v4, t')"
  obtains e where "entry_for6 t a = Some e" "Contains (eV4 e) v4"
    "prefix_entry e \<or> \<not> outranked b e v4 \<longrightarrow> fst (Table_MapIPv4ToIPv6 v4 t') = Inr a"
proof (cases "Table_lookup6 t a")
  case None
  obtain e where e: "poolEntry t = Some e" "pool_entry e" "e \<in> set (bEntries b)" "Contains (eV4 e) v4"
      "Table_lookup4 t v4 = Some e \<longrightarrow> fst (Table_MapIPv4ToIPv6 v4 t') = Inr a" using map6_pool [OF b it m None] .
  show ?thesis using that [of e] e None not_outranked [OF b e(3,4)] by (simp add: entry_for6_def)
next
  case (Some e)
  note r = map6_entry [OF b m Some]
  show ?thesis using that [of e] r Some not_outranked [OF b, of e v4] by (auto simp: entry_for6_def)
qed

text \<open>A static entry in the way leads the answer to the host of that entry, which is another one.\<close>

lemma static_in_the_way:
  assumes b: "builder_reach b" "table_reach b t" and e: "Table_lookup4 t v4 = Some e" "eKind e = KindStatic" "\<not> v4Only e"
    and a: "Table_lookup6 t a \<noteq> Some e"
  shows "fst (Table_MapIPv4ToIPv6 v4 t) = Inr (joinStatic6 e v4) \<and> joinStatic6 e v4 \<noteq> a"
proof -
  note f = table_facts [OF b]
  have ok: "entry_ok e" "e \<in> set (bEntries b)" "Contains (eV4 e) v4" using f(6,8) e(1) by blast+
  have "Table_lookup6 t (joinStatic6 e v4) = Some e" using static_round4(1) [OF ok(1) e(2,3) ok(3)] f(7) ok(2) e(2,3) by (simp add: side6_def)
  then show ?thesis using a e by (auto simp: Table_MapIPv4ToIPv6_def)
qed

end
