(* ===== verification/PoolFile.thy ===== *)
theory PoolFile
  imports PoolSpec
begin

text \<open>
  The pool file: what \<^verbatim>\<open>Save\<close> writes and what \<^verbatim>\<open>Load\<close> makes of it in a new pool.
\<close>

subsection \<open>Loading what was saved\<close>

type_synonym saved = "Addr \<times> Addr \<times> int"

definition saved_line :: "saved \<Rightarrow> line" where
  "saved_line l = (case l of (v4, v6, u) \<Rightarrow> Fields v4 v6 u)"

text \<open>The lines a pool accepts one after the other.\<close>

definition acceptable :: "Pool \<Rightarrow> saved list \<Rightarrow> bool" where
  "acceptable q L \<longleftrightarrow> distinct (map (fst \<circ> snd) L) \<and> distinct (map fst L) \<and>
     (\<forall>(v4, v6, u) \<in> set L. 0 < u \<and> Is6 v6 \<and> ValidIPv6 (As16 v6) \<and> assignment q v6 = None \<and> free_addr q v4)"

lemma free_addr_offset:
  assumes ok: "pool_ok q" and f: "free_addr q v4"
  shows "Is4 v4" "Contains (pPrefix q) v4" "offset4 q v4 \<noteq> 0" "\<not> isUsed q (offset4 q v4)" "\<not> reserved q v4"
proof -
  obtain off where off: "off \<noteq> 0" "off \<le> pMax q" "\<not> isUsed q off" "\<not> reserved q v4" "v4 = addr q off" using f free_addr_iff [OF ok] by blast
  note ac = addr_contains [OF pool_ok_dom(1) [OF ok] off(2)]
  show "Contains (pPrefix q) v4" "Is4 v4" using ac off(5) by (simp_all add: addr_eq)
  show "offset4 q v4 \<noteq> 0" "\<not> isUsed q (offset4 q v4)" "\<not> reserved q v4" using ac off by simp_all
qed

lemma load_host_frame:
  "pPrefix (load_host v4 v6 u q) = pPrefix q" "pMax (load_host v4 v6 u q) = pMax q" "pBase (load_host v4 v6 u q) = pBase q"
  "reserved (load_host v4 v6 u q) = reserved q" "addr (load_host v4 v6 u q) = addr q"
  by (simp_all add: load_host_def)

lemma load_one:
  assumes ok: "pool_ok q" and l: "0 < u" "Is6 v6" "ValidIPv6 (As16 v6)" "assignment q v6 = None" "free_addr q v4"
  shows "loadable q v4 v6 u" "assignment (load_host v4 v6 u q) = (assignment q)(v6 \<mapsto> (v4, u, True))"
proof -
  note fo = free_addr_offset [OF ok l(5)]
  have nd: "map_of (mapped q) v6 = None" "map_of (dormant q) v6 = None" using l(4) assignment_None_iff [OF ok] by simp_all
  show ld: "loadable q v4 v6 u" using l fo nd by (simp add: loadable_def)
  obtain w where w: "v4 = IPv4 w" using fo(1) by (cases v4) auto
  have "by4 q (offset4 q v4) = None" using pool_okD(5) [OF ok, of "offset4 q v4"] fo(4) by (simp add: w word_and_le1)
  then show "assignment (load_host v4 v6 u q) = (assignment q)(v6 \<mapsto> (v4, u, True))"
    by (rule assignment_new [OF ok load_host_ok(1) [OF ok ld] _ no_host_at [OF ok nd]]) (simp_all add: load_host_def)
qed

lemma acceptable_tail:
  assumes ok: "pool_ok q" and a: "acceptable q ((v4, v6, u) # L)"
  shows "acceptable (load_host v4 v6 u q) L"
proof -
  have l: "0 < u" "Is6 v6" "ValidIPv6 (As16 v6)" "assignment q v6 = None" "free_addr q v4" using a by (auto simp: acceptable_def)
  note as = load_one(2) [OF ok l]
  have "assignment (load_host v4 v6 u q) b = None \<and> free_addr (load_host v4 v6 u q) w" if "(w, b, n) \<in> set L" for w b n
  proof -
    have ne: "b \<noteq> v6" "w \<noteq> v4" using that a by (force simp: acceptable_def)+
    have "assignment q b = None" "free_addr q w" using that a by (auto simp: acceptable_def)
    then show ?thesis using ne by (auto simp: as free_addr_def load_host_frame split: if_splits)
  qed
  then show ?thesis using a by (force simp: acceptable_def)
qed

lemma read_lines_effect:
  assumes "pool_ok q" "acceptable q L"
  shows "\<exists>q' rs hs. fold (read_line now) (map saved_line L) (q, ld, fu) = (q', ld @ rs, fu \<or> (\<exists>l \<in> set L. snd (snd l) > now))
    \<and> pool_ok q' \<and> (\<forall>r. r \<in> set rs \<or> live q r \<longrightarrow> live q' r) \<and> hosts q' = hosts q @ hs \<and> map (\<lambda>r. hV6 (hosts q' ! r)) rs = map (fst \<circ> snd) L
    \<and> assignment q' = assignment q ++ map_of (map (\<lambda>(v4, v6, u). (v6, v4, u, True)) L)"
  using assms
proof (induction L arbitrary: q ld fu)
  case Nil
  show ?case by (rule exI [of _ q], rule exI [of _ "[]"], rule exI [of _ "[]"]) (simp add: Nil)
next
  case (Cons l L)
  obtain v4 v6 u where l: "l = (v4, v6, u)" by (cases l)
  have a: "0 < u" "Is6 v6" "ValidIPv6 (As16 v6)" "assignment q v6 = None" "free_addr q v4" using Cons.prems(2) by (auto simp: acceptable_def l)
  note lo = load_one [OF Cons.prems(1) a]
  note lh = load_host_ok [OF Cons.prems(1) lo(1)]
  let ?q = "load_host v4 v6 u q" and ?r = "length (hosts q)"
  have hq: "hosts ?q = hosts q @ [\<lparr>hV4 = v4, hV6 = v6, hOff = offset4 q v4, lastUse = u, hDormant = True\<rparr>]" by (simp add: load_host_def)
  have acc: "acceptable ?q L" using acceptable_tail [OF Cons.prems(1)] Cons.prems(2) by (simp add: l)
  obtain q' rs hs where IH: "fold (read_line now) (map saved_line L) (?q, ld @ [?r], fu \<or> u > now)
        = (q', (ld @ [?r]) @ rs, (fu \<or> u > now) \<or> (\<exists>l \<in> set L. snd (snd l) > now))"
      "pool_ok q'" "\<forall>r. r \<in> set rs \<or> live ?q r \<longrightarrow> live q' r" "hosts q' = hosts ?q @ hs" "map (\<lambda>r. hV6 (hosts q' ! r)) rs = map (fst \<circ> snd) L"
      "assignment q' = assignment ?q ++ map_of (map (\<lambda>(v4, v6, u). (v6, v4, u, True)) L)"
    using Cons.IH [OF lh(1) acc, of "ld @ [?r]" "fu \<or> u > now"] by blast
  have nk: "v6 \<notin> fst ` set (map (\<lambda>(v4, v6, u). (v6, v4, u, True)) L)" using Cons.prems(2) by (force simp: acceptable_def l)
  have v: "hV6 (hosts q' ! ?r) = v6" by (simp add: IH(4) hq nth_append)
  have lr: "\<forall>r. r \<in> set (?r # rs) \<or> live q r \<longrightarrow> live q' r" using IH(3) lh(2,3) by auto
  have F: "fold (read_line now) (map saved_line (l # L)) (q, ld, fu)
      = (q', ld @ ?r # rs, fu \<or> (\<exists>l \<in> set (l # L). snd (snd l) > now))"
    using IH(1) lo(1) by (simp add: l saved_line_def read_line_simps)
  have A: "assignment q' = assignment q ++ map_of (map (\<lambda>(v4, v6, u). (v6, v4, u, True)) (l # L))"
    using nk by (simp add: IH(6) lo(2) l map_add_upd_left dom_map_of_conv_image_fst)
  have H: "hosts q' = hosts q @ (\<lparr>hV4 = v4, hV6 = v6, hOff = offset4 q v4, lastUse = u, hDormant = True\<rparr> # hs)" by (simp add: IH(4) hq)
  have M: "map (\<lambda>r. hV6 (hosts q' ! r)) (?r # rs) = map (fst \<circ> snd) (l # L)" using IH(5) v by (simp add: l)
  show ?case using F IH(2) lr H M A by blast
qed

text \<open>The second pass over the loaded hosts.\<close>

definition settle :: "int \<Rightarrow> int \<Rightarrow> bool \<Rightarrow> (Addr \<times> int \<times> bool) option \<Rightarrow> (Addr \<times> int \<times> bool) option" where
  "settle mn now future e =
     (case e of None \<Rightarrow> None
      | Some (v4, u, d) \<Rightarrow> Some (if future then (v4, now - mn, d) else if u + mn \<ge> now then (v4, u, False) else (v4, u, d)))"

lemma settle_idem [simp]: "settle mn now future (settle mn now future e) = settle mn now future e"
  by (cases e) (auto simp: settle_def)

lemma assignment_settle:
  assumes ok: "pool_ok p" and r: "live p r"
  shows "assignment (read_settle mn now future r p)
    = (assignment p)(hV6 (hosts p ! r) := settle mn now future (assignment p (hV6 (hosts p ! r))))"
proof -
  have "assignment p (hV6 (hosts p ! r)) = Some (hV4 (hosts p ! r), lastUse (hosts p ! r), hDormant (hosts p ! r))"
    using r by (auto simp: assignment_iff [OF ok] entry_def)
  then show ?thesis
    using assignment_touch [OF ok r] assignment_activate [OF ok r] by (simp add: read_settle_def settle_def fun_upd_idem)
qed

lemma settle_hV6: "hV6 (hosts (read_settle mn now future r p) ! q) = hV6 (hosts p ! q)"
  by (simp add: read_settle_def activate_def upd_host_def Let_def nth_upd)

lemma settles_effect:
  assumes "pool_ok p" "\<forall>r \<in> set rs. live p r"
  shows "assignment (fold (read_settle mn now future) rs p) a
    = (if a \<in> set (map (\<lambda>r. hV6 (hosts p ! r)) rs) then settle mn now future (assignment p a) else assignment p a)"
  using assms
proof (induction rs arbitrary: p)
  case (Cons r rs)
  have r: "live p r" using Cons.prems by simp
  let ?p = "read_settle mn now future r p"
  have "pool_ok ?p" "\<forall>q \<in> set rs. live ?p q" using pool_ok_settle [OF Cons.prems(1) r] Cons.prems(2) by (simp_all add: live_settle)
  from Cons.IH [OF this] show ?case
    using assignment_settle [OF Cons.prems(1) r, of mn now future] by (simp add: settle_hV6)
qed simp

text \<open>The lines that are written: one for each host, no address twice.\<close>

lemma written:
  assumes ok: "pool_ok p" and it: "iter_ok it"
  obtains L where "fst (Pool_write it p) = replicate 5 Skipped @ map saved_line L" "distinct (map (fst \<circ> snd) L)" "distinct (map fst L)"
    "\<And>v4 v6 u. (v4, v6, u) \<in> set L \<longleftrightarrow> (\<exists>d. assignment p v6 = Some (v4, u, d))"
proof -
  define rs where "rs = sort_key (\<lambda>r. hOff (hosts p ! r)) (map snd (it (mapped p)) @ map snd (it (dormant p)))"
  define L where "L = map (\<lambda>r. (hV4 (hosts p ! r), hV6 (hosts p ! r), lastUse (hosts p ! r))) rs"
  have m: "(b, r) \<in> set (mapped p) \<longleftrightarrow> live p r \<and> hV6 (hosts p ! r) = b \<and> \<not> hDormant (hosts p ! r)"
    "(b, r) \<in> set (dormant p) \<longleftrightarrow> live p r \<and> hV6 (hosts p ! r) = b \<and> hDormant (hosts p ! r)" for b r
    using pool_okD(3,4) [OF ok, of b r] pool_ok_dom(2,3) [OF ok] by simp_all
  have rs: "r \<in> set rs \<longleftrightarrow> live p r" for r
  proof -
    have "r \<in> snd ` set (mapped p) \<longleftrightarrow> live p r \<and> \<not> hDormant (hosts p ! r)" "r \<in> snd ` set (dormant p) \<longleftrightarrow> live p r \<and> hDormant (hosts p ! r)"
      using m by (force simp: image_iff)+
    then show ?thesis by (auto simp: rs_def iter_set [OF it])
  qed
  have dm: "distinct (map snd (it xs))" if "distinct (map fst xs)" "inj_on snd (set xs)" for xs :: "(Addr \<times> nat) list"
    using iter_distinct [OF it that(1)] that(2) by (simp add: distinct_map iter_set [OF it])
  have "distinct (map snd (it (mapped p)))" "distinct (map snd (it (dormant p)))"
    using dm [OF pool_ok_dom(2) [OF ok]] dm [OF pool_ok_dom(3) [OF ok]] m by (force simp: inj_on_def)+
  moreover have "snd ` set (mapped p) \<inter> snd ` set (dormant p) = {}" using m by force
  ultimately have dist: "distinct rs" by (simp add: rs_def iter_set [OF it])
  have i6: "inj_on (\<lambda>r. hV6 (hosts p ! r)) (set rs)" using pool_okD(2) [OF ok] rs by (simp add: inj_on_def)
  have i4: "inj_on (\<lambda>r. hV4 (hosts p ! r)) (set rs)"
  proof (rule inj_onI)
    fix q r assume "q \<in> set rs" "r \<in> set rs" and e: "hV4 (hosts p ! q) = hV4 (hosts p ! r)"
    then have b: "by4 p (hOff (hosts p ! q)) = Some q" "by4 p (hOff (hosts p ! r)) = Some r" using rs by (simp_all add: live_def)
    have "hOff (hosts p ! q) = hOff (hosts p ! r)"
      using addr_inj [OF pool_ok_dom(1) [OF ok], of "hOff (hosts p ! q)" "hOff (hosts p ! r)"] pool_okD(1) [OF ok b(1)] pool_okD(1) [OF ok b(2)] e by simp
    then show "q = r" using b by (metis option.inject)
  qed
  show ?thesis
  proof (rule that)
    show "fst (Pool_write it p) = replicate 5 Skipped @ map saved_line L"
      by (simp add: Pool_write_def tick_def L_def rs_def saved_line_def comp_def)
    show "distinct (map (fst \<circ> snd) L)" "distinct (map fst L)" using dist i6 i4 by (simp_all add: L_def distinct_map comp_def)
    show "(v4, v6, u) \<in> set L \<longleftrightarrow> (\<exists>d. assignment p v6 = Some (v4, u, d))" for v4 v6 u
      unfolding L_def set_map image_iff assignment_iff [OF ok] entry_def using rs by blast
  qed
qed

text \<open>A new pool of the same prefix accepts them.\<close>

lemma new_acceptable:
  assumes ok: "pool_ok p" and n: "NewPool t0 (pPrefix p) opt = Inr q"
    and L: "distinct (map (fst \<circ> snd) L)" "distinct (map fst L)" "\<And>v4 v6 u. (v4, v6, u) \<in> set L \<longleftrightarrow> (\<exists>d. assignment p v6 = Some (v4, u, d))"
    and good: "\<forall>a v4 u d. assignment p a = Some (v4, u, d) \<longrightarrow> 0 < u \<and> Is6 a \<and> ValidIPv6 (As16 a) \<and> \<not> rs v4"
  shows "acceptable (q\<lparr>reserved := rs, clock := c\<rparr>) L" "assignment (q\<lparr>reserved := rs, clock := c\<rparr>) = Map.empty"
proof -
  let ?q = "q\<lparr>reserved := rs, clock := c\<rparr>"
  have pq: "pPrefix q = pPrefix p" "mapped q = []" "dormant q = []" using n by (auto simp: NewPool_def Let_def split: if_splits)
  then show e: "assignment ?q = Map.empty" by (simp add: assignment_def fun_eq_iff)
  have g: "geometry p" "geometry q" using pool_ok_dom(1) ok NewPool_ok [OF n] by blast+
  then have "pBase q = pBase p" "pMax q = pMax p" by (simp_all add: geometry_def pq)
  then have a: "addr ?q = addr p" "pMax ?q = pMax p" by (simp_all add: addr_eq fun_eq_iff)
  have "0 < u \<and> Is6 v6 \<and> ValidIPv6 (As16 v6) \<and> assignment ?q v6 = None \<and> free_addr ?q v4" if l: "(v4, v6, u) \<in> set L" for v4 v6 u
  proof -
    obtain d where d: "assignment p v6 = Some (v4, u, d)" using l L(3) by blast
    then obtain r where r: "live p r" "hV4 (hosts p ! r) = v4" by (auto simp: assignment_iff [OF ok] entry_def)
    then have "by4 p (hOff (hosts p ! r)) = Some r" by (simp add: live_def)
    then have "\<exists>off. off \<noteq> 0 \<and> off \<le> pMax p \<and> v4 = addr p off" using pool_okD(1) [OF ok] r(2) by metis
    then have "free_addr ?q v4" unfolding free_addr_def a e using good [rule_format, OF d] by simp
    then show ?thesis unfolding e using good [rule_format, OF d] by simp
  qed
  then show "acceptable ?q L" using L(1,2) by (auto simp: acceptable_def)
qed

lemma map_of_written:
  assumes "distinct (map (fst \<circ> snd) L)" "\<And>v4 v6 u. (v4, v6, u) \<in> set L \<longleftrightarrow> (\<exists>d. assignment p v6 = Some (v4, u, d))"
  shows "map_of (map (\<lambda>(v4, v6, u). (v6, v4, u, True)) L) a = map_option (\<lambda>(v4, u, d). (v4, u, True)) (assignment p a)"
proof (cases "assignment p a")
  case None
  then have "a \<notin> fst ` set (map (\<lambda>(v4, v6, u). (v6, v4, u, True)) L)" using assms(2) by force
  then show ?thesis using None by (simp add: map_of_eq_None_iff)
next
  case (Some e)
  obtain v4 u d where e: "e = (v4, u, d)" by (cases e)
  have "distinct (map fst (map (\<lambda>(v4, v6, u). (v6, v4, u, True)) L))" using assms(1) by (simp add: comp_def case_prod_unfold)
  moreover have "(a, v4, u, True) \<in> set (map (\<lambda>(v4, v6, u). (v6, v4, u, True)) L)" using assms(2) Some e by force
  ultimately show ?thesis using Some e by (simp add: map_of_is_SomeI)
qed

lemma Load_saved:
  assumes ok: "pool_ok p" and it: "iter_ok it" and n: "NewPool t0 (pPrefix p) opt = Inr q"
    and s: "Save it s file p = (None, Some ls, p')"
    and good: "\<forall>a v4 u d. assignment p a = Some (v4, u, d) \<longrightarrow> 0 < u \<and> Is6 a \<and> ValidIPv6 (As16 a) \<and> \<not> rs v4"
  shows "fst (Load (Contents ls False) (q\<lparr>reserved := rs\<rparr>)) = (card (dom (assignment p)), False)"
    and "assignment (snd (Load (Contents ls False) (q\<lparr>reserved := rs\<rparr>))) a
      = settle (minLease q div Second) (clock q 0) (\<exists>b v4 u d. assignment p b = Some (v4, u, d) \<and> u > clock q 0)
          (map_option (\<lambda>(v4, u, d). (v4, u, True)) (assignment p a))"
proof -
  have ls: "ls = fst (Pool_write it p)" using s by (auto simp: Save_def Let_def case_prod_unfold split: if_splits)
  obtain L where L: "fst (Pool_write it p) = replicate 5 Skipped @ map saved_line L" "distinct (map (fst \<circ> snd) L)" "distinct (map fst L)"
      "\<And>v4 v6 u. (v4, v6, u) \<in> set L \<longleftrightarrow> (\<exists>d. assignment p v6 = Some (v4, u, d))"
    using written [OF ok it] by blast
  let ?q = "q\<lparr>reserved := rs, clock := \<lambda>i. clock q (Suc i)\<rparr>" and ?now = "clock q 0"
  let ?fut = "\<exists>l \<in> set L. snd (snd l) > ?now"
  have acc: "acceptable ?q L" "assignment ?q = Map.empty" using new_acceptable [OF ok n L(2,3,4) good] by blast+
  have okq: "pool_ok ?q" using NewPool_ok [OF n] by simp
  obtain q' rr hs where R: "fold (read_line ?now) (map saved_line L) (?q, [], False) = (q', rr, ?fut)"
      "pool_ok q'" "\<forall>r \<in> set rr. live q' r" "map (\<lambda>r. hV6 (hosts q' ! r)) rr = map (fst \<circ> snd) L"
      "assignment q' = assignment ?q ++ map_of (map (\<lambda>(v4, v6, u). (v6, v4, u, True)) L)"
    using read_lines_effect [OF okq acc(1), of ?now "[]" False] unfolding append_Nil simp_thms by blast
  have fut: "?fut \<longleftrightarrow> (\<exists>b v4 u d. assignment p b = Some (v4, u, d) \<and> u > ?now)"
  proof -
    have "?fut \<longleftrightarrow> (\<exists>v4 v6 u. (v4, v6, u) \<in> set L \<and> u > ?now)" by (metis prod.collapse snd_conv)
    then show ?thesis unfolding L(4) by blast
  qed
  have skip: "(read_line ?now Skipped ^^ 5) z = z" for z by (simp add: read_line_def eval_nat_numeral split: prod.splits)
  have Ld: "Load (Contents ls False) (q\<lparr>reserved := rs\<rparr>)
      = ((length rr, False), fold (read_settle (minLease q div Second) ?now ?fut) rr q')"
    using R(1) by (simp add: Load_def Pool_read_def tick_def ls L(1) skip)
  have dl: "dom (assignment p) = set (map (fst \<circ> snd) L)" using L(4) by force
  then have "card (dom (assignment p)) = length L" using distinct_card [OF L(2)] by simp
  then show "fst (Load (Contents ls False) (q\<lparr>reserved := rs\<rparr>)) = (card (dom (assignment p)), False)"
    unfolding Ld using arg_cong [OF R(4), of length] by simp
  have "assignment q' a = map_option (\<lambda>(v4, u, d). (v4, u, True)) (assignment p a)" using map_of_written [OF L(2,4)] unfolding R(5) acc(2) by simp
  moreover have "a \<notin> set (map (fst \<circ> snd) L) \<Longrightarrow> assignment p a = None" using dl by blast
  ultimately show "assignment (snd (Load (Contents ls False) (q\<lparr>reserved := rs\<rparr>))) a
      = settle (minLease q div Second) (clock q 0) (\<exists>b v4 u d. assignment p b = Some (v4, u, d) \<and> u > clock q 0)
          (map_option (\<lambda>(v4, u, d). (v4, u, True)) (assignment p a))"
    unfolding Ld snd_conv settles_effect [OF R(2,3)] R(4) fut by (simp add: settle_def)
qed

end
