(* ===== verification/PoolProps.thy ===== *)
theory PoolProps
  imports PoolFile
begin

text \<open>
  The properties of the pool, for every pool that some sequence of its operations leads to,
  and the pools of the worked examples.
\<close>

subsection \<open>Examples\<close>

text \<open>Three addresses (192.168.0.0/30) at the time 1000, and one host that has asked.\<close>

definition ex_prefix :: Prefix where
  "ex_prefix = \<lparr>pAddr = IPv4 0xc0a80000, pBits = 30\<rparr>"

definition ex_opt :: PoolOptions where
  "ex_opt = \<lparr>oMinLease = 0, oMaxLease = 0, oObserver = None, oNow = Some (\<lambda>_. 1000)\<rparr>"

definition ex_pool :: Pool where
  "ex_pool = projr (NewPool (\<lambda>_. 0) ex_prefix ex_opt)"

definition ex_host :: Addr where
  "ex_host = IPv6 0x20010db8000000000000000000000001"

definition ex_pool1 :: Pool where
  "ex_pool1 = snd (Pool_lookup6 (\<lambda>m. m) ex_host True ex_pool)"

lemma iter_id: "iter_ok (\<lambda>m. m)"
  by (simp add: iter_ok_def)

lemma ex_pool_new: "NewPool (\<lambda>_. 0) ex_prefix ex_opt = Inr ex_pool"
proof -
  have "\<not> isl (NewPool (\<lambda>_. 0) ex_prefix ex_opt)" by code_simp
  then show ?thesis unfolding ex_pool_def by simp
qed

lemma ex_pool_reach: "pool_reach ex_pool" "pool_reach ex_pool1"
proof -
  show "pool_reach ex_pool" using ex_pool_new by (rule pool_reach.new)
  from pool_reach.step [OF this pool_step.lookup6 [OF iter_id]] show "pool_reach ex_pool1" unfolding ex_pool1_def .
qed

lemma ex_pool1_state:
  "mapped ex_pool1 = [(ex_host, 0)]" "dormant ex_pool1 = []" "hosts ex_pool1 = [\<lparr>hV4 = IPv4 0xc0a80003, hV6 = ex_host, hOff = 3, lastUse = 1000, hDormant = False\<rparr>]"
  by code_simp+

lemma ex_pool1_assignment:
  "assignment ex_pool1 a = (if a = ex_host then Some (IPv4 0xc0a80003, 1000, False) else None)"
  by (simp add: assignment_def ex_pool1_state)

lemma ex_pool1_same: "pPrefix ex_pool1 = ex_prefix" "clock ex_pool1 0 = 1000"
  by code_simp+

lemma le_maskI: "x AND NOT (mask k) = 0 \<Longrightarrow> x \<le> (mask k :: u32)"
proof -
  assume "x AND NOT (mask k) = 0"
  moreover have "(x AND mask k) OR (x AND NOT (mask k)) = x" by (simp flip: bit.conj_disj_distrib)
  ultimately have "x AND mask k = x" by simp
  then show ?thesis by (metis word_and_le1)
qed

subsection \<open>Properties\<close>

text \<open>
  Claim C22. In every pool that is reached, each host record is in exactly the map its state
  says, the entry by offset, the bitmap and the two maps agree, no IPv6 address has two
  records, and the network address is never handed out.
\<close>

theorem pool_invariant:
  "pool_reach p \<Longrightarrow> pool_ok p"
  by (rule pool_reach_ok)

theorem pool_invariant_witness: "pool_ok ex_pool1"
  using pool_invariant [OF ex_pool_reach(2)] .

text \<open>
  Claim C8. An address that a host holds is inside the prefix of the pool, is not its network
  address, and no other host holds it, active or dormant.
\<close>

theorem pool_no_sharing:
  assumes "pool_reach p" "assignment p a = Some (v4, u, d)"
  shows "Contains (pPrefix p) v4 \<and> v4 \<noteq> pAddr (pPrefix p)
    \<and> (\<forall>b w u' d'. b \<noteq> a \<longrightarrow> assignment p b = Some (w, u', d') \<longrightarrow> w \<noteq> v4)"
  using assignment_exclusive [OF pool_reach_ok [OF assms(1)] assms(2)] by blast

theorem pool_no_sharing_witness:
  "Contains (pPrefix ex_pool1) (IPv4 0xc0a80003) \<and> IPv4 0xc0a80003 \<noteq> pAddr (pPrefix ex_pool1)"
  using pool_no_sharing [OF ex_pool_reach(2), of ex_host "IPv4 0xc0a80003" 1000 False] by (simp add: ex_pool1_assignment)

text \<open>
  Claim C9. A lookup by IPv6 address implements the abstract request: a host that has an
  address keeps it and becomes active; another one gets a free address; without a free
  address it takes that of the dormant host that was used the longest ago, which loses it;
  and it fails, changing nothing, only without a dormant host either. A host that is not
  active is left alone when the caller does not allocate.
\<close>

theorem lookup6_refines_request:
  assumes "pool_reach p" "iter_ok it"
  shows "if al \<or> map_of (mapped p) a \<noteq> None
    then request p (clock p 0) a (fst (Pool_lookup6 it a al p)) (assignment (snd (Pool_lookup6 it a al p)))
    else Pool_lookup6 it a al p = (None, p)"
  by (rule Pool_lookup6_request [OF pool_reach_ok [OF assms(1)] assms(2)])

theorem lookup6_refines_request_witness:
  "request ex_pool 1000 ex_host (Some (IPv4 0xc0a80003)) (assignment ex_pool1)"
proof -
  have "fst (Pool_lookup6 (\<lambda>m. m) ex_host True ex_pool) = Some (IPv4 0xc0a80003)" "clock ex_pool 0 = 1000" by code_simp+
  then show ?thesis using lookup6_refines_request [OF ex_pool_reach(1) iter_id, of True ex_host] by (simp add: ex_pool1_def)
qed

text \<open>
  Claim C10. The address a host was given leads back to the host: the lookup by that IPv4
  address finds its IPv6 address, and asking again gives the same address.
\<close>

theorem lookup6_then_lookup4:
  assumes "pool_reach p" "iter_ok it" "Pool_lookup6 it a al p = (Some v4, q)"
  shows "fst (Pool_lookup4 v4 q) = Some a \<and> fst (Pool_lookup6 it a al' q) = Some v4
    \<and> fst (Pool_lookup6 it a al' (snd (Pool_lookup4 v4 q))) = Some v4"
proof -
  note ok = pool_reach_ok [OF assms(1)]
  have q: "pool_ok q" using pool_ok_lookup6 [OF ok assms(2), of a al] assms(3) by simp
  note r = lookup6_result [OF ok assms(2,3)]
  obtain u where "assignment (snd (Pool_lookup4 v4 q)) a = Some (v4, u, False)" using active_kept(2) [OF q assms(2) r] by blast
  then show ?thesis using lookup4_active [OF q r] lookup6_active [OF q r] lookup6_active [OF pool_ok_lookup4 [OF q]] by blast
qed

theorem lookup6_then_lookup4_witness:
  "fst (Pool_lookup4 (IPv4 0xc0a80003) ex_pool1) = Some ex_host"
proof -
  have "fst (Pool_lookup6 (\<lambda>m. m) ex_host True ex_pool) = Some (IPv4 0xc0a80003)" by code_simp
  then have "Pool_lookup6 (\<lambda>m. m) ex_host True ex_pool = (Some (IPv4 0xc0a80003), ex_pool1)" by (simp add: ex_pool1_def prod_eq_iff)
  from lookup6_then_lookup4 [OF ex_pool_reach(1) iter_id this] show ?thesis by blast
qed

text \<open>
  Claim C21. Traffic of other hosts never takes the address of an active host: whatever is
  looked up, in either direction, it stays active with the same address.
\<close>

theorem active_host_kept:
  assumes "pool_reach p" "iter_ok it" "assignment p a = Some (v4, u, False)"
  shows "(\<exists>u'. assignment (snd (Pool_lookup6 it b al p)) a = Some (v4, u', False))
    \<and> (\<exists>u'. assignment (snd (Pool_lookup4 w p)) a = Some (v4, u', False))"
  using active_kept [OF pool_reach_ok [OF assms(1)] assms(2,3)] by blast

theorem active_host_kept_witness:
  "\<exists>u'. assignment (snd (Pool_lookup6 (\<lambda>m. m) (IPv6 1) True ex_pool1)) ex_host = Some (IPv4 0xc0a80003, u', False)"
  using active_host_kept [OF ex_pool_reach(2) iter_id, of ex_host "IPv4 0xc0a80003" 1000] by (simp add: ex_pool1_assignment)

text \<open>
  Claim C13. As long as some host address of the prefix is neither reserved nor held, or some
  host is dormant, a host that may be given an address gets one.
\<close>

theorem lookup6_succeeds:
  assumes "pool_reach p" "iter_ok it"
    and "(\<exists>v4. free_addr p v4) \<or> (\<exists>b v4 u. assignment p b = Some (v4, u, True))"
  shows "\<exists>v4 q. Pool_lookup6 it a True p = (Some v4, q) \<and> assignment q a = Some (v4, clock p 0, False)"
proof -
  note ok = pool_reach_ok [OF assms(1)]
  obtain v q where r: "Pool_lookup6 it a True p = (v, q)" by (cases "Pool_lookup6 it a True p")
  then have "request p (clock p 0) a v (assignment q)" using Pool_lookup6_request [OF ok assms(2), of True a] by simp
  then have "v \<noteq> None" by cases (use assms(3) in auto)
  then show ?thesis using lookup6_result [OF ok assms(2)] r by fastforce
qed

theorem lookup6_succeeds_witness:
  "\<exists>v4 q. Pool_lookup6 (\<lambda>m. m) (IPv6 1) True ex_pool1 = (Some v4, q) \<and> assignment q (IPv6 1) = Some (v4, 1000, False)"
proof -
  have "addr ex_pool1 1 = IPv4 0xc0a80001" "1 \<le> pMax ex_pool1" "\<not> reserved ex_pool1 (IPv4 0xc0a80001)" by code_simp+
  then have "free_addr ex_pool1 (IPv4 0xc0a80001)"
    unfolding free_addr_def by (auto simp: ex_pool1_assignment intro!: exI [of _ 1])
  then show ?thesis using lookup6_succeeds [OF ex_pool_reach(2) iter_id, of "IPv6 1"] by (auto simp: ex_pool1_same)
qed

text \<open>
  Claim C12. A pass of the maintenance acts on every host by itself: an active one that was not
  used for longer than the minimum lease becomes dormant, and one that is dormant, or becomes
  so in this pass, and was not used for longer than the maximum lease is forgotten.
\<close>

theorem Maintain_refines_expiry:
  assumes "pool_reach p" "iter_ok it"
  shows "assignment (Maintain it p) a
    = (case assignment p a of
         None \<Rightarrow> None
       | Some (v4, u, d) \<Rightarrow>
           let d' = (d \<or> u + minLease p div Second < clock p 0)
           in if d' \<and> u + maxLease p div Second < clock p 0 then None else Some (v4, u, d'))"
  unfolding assignment_Maintain [OF pool_reach_ok [OF assms(1)] assms(2)]
  by (simp add: expire1_def expire2_def Let_def split: option.splits)

theorem Maintain_refines_expiry_witness:
  "assignment (Maintain (\<lambda>m. m) ex_pool1) ex_host = Some (IPv4 0xc0a80003, 1000, False)"
proof -
  have "minLease ex_pool1 = DefaultMinLease" by code_simp
  then show ?thesis
    using Maintain_refines_expiry [OF ex_pool_reach(2) iter_id, of ex_host] by (simp add: ex_pool1_assignment ex_pool1_same)
qed

text \<open>
  Claim C11. What a pool saves, a new pool of the same prefix loads: each host has its address
  and its last use again, and it is active when it was used within the minimum lease before
  the load and dormant otherwise. When the file has a time in the future the hosts are all
  dormant, with the load minus the minimum lease as their last use. The hosts must be ones
  \<^verbatim>\<open>read\<close> accepts: valid IPv6 addresses, last used after the epoch, with addresses that are
  not reserved in the new pool.
\<close>

theorem Save_then_Load:
  assumes "pool_reach p" "iter_ok it" "NewPool t0 (pPrefix p) opt = Inr q" "Save it s file p = (None, Some ls, p')"
    and "\<forall>a v4 u d. assignment p a = Some (v4, u, d) \<longrightarrow> 0 < u \<and> Is6 a \<and> ValidIPv6 (As16 a) \<and> \<not> rs v4"
  shows "fst (Load (Contents ls False) (q\<lparr>reserved := rs\<rparr>)) = (card (dom (assignment p)), False)
    \<and> assignment (snd (Load (Contents ls False) (q\<lparr>reserved := rs\<rparr>))) a
      = (case assignment p a of
           None \<Rightarrow> None
         | Some (v4, u, d) \<Rightarrow>
             if \<exists>b v u' d'. assignment p b = Some (v, u', d') \<and> u' > clock q 0
             then Some (v4, clock q 0 - minLease q div Second, True)
             else Some (v4, u, u + minLease q div Second < clock q 0))"
proof -
  note ld = Load_saved [OF pool_reach_ok [OF assms(1)] assms(2-5)]
  show ?thesis unfolding ld settle_def by (cases "assignment p a") (auto split: prod.splits)
qed

theorem Save_then_Load_witness:
  "\<exists>ls. fst (snd (Save (\<lambda>m. m) \<lparr>ioOpen = True, ioWrite = True, ioClose = True, ioRename = True\<rparr> None ex_pool1)) = Some ls
     \<and> assignment (snd (Load (Contents ls False) (ex_pool\<lparr>reserved := \<lambda>_. False\<rparr>))) ex_host = Some (IPv4 0xc0a80003, 1000, False)"
proof -
  let ?s = "\<lparr>ioOpen = True, ioWrite = True, ioClose = True, ioRename = True\<rparr>"
  obtain ls p' where s: "Save (\<lambda>m. m) ?s None ex_pool1 = (None, Some ls, p')"
    by (simp add: Save_def Let_def case_prod_unfold)
  have n: "NewPool (\<lambda>_. 0) (pPrefix ex_pool1) ex_opt = Inr ex_pool" by (simp add: ex_pool1_same ex_pool_new)
  have "Is6 ex_host" "ValidIPv6 (As16 ex_host)" "clock ex_pool 0 = 1000" "minLease ex_pool = DefaultMinLease" by code_simp+
  then have "assignment (snd (Load (Contents ls False) (ex_pool\<lparr>reserved := \<lambda>_. False\<rparr>))) ex_host = Some (IPv4 0xc0a80003, 1000, False)"
    using Save_then_Load [OF ex_pool_reach(2) iter_id n s, of "\<lambda>_. False" ex_host] by (simp add: ex_pool1_assignment)
  then show ?thesis by (simp add: s)
qed

text \<open>
  Claim C25. The loop that folds the hash of a host into the pool ends for every pool: on the
  pool's mask it satisfies the equation of the unguarded loop, so that the code leaves it
  after finitely many passes, and the hash it gives is an offset of the pool.
\<close>

theorem hash_loop_ends:
  assumes "pool_reach p"
  shows "let mx = pMax p; k = nat (32 - pBits (pPrefix p)) in
      hash_fold mx k h = (if h AND NOT mx \<noteq> 0 then hash_fold mx k ((h AND mx) + drop_bit k h) else h)
    \<and> (h AND NOT mx \<noteq> 0 \<longrightarrow> (h AND mx) + drop_bit k h < h)
    \<and> hash p a \<le> mx"
proof -
  obtain k where k: "1 \<le> k" "k \<le> 24" "pMax p = mask k" "nat (32 - pBits (pPrefix p)) = k"
    using geometryD [OF pool_ok_dom(1) [OF pool_reach_ok [OF assms]]] by metis
  have "hash_fold (mask k) k h \<le> mask k" for h :: u32 using hash_fold_range [OF k(1,2), of h] by (rule le_maskI)
  then have "hash p a \<le> mask k" by (simp add: hash_def k)
  then show ?thesis using hash_fold_unfold [OF k(1,2), of h] hash_step_less [OF k(1,2), of h] k(3,4) by (simp add: Let_def)
qed

theorem hash_loop_ends_witness: "hash ex_pool1 ex_host \<le> pMax ex_pool1"
  using hash_loop_ends [OF ex_pool_reach(2), where a = ex_host] by (simp add: Let_def)

end
