(* ===== verification/TableProps.thy ===== *)
theory TableProps
  imports TableReach PoolProps
begin

text \<open>
  The properties of the mapping table, for every table a builder gives and every state its use
  leads to, and the table of the worked examples.
\<close>

subsection \<open>Examples\<close>

text \<open>The well-known prefix, one static map of 256 hosts, and the pool of three addresses.\<close>

definition ex_prefix6 :: Entry where
  "ex_prefix6 = \<lparr>eKind = KindRFC6052, eV4 = PrefixFrom (IPv4 0) 0, eV6 = WellKnownPrefix, v4Only = False\<rparr>"

definition ex_static :: Entry where
  "ex_static = \<lparr>eKind = KindStatic, eV4 = \<lparr>pAddr = IPv4 0xc6336400, pBits = 24\<rparr>,
     eV6 = \<lparr>pAddr = IPv6 0x20010db8000100000000000000000000, pBits = 120\<rparr>, v4Only = False\<rparr>"

definition ex_dynamic :: Entry where
  "ex_dynamic = \<lparr>eKind = KindDynamicPool, eV4 = ex_prefix, eV6 = NoPrefix, v4Only = False\<rparr>"

definition ex_builder :: Builder where
  "ex_builder = \<lparr>bWkpfStrict = True, bEntries = [ex_prefix6, ex_static, ex_dynamic], bPool = Some ex_pool\<rparr>"

lemma ex_builder_steps:
  "AddPrefix WellKnownPrefix (NewBuilder True) = Inr \<lparr>bWkpfStrict = True, bEntries = [ex_prefix6], bPool = None\<rparr>"
  "AddStatic (eV4 ex_static) (eV6 ex_static) \<lparr>bWkpfStrict = True, bEntries = [ex_prefix6], bPool = None\<rparr>
     = Inr \<lparr>bWkpfStrict = True, bEntries = [ex_prefix6, ex_static], bPool = None\<rparr>"
  "SetPool ex_pool \<lparr>bWkpfStrict = True, bEntries = [ex_prefix6, ex_static], bPool = None\<rparr> = Inr ex_builder"
proof -
  have "Is6 (pAddr WellKnownPrefix)" "\<not> Is4In6 (pAddr WellKnownPrefix)" "ValidRFC6052PrefixLen (pBits WellKnownPrefix)"
    "Masked WellKnownPrefix = WellKnownPrefix" "ValidIPv6 (As16 (pAddr WellKnownPrefix))" by code_simp+
  then show "AddPrefix WellKnownPrefix (NewBuilder True) = Inr \<lparr>bWkpfStrict = True, bEntries = [ex_prefix6], bPool = None\<rparr>"
    by (simp add: AddPrefix_def NewBuilder_def ex_prefix6_def)
  have "Is4 (pAddr (eV4 ex_static))" "Is6 (pAddr (eV6 ex_static))" "\<not> Is4In6 (pAddr (eV6 ex_static))" "32 - pBits (eV4 ex_static) = 128 - pBits (eV6 ex_static)"
    "Masked (eV4 ex_static) = eV4 ex_static" "Masked (eV6 ex_static) = eV6 ex_static" "ClassifyIPv4 (As4 (pAddr (eV4 ex_static))) \<noteq> IPv4Invalid"
    "ValidIPv6 (As16 (pAddr (eV6 ex_static)))" by code_simp+
  then show "AddStatic (eV4 ex_static) (eV6 ex_static) \<lparr>bWkpfStrict = True, bEntries = [ex_prefix6], bPool = None\<rparr>
     = Inr \<lparr>bWkpfStrict = True, bEntries = [ex_prefix6, ex_static], bPool = None\<rparr>"
    by (simp add: AddStatic_def) (simp add: ex_static_def)
  have "pPrefix ex_pool = ex_prefix" by code_simp
  then show "SetPool ex_pool \<lparr>bWkpfStrict = True, bEntries = [ex_prefix6, ex_static], bPool = None\<rparr> = Inr ex_builder"
    by (simp add: SetPool_def ex_builder_def ex_dynamic_def)
qed

lemma ex_builder_reach: "builder_reach ex_builder"
proof -
  have w: "wf_prefix WellKnownPrefix" "wf_prefix (eV4 ex_static)" "wf_prefix (eV6 ex_static)" by code_simp+
  note s = ex_builder_steps
  have "builder_reach \<lparr>bWkpfStrict = True, bEntries = [ex_prefix6], bPool = None\<rparr>" by (rule builder_reach.prefix [OF builder_reach.new w(1) s(1)])
  then have "builder_reach \<lparr>bWkpfStrict = True, bEntries = [ex_prefix6, ex_static], bPool = None\<rparr>" by (rule builder_reach.static [OF _ w(2,3) s(2)])
  then show ?thesis by (rule builder_reach.pool [OF _ NewPool_ok [OF ex_pool_new] s(3)])
qed

lemma ex_table: "Build ex_builder = Inr (table_of ex_builder)" "table_reach ex_builder (table_of ex_builder)"
proof -
  have "eV4 ex_prefix6 \<noteq> eV4 ex_static" "eV4 ex_prefix6 \<noteq> eV4 ex_dynamic" "eV4 ex_static \<noteq> eV4 ex_dynamic"
    "\<not> Overlaps (eV6 ex_prefix6) (eV6 ex_static)" "\<not> Overlaps (eV6 ex_static) (eV6 ex_prefix6)" "\<not> side6 ex_dynamic" by code_simp+
  then show b: "Build ex_builder = Inr (table_of ex_builder)"
    using Build_iff [OF builder_reach_ok [OF ex_builder_reach]] by (simp add: ex_builder_def)
  show "table_reach ex_builder (table_of ex_builder)" by (rule table_reach.built [OF b])
qed

text \<open>
  A second configuration that keeps the pool when \<open>ex_host\<close> already holds 192.168.0.3, and has a
  static map for that address: what a reload does with a pool whose prefix is unchanged.
\<close>

definition ex_claim :: Entry where
  "ex_claim = \<lparr>eKind = KindStatic, eV4 = \<lparr>pAddr = IPv4 0xc0a80003, pBits = 32\<rparr>,
     eV6 = \<lparr>pAddr = IPv6 0x20010db8000100000000000000000003, pBits = 128\<rparr>, v4Only = False\<rparr>"

definition ex_reload :: Builder where
  "ex_reload = \<lparr>bWkpfStrict = True, bEntries = [ex_claim, ex_dynamic], bPool = Some ex_pool1\<rparr>"

lemma ex_reload_reach: "builder_reach ex_reload"
proof -
  have c: "wf_prefix (eV4 ex_claim)" "wf_prefix (eV6 ex_claim)" "Is4 (pAddr (eV4 ex_claim))" "Is6 (pAddr (eV6 ex_claim))" "\<not> Is4In6 (pAddr (eV6 ex_claim))"
    "32 - pBits (eV4 ex_claim) = 128 - pBits (eV6 ex_claim)" "Masked (eV4 ex_claim) = eV4 ex_claim" "Masked (eV6 ex_claim) = eV6 ex_claim"
    "ClassifyIPv4 (As4 (pAddr (eV4 ex_claim))) \<noteq> IPv4Invalid" "ValidIPv6 (As16 (pAddr (eV6 ex_claim)))" by code_simp+
  let ?b = "\<lparr>bWkpfStrict = True, bEntries = [ex_claim], bPool = None\<rparr>"
  have "AddStatic (eV4 ex_claim) (eV6 ex_claim) (NewBuilder True) = Inr ?b"
    using c by (simp add: AddStatic_def NewBuilder_def) (simp add: ex_claim_def)
  from builder_reach.static [OF builder_reach.new c(1,2) this] have r: "builder_reach ?b" .
  have "SetPool ex_pool1 ?b = Inr ex_reload" by (simp add: SetPool_def ex_reload_def ex_dynamic_def ex_pool1_same)
  then show ?thesis by (rule builder_reach.pool [OF r pool_reach_ok [OF ex_pool_reach(2)]])
qed

lemma ex_reload_table: "table_reach ex_reload (table_of ex_reload)"
proof -
  have "eV4 ex_claim \<noteq> eV4 ex_dynamic" "\<not> side6 ex_dynamic" by code_simp+
  then have "Build ex_reload = Inr (table_of ex_reload)"
    using Build_iff [OF builder_reach_ok [OF ex_reload_reach]] by (simp add: ex_reload_def)
  then show ?thesis by (rule table_reach.built)
qed

subsection \<open>Properties\<close>

lemma build4_conflict: "build4 es s = Inl x \<Longrightarrow> ErrConflict x"
  by (induction es s rule: build4.induct) (auto simp: Let_def split: Kind.splits if_splits)

lemma build6_conflict: "build6 prev es t = Inl x \<Longrightarrow> ErrConflict x"
  by (induction prev es t rule: build6.induct) (auto split: option.splits)

text \<open>
  Claim C18. A builder gives a table exactly when no IPv4 prefix occurs twice among its entries,
  the pool's included, and no two of its IPv6 prefixes overlap; every failure is a conflict.
\<close>

theorem Build_succeeds_iff:
  assumes "builder_reach b"
  shows "((\<exists>t. Build b = Inr t) \<longleftrightarrow> distinct (map eV4 (bEntries b)) \<and>
      (\<forall>e \<in> set (bEntries b). \<forall>o' \<in> set (bEntries b). side6 e \<and> side6 o' \<and> e \<noteq> o' \<longrightarrow> \<not> Overlaps (eV6 e) (eV6 o')))
    \<and> (\<forall>x. Build b = Inl x \<longrightarrow> ErrConflict x)"
proof -
  have "Build b = Inl x \<Longrightarrow> ErrConflict x" for x
    using build4_conflict build6_conflict by (fastforce simp: Build_def Let_def split: sum.splits option.splits prod.splits)
  then show ?thesis using Build_iff [OF builder_reach_ok [OF assms]] by blast
qed

theorem Build_succeeds_iff_witness: "\<exists>t. Build ex_builder = Inr t"
proof -
  have "eV4 ex_prefix6 \<noteq> eV4 ex_static" "eV4 ex_prefix6 \<noteq> eV4 ex_dynamic" "eV4 ex_static \<noteq> eV4 ex_dynamic"
    "\<not> Overlaps (eV6 ex_prefix6) (eV6 ex_static)" "\<not> Overlaps (eV6 ex_static) (eV6 ex_prefix6)" "\<not> side6 ex_dynamic" by code_simp+
  then show ?thesis using Build_succeeds_iff [OF ex_builder_reach] by (simp add: ex_builder_def)
qed

text \<open>
  Claim C16. The lookup by IPv4 address, which tries a map of single hosts and then a list, finds
  the one entry with the longest prefix that contains the address, and nothing only when no
  entry contains it.
\<close>

theorem lookup4_longest_match:
  assumes "builder_reach b" "table_reach b t"
  shows "(Table_lookup4 t a = Some e \<longleftrightarrow> e \<in> set (bEntries b) \<and> Contains (eV4 e) a
      \<and> (\<forall>o' \<in> set (bEntries b). Contains (eV4 o') a \<longrightarrow> pBits (eV4 o') \<le> pBits (eV4 e)))
    \<and> (Table_lookup4 t a = None \<longleftrightarrow> (\<forall>o' \<in> set (bEntries b). \<not> Contains (eV4 o') a))"
  using table_facts(2,6) [OF assms] lookup4_None [OF table_facts(1) [OF assms]] by metis

theorem lookup4_longest_match_witness: "Table_lookup4 (table_of ex_builder) (IPv4 0xc6336407) = Some ex_static"
proof -
  have "Contains (eV4 ex_static) (IPv4 0xc6336407)" "pBits (eV4 ex_prefix6) \<le> pBits (eV4 ex_static)" "\<not> Contains (eV4 ex_dynamic) (IPv4 0xc6336407)" by code_simp+
  then show ?thesis using lookup4_longest_match [OF ex_builder_reach ex_table(2), of "IPv4 0xc6336407" ex_static] by (simp add: ex_builder_def)
qed

text \<open>
  Claim C17. The lookup by IPv6 address finds the entry whose IPv6 prefix contains the address;
  there is at most one.
\<close>

theorem lookup6_only_match:
  assumes "builder_reach b" "table_reach b t"
  shows "Table_lookup6 t a = Some e \<longleftrightarrow> e \<in> set (bEntries b) \<and> side6 e \<and> Contains (eV6 e) a"
  by (rule table_facts(7) [OF assms])

theorem lookup6_only_match_witness: "Table_lookup6 (table_of ex_builder) (IPv6 0x0064ff9b00000000000000000a000001) = Some ex_prefix6"
proof -
  have "Contains (eV6 ex_prefix6) (IPv6 0x0064ff9b00000000000000000a000001)" "side6 ex_prefix6" by code_simp+
  then show ?thesis using lookup6_only_match [OF ex_builder_reach ex_table(2)] by (simp add: ex_builder_def)
qed

text \<open>
  Claim C14. The IPv6 address an IPv4 address maps to maps back to it, whichever entry was used:
  a static map, the prefix or the pool. The exceptions are the translator's own address when
  its IPv6 side is derived from the prefix, and a dynamic host whose IPv6 address an entry of
  the table covers.
\<close>

theorem map4_round_trip:
  assumes "builder_reach b" "table_reach b t" "Table_MapIPv4ToIPv6 a t = (Inr c, t')"
    and "Table_lookup4 t a = Some e" "\<not> v4Only e" "eKind e = KindDynamicPool \<longrightarrow> Table_lookup6 t c = None"
  shows "fst (Table_MapIPv6ToIPv4 it c al t') = Inr a"
  using map4_back [OF assms(1-5)] assms(6) by blast

theorem map4_round_trip_witness:
  "fst (Table_MapIPv6ToIPv4 (\<lambda>m. m) (IPv6 0x20010db8000100000000000000000007) False (table_of ex_builder)) = Inr (IPv4 0xc6336407)"
proof -
  let ?t = "table_of ex_builder"
  have l: "Table_lookup4 ?t (IPv4 0xc6336407) = Some ex_static" "joinStatic6 ex_static (IPv4 0xc6336407) = IPv6 0x20010db8000100000000000000000007"
    "eKind ex_static = KindStatic" "\<not> v4Only ex_static" by code_simp+
  then have "Table_MapIPv4ToIPv6 (IPv4 0xc6336407) ?t = (Inr (IPv6 0x20010db8000100000000000000000007), ?t)" by (simp add: Table_MapIPv4ToIPv6_def)
  from map4_round_trip [OF ex_builder_reach ex_table(2) this l(1,4)] show ?thesis using l(3) by simp
qed

text \<open>
  Claim C15. The IPv4 address an IPv6 address maps to lies in the IPv4 prefix of the entry used, the
  one that contains the address or else the pool's, and maps back to it: always through the
  RFC 6052 prefix, where the hairpin test refuses the others; and through a static map or the pool
  unless an entry with a longer IPv4 prefix covers the IPv4 address. If a static map does, and it
  is not the translator's own derived one, the way back leads to the host of that map, never to
  the address it started from.
\<close>

theorem map6_round_trip:
  assumes "builder_reach b" "table_reach b t" "iter_ok it" "Table_MapIPv6ToIPv4 it a al t = (Inr v4, t')"
  shows "\<exists>e. entry_for6 t a = Some e \<and> Contains (eV4 e) v4
    \<and> (eKind e = KindRFC6052 \<or> \<not> outranked b e v4 \<longrightarrow> fst (Table_MapIPv4ToIPv6 v4 t') = Inr a)
    \<and> (\<forall>o'. Table_lookup4 t v4 = Some o' \<and> o' \<noteq> e \<and> eKind o' = KindStatic \<and> \<not> v4Only o'
        \<longrightarrow> fst (Table_MapIPv4ToIPv6 v4 t') = Inr (joinStatic6 o' v4) \<and> joinStatic6 o' v4 \<noteq> a)"
proof -
  obtain e where e: "entry_for6 t a = Some e" "Contains (eV4 e) v4"
      "prefix_entry e \<or> \<not> outranked b e v4 \<longrightarrow> fst (Table_MapIPv4ToIPv6 v4 t') = Inr a"
    using map6_back [OF assms] .
  have r: "table_reach b t'" using table_reach.map6 [OF assms(2,3), of a al] assms(4) by simp
  have l: "Table_lookup4 t' = Table_lookup4 t" "Table_lookup6 t' = Table_lookup6 t"
    using table_facts(2,3) [OF assms(1,2)] table_facts(2,3) [OF assms(1) r] by simp_all
  have "fst (Table_MapIPv4ToIPv6 v4 t') = Inr (joinStatic6 o' v4) \<and> joinStatic6 o' v4 \<noteq> a"
    if "Table_lookup4 t v4 = Some o'" "o' \<noteq> e" "eKind o' = KindStatic" "\<not> v4Only o'" for o'
  proof -
    have "Table_lookup6 t a \<noteq> Some o'" using that(2) e(1) by (auto simp: entry_for6_def)
    with l show ?thesis using static_in_the_way [OF assms(1) r, of v4 o' a] that by simp
  qed
  then show ?thesis using e by blast
qed

theorem map6_round_trip_witness:
  "(\<exists>v4 t'. Table_MapIPv6ToIPv4 (\<lambda>m. m) ex_host True (table_of ex_builder) = (Inr v4, t') \<and> fst (Table_MapIPv4ToIPv6 v4 t') = Inr ex_host)
   \<and> (\<exists>v4 t'. Table_MapIPv6ToIPv4 (\<lambda>m. m) ex_host True (table_of ex_reload) = (Inr v4, t') \<and> fst (Table_MapIPv4ToIPv6 v4 t') \<noteq> Inr ex_host)"
proof
  let ?t = "table_of ex_builder"
  have "fst (Table_MapIPv6ToIPv4 (\<lambda>m. m) ex_host True ?t) = Inr (IPv4 0xc0a80003)" by code_simp
  then obtain t' where m: "Table_MapIPv6ToIPv4 (\<lambda>m. m) ex_host True ?t = (Inr (IPv4 0xc0a80003), t')" by (metis prod.collapse)
  have "entry_for6 ?t ex_host = Some ex_dynamic" "\<not> outranked ex_builder ex_dynamic (IPv4 0xc0a80003)" by code_simp+
  then show "\<exists>v4 t'. Table_MapIPv6ToIPv4 (\<lambda>m. m) ex_host True ?t = (Inr v4, t') \<and> fst (Table_MapIPv4ToIPv6 v4 t') = Inr ex_host"
    using map6_round_trip [OF ex_builder_reach ex_table(2) iter_id m] m by auto
next
  let ?t = "table_of ex_reload"
  have "fst (Table_MapIPv6ToIPv4 (\<lambda>m. m) ex_host True ?t) = Inr (IPv4 0xc0a80003)" by code_simp
  then obtain t' where m: "Table_MapIPv6ToIPv4 (\<lambda>m. m) ex_host True ?t = (Inr (IPv4 0xc0a80003), t')" by (metis prod.collapse)
  have "entry_for6 ?t ex_host = Some ex_dynamic" "Table_lookup4 ?t (IPv4 0xc0a80003) = Some ex_claim" "ex_claim \<noteq> ex_dynamic"
    "eKind ex_claim = KindStatic" "\<not> v4Only ex_claim" by code_simp+
  then show "\<exists>v4 t'. Table_MapIPv6ToIPv4 (\<lambda>m. m) ex_host True ?t = (Inr v4, t') \<and> fst (Table_MapIPv4ToIPv6 v4 t') \<noteq> Inr ex_host"
    using map6_round_trip [OF ex_reload_reach ex_reload_table iter_id m] m by auto
qed



lemma fold_add:
  assumes "distinct out"
  shows "distinct (fold (\<lambda>e out. if e \<in> set out then out else out @ [e]) xs out)"
    "set (fold (\<lambda>e out. if e \<in> set out then out else out @ [e]) xs out) = set out \<union> set xs"
  using assms by (induction xs arbitrary: out) auto

text \<open>
  Claim C20. The entries a table reports are those of its builder, each once, by kind and then by
  IPv4 address, in whatever order the maps are iterated over and equal elements are sorted.
\<close>

theorem Entries_all:
  assumes "builder_reach b" "table_reach b t" "\<forall>m. mset (it m) = mset m" "\<forall>es. mset (pm es) = mset es"
  shows "mset (Entries it pm t) = mset (bEntries b)
    \<and> sorted (map (\<lambda>e. (kind_num (eKind e), addr_key (pAddr (eV4 e)))) (Entries it pm t))"
proof -
  let ?add = "\<lambda>e out. if e \<in> set out then out else out @ [e]"
  define out where "out = fold ?add (nets6 t) (fold ?add (map snd (it (hosts6 t))) (fold ?add (nets4 t) (fold ?add (map snd (it (hosts4 t))) [])))"
  have E: "Entries it pm t = sort_key (\<lambda>e. (kind_num (eKind e), addr_key (pAddr (eV4 e)))) (pm out)" by (simp add: Entries_def out_def Let_def)
  note ok = table_facts(1) [OF assms(1,2)]
  obtain mp where t: "t = (table_of b)\<lparr>tPool := mp\<rparr>" using table_reach_inv [OF ok assms(2)] by (auto simp: table_inv_def)
  have si: "set (it m) = set m" for m using assms(3) by (metis mset_eq_setD)
  have "set out = set (bEntries b)" by (auto simp: out_def fold_add t si image_image)
  moreover have "distinct out" by (simp add: out_def fold_add)
  moreover have "distinct (bEntries b)" using table_reach_Build [OF assms(2)] Build_entries_distinct [OF ok] by blast
  ultimately have "mset out = mset (bEntries b)" by (simp add: set_eq_iff_mset_eq_distinct)
  then show ?thesis using assms(4) by (simp add: E)
qed

theorem Entries_all_witness: "mset (Entries (\<lambda>m. m) rev (table_of ex_builder)) = mset [ex_static, ex_prefix6, ex_dynamic]"
  using Entries_all [OF ex_builder_reach ex_table(2), of "\<lambda>m. m" rev] by (simp add: ex_builder_def)

end
