(* ===== verification/Netconf.thy ===== *)
theory Netconf
  imports Netip
begin

text \<open>
  Model of \<^verbatim>\<open>src/internal/netconf/netconf.go\<close> and \<^verbatim>\<open>netconf_linux.go\<close>: the kernel set-up
  around the interface.

  The kernel is a parameter \<open>sys\<close> that answers a request and moves to another state; the
  requests are those the code makes through the netlink package and of \<^verbatim>\<open>/proc/sys\<close>, with
  the fields it sets. A function returns its error, if any, and the state. The link, which
  every request is about, and the log lines are left out.
\<close>

subsection \<open>Desired state\<close>










subsection \<open>Requests\<close>




datatype errno = ESRCH | EEXIST | ENOENT | EADDRNOTAVAIL | Errno nat








subsection \<open>Differences\<close>




subsection \<open>Routes and rules\<close>













subsection \<open>Apply and Update\<close>




subsection \<open>The source address\<close>

text \<open>
  \<^verbatim>\<open>RouteGet\<close> is a parameter: the source of each route the kernel reports, a byte slice that is nil
  where a route has none. The functions of \<^verbatim>\<open>net/netip\<close> come first.
\<close>

definition AddrFromSlice :: "byte list \<Rightarrow> Addr option" where
  "AddrFromSlice b = (if length b = 4 then Some (AddrFrom4 b) else if length b = 16 then Some (AddrFrom16 b) else None)"

fun Unmap :: "Addr \<Rightarrow> Addr" where
  "Unmap (IPv6 w) = (if Is4In6 (IPv6 w) then IPv4 (ucast w) else IPv6 w)"
| "Unmap a = a"

definition IsUnspecified :: "Addr \<Rightarrow> bool" where
  "IsUnspecified a \<longleftrightarrow> a = IPv4 0 \<or> a = IPv6 0"

fun source_of :: "byte list list \<Rightarrow> Addr option" where
  "source_of [] = None"
| "source_of (src # routes) =
     (case AddrFromSlice src of
        Some a \<Rightarrow> if \<not> IsUnspecified (Unmap a) then Some (Unmap a) else source_of routes
      | None \<Rightarrow> source_of routes)"

definition SourceAddress :: "(Addr \<Rightarrow> errno + byte list list) \<Rightarrow> Addr \<Rightarrow> Addr option" where
  "SourceAddress RouteGet dst = (case RouteGet dst of Inl _ \<Rightarrow> None | Inr routes \<Rightarrow> source_of routes)"

subsection \<open>What the kernel promises\<close>













subsection \<open>Total correctness\<close>











subsection \<open>Addresses, rules and routes\<close>











subsection \<open>Apply and Update on the state\<close>











subsection \<open>Properties\<close>





end
