(* ===== verification/Spec2Isabelle.thy ===== *)
theory Spec2Isabelle
  imports Answers EngineRun TableProps Netconf
begin

text \<open>
  Verification of clatto, a stateless IPv4/IPv6 translator (NAT64 and CLAT).
\<close>

end
